(* ===== verification/Prelude.thy ===== *)
theory Prelude
  imports Main "HOL-Library.Word" "HOL-Library.Monad_Syntax" "HOL-Library.Multiset"
    "HOL-Library.Char_ord" "HOL-Library.List_Lexorder" "HOL-Library.Product_Lexorder"
begin

text \<open>
  What the components share: the names of the machine types, undefined behaviour as a
  missing value, exceptions as the left side of a sum, the binary search of the C++
  standard library, and generic facts on lists.

  A C++ operation whose behaviour the standard leaves undefined in some states returns
  an option: \<open>None\<close> says that the run has left the defined behaviour. An operation
  that throws returns a sum: \<open>Inl\<close> is the exception, \<open>Inr\<close> the normal result.
\<close>

subsection \<open>Collections of facts\<close>

named_theorems ub_simps \<open>unfolding of the undefined-behaviour monad\<close>
named_theorems wf_intros \<open>introduction rules for the well-formedness of results\<close>

subsection \<open>Machine integers\<close>

type_synonym u8 = "8 word"
type_synonym u32 = "32 word"
type_synonym u64 = "64 word"
type_synonym i64 = "64 word"  \<comment> \<open>read with \<open>sint\<close>\<close>

text \<open>The values of a 32-bit \<open>int\<close>; leaving them is undefined behaviour.\<close>

definition int_max :: int where
  "int_max = 2147483647"

definition int_min :: int where
  "int_min = - 2147483648"

definition in_int :: "int \<Rightarrow> bool" where
  "in_int n \<longleftrightarrow> int_min \<le> n \<and> n \<le> int_max"

definition as_int :: "int \<Rightarrow> int option" where
  "as_int n = (if in_int n then Some n else None)"

definition assert_def_beh :: "bool \<Rightarrow> unit option" where
  "assert_def_beh b = (if b then Some () else None)"

lemma as_int_Some [simp]: "as_int n = Some m \<longleftrightarrow> m = n \<and> in_int n"
  by (auto simp: as_int_def)

lemma as_int_in_int [ub_simps]: "in_int n \<Longrightarrow> as_int n = Some n"
  by simp

lemma assert_def_beh_Some [simp]: "assert_def_beh b = Some u \<longleftrightarrow> b"
  by (auto simp: assert_def_beh_def)

lemma assert_def_beh_simps [simp, ub_simps]:
  "assert_def_beh True = Some ()" "assert_def_beh False = None"
  by (simp_all add: assert_def_beh_def)

lemma assert_def_beh_True: "b \<Longrightarrow> assert_def_beh b = Some ()"
  by simp

lemma in_int_nonneg: "0 \<le> n \<Longrightarrow> n \<le> int_max \<Longrightarrow> in_int n"
  by (simp add: in_int_def int_min_def)

subsection \<open>Options and sums in sequence\<close>

text \<open>The exceptions the library throws, with their messages.\<close>

datatype cpp_exception =
    invalid_argument string
  | length_error string
  | runtime_error string

lemma bind_eq_SomeD: "Option.bind x f = Some y \<Longrightarrow> \<exists>a. x = Some a \<and> f a = Some y"
  by (cases x) auto

definition sum_bind :: "'e + 'a \<Rightarrow> ('a \<Rightarrow> 'e + 'b) \<Rightarrow> 'e + 'b" where
  "sum_bind r f = (case r of Inl e \<Rightarrow> Inl e | Inr a \<Rightarrow> f a)"

lemma sum_bind_simps [simp]:
  "sum_bind (Inl e) f = Inl e" "sum_bind (Inr a) f = f a"
  by (simp_all add: sum_bind_def)

lemma sum_bind_eq_Inr: "sum_bind r f = Inr b \<longleftrightarrow> (\<exists>a. r = Inr a \<and> f a = Inr b)"
  by (cases r) auto

text \<open>Collecting the results of a loop body that may run into undefined behaviour.\<close>

fun map_opt :: "('a \<Rightarrow> 'b option) \<Rightarrow> 'a list \<Rightarrow> 'b list option" where
  "map_opt f [] = Some []"
| "map_opt f (x # xs) =
     (case f x of None \<Rightarrow> None
      | Some y \<Rightarrow> (case map_opt f xs of None \<Rightarrow> None | Some ys \<Rightarrow> Some (y # ys)))"

lemma map_opt_Some: "map_opt f xs = Some ys \<longleftrightarrow> list_all2 (\<lambda>x y. f x = Some y) xs ys"
proof (induction xs arbitrary: ys)
  case Nil
  then show ?case by auto
next
  case (Cons x xs)
  have "map_opt f (x # xs) = Some ys \<longleftrightarrow>
      (\<exists>z zs. f x = Some z \<and> map_opt f xs = Some zs \<and> ys = z # zs)"
    by (auto split: option.splits)
  then show ?case by (auto simp: Cons.IH list_all2_Cons1)
qed

lemma map_opt_length: "map_opt f xs = Some ys \<Longrightarrow> length ys = length xs"
  by (auto simp: map_opt_Some dest: list_all2_lengthD)

lemma map_opt_total: "(\<And>x. x \<in> set xs \<Longrightarrow> f x = Some (g x)) \<Longrightarrow> map_opt f xs = Some (map g xs)"
  by (induction xs) auto

lemma map_opt_in_set: "map_opt f xs = Some ys \<Longrightarrow> y \<in> set ys \<Longrightarrow> \<exists>x\<in>set xs. f x = Some y"
  by (fastforce simp: map_opt_Some list_all2_conv_all_nth in_set_conv_nth)

fun fold_opt :: "('a \<Rightarrow> 's \<Rightarrow> 's option) \<Rightarrow> 'a list \<Rightarrow> 's \<Rightarrow> 's option" where
  "fold_opt f [] s = Some s"
| "fold_opt f (x # xs) s = (case f x s of None \<Rightarrow> None | Some s' \<Rightarrow> fold_opt f xs s')"

lemma fold_opt_append: "fold_opt f (xs @ ys) s = Option.bind (fold_opt f xs s) (fold_opt f ys)"
  by (induction xs arbitrary: s) (auto split: option.splits)

lemma fold_opt_invariant:
  assumes "fold_opt f xs s = Some t" and "P s"
    and "\<And>x s s'. x \<in> set xs \<Longrightarrow> P s \<Longrightarrow> f x s = Some s' \<Longrightarrow> P s'"
  shows "P t"
  using assms
proof (induction xs arbitrary: s)
  case Nil
  then show ?case by simp
next
  case (Cons x xs)
  then obtain s' where s': "f x s = Some s'" "fold_opt f xs s' = Some t"
    by (auto split: option.splits)
  have "P s'" using Cons.prems(2) s'(1) by (rule Cons.prems(3) [rotated]) simp
  with s'(2) show ?case by (rule Cons.IH) (use Cons.prems(3) in auto)
qed

subsection \<open>Binary search\<close>

text \<open>
  \<open>std::lower_bound(first, last, value, less)\<close>: the position of the first element
  that is not less than the value, found by halving. \<open>p x\<close> is \<open>less(x, value)\<close>.
  The loop keeps the start of the remaining range and its length, as the library's does.
\<close>

function lower_bound_from :: "('a \<Rightarrow> bool) \<Rightarrow> 'a list \<Rightarrow> nat \<Rightarrow> nat \<Rightarrow> nat" where
  "lower_bound_from p xs first len =
     (if len = 0 then first
      else let half = len div 2; middle = first + half in
        if p (xs ! middle) then lower_bound_from p xs (middle + 1) (len - half - 1)
        else lower_bound_from p xs first half)"
  by pat_completeness auto
termination
  by (relation "measure (\<lambda>(p, xs, first, len). len)") auto

declare lower_bound_from.simps [simp del]

lemma lower_bound_from_0 [simp]: "lower_bound_from p xs first 0 = first"
  by (subst lower_bound_from.simps) simp

lemma lower_bound_from_step:
  "len \<noteq> 0 \<Longrightarrow> lower_bound_from p xs first len =
     (if p (xs ! (first + len div 2))
      then lower_bound_from p xs (first + len div 2 + 1) (len - len div 2 - 1)
      else lower_bound_from p xs first (len div 2))"
  by (subst lower_bound_from.simps) (simp add: Let_def)

definition lower_bound :: "('a \<Rightarrow> bool) \<Rightarrow> 'a list \<Rightarrow> nat" where
  "lower_bound p xs = lower_bound_from p xs 0 (length xs)"

text \<open>The elements less than the value come first: the search's precondition.\<close>

definition partitioned_by :: "('a \<Rightarrow> bool) \<Rightarrow> 'a list \<Rightarrow> bool" where
  "partitioned_by p xs \<longleftrightarrow> (\<forall>i j. i < j \<longrightarrow> j < length xs \<longrightarrow> p (xs ! j) \<longrightarrow> p (xs ! i))"

lemma lower_bound_from_le:
  "first + len \<le> n \<Longrightarrow> lower_bound_from p xs first len \<le> n"
proof (induction p xs first len rule: lower_bound_from.induct)
  case (1 p xs first len)
  show ?case
  proof (cases "len = 0")
    case True
    then show ?thesis using "1.prems" by simp
  next
    case False
    have "first + len div 2 + 1 + (len - len div 2 - 1) \<le> n" "first + len div 2 \<le> n"
      using False "1.prems" by linarith+
    with "1.IH" [OF False refl refl] False show ?thesis
      by (simp add: lower_bound_from_step)
  qed
qed

lemma lower_bound_le: "lower_bound p xs \<le> length xs"
  by (simp add: lower_bound_def lower_bound_from_le)

lemma lower_bound_from_correct:
  assumes "partitioned_by p xs" and "first + len \<le> length xs"
    and "\<forall>i < first. p (xs ! i)"
    and "\<forall>i. first + len \<le> i \<longrightarrow> i < length xs \<longrightarrow> \<not> p (xs ! i)"
  shows "(\<forall>i < lower_bound_from p xs first len. p (xs ! i)) \<and>
    (\<forall>i. lower_bound_from p xs first len \<le> i \<longrightarrow> i < length xs \<longrightarrow> \<not> p (xs ! i))"
  using assms
proof (induction p xs first len rule: lower_bound_from.induct)
  case (1 p xs first len)
  let ?m = "first + len div 2"
  show ?case
  proof (cases "len = 0")
    case True
    then show ?thesis using "1.prems" by simp
  next
    case False
    then have m: "?m < first + len" "?m < length xs" using "1.prems"(2) by linarith+
    show ?thesis
    proof (cases "p (xs ! ?m)")
      case True
      have below: "\<forall>i < ?m + 1. p (xs ! i)"
        using True m "1.prems"(1) by (auto simp: partitioned_by_def less_Suc_eq)
      have sum: "?m + 1 + (len - len div 2 - 1) = first + len"
        using False by linarith
      show ?thesis
        using "1.IH"(1) [OF False refl refl True "1.prems"(1)] below "1.prems"(2,4) False True sum
        by (simp add: lower_bound_from_step)
    next
      case notp: False
      have above: "\<forall>i. ?m \<le> i \<longrightarrow> i < length xs \<longrightarrow> \<not> p (xs ! i)"
        using notp "1.prems"(1) by (auto simp: partitioned_by_def le_eq_less_or_eq)
      show ?thesis
        using "1.IH"(2) [OF False refl refl notp "1.prems"(1)] above "1.prems"(3) False notp m
        by (simp add: lower_bound_from_step)
    qed
  qed
qed

lemma lower_bound_before: "partitioned_by p xs \<Longrightarrow> i < lower_bound p xs \<Longrightarrow> p (xs ! i)"
  using lower_bound_from_correct [of p xs 0 "length xs"] by (simp add: lower_bound_def)

lemma lower_bound_after:
  "partitioned_by p xs \<Longrightarrow> lower_bound p xs \<le> i \<Longrightarrow> i < length xs \<Longrightarrow> \<not> p (xs ! i)"
  using lower_bound_from_correct [of p xs 0 "length xs"] by (simp add: lower_bound_def)

lemma lower_bound_unique:
  assumes "partitioned_by p xs" and "k \<le> length xs" and "\<forall>i<k. p (xs ! i)"
    and "\<forall>i. k \<le> i \<longrightarrow> i < length xs \<longrightarrow> \<not> p (xs ! i)"
  shows "lower_bound p xs = k"
proof (rule linorder_cases [of "lower_bound p xs" k])
  assume lt: "lower_bound p xs < k"
  then have "p (xs ! lower_bound p xs)" using assms(3) by blast
  moreover have "\<not> p (xs ! lower_bound p xs)"
    using assms(1,2) lt by (intro lower_bound_after) auto
  ultimately show ?thesis by blast
next
  assume gt: "k < lower_bound p xs"
  then have "p (xs ! k)" by (rule lower_bound_before [OF assms(1)])
  moreover have "\<not> p (xs ! k)" using assms(4) gt lower_bound_le [of p xs] by auto
  ultimately show ?thesis by blast
qed

subsection \<open>Lists\<close>

definition insert_at :: "nat \<Rightarrow> 'a \<Rightarrow> 'a list \<Rightarrow> 'a list" where
  "insert_at i x xs = take i xs @ x # drop i xs"

lemma mset_insert_at [simp]: "mset (insert_at i x xs) = add_mset x (mset xs)"
proof -
  have "mset (take i xs) + mset (drop i xs) = mset xs"
    by (metis append_take_drop_id mset_append)
  then show ?thesis by (simp add: insert_at_def)
qed

lemma set_insert_at [simp]: "set (insert_at i x xs) = insert x (set xs)"
  by (metis mset_insert_at set_mset_add_mset_insert set_mset_mset)

lemma length_insert_at [simp]: "length (insert_at i x xs) = Suc (length xs)"
  by (metis mset_insert_at size_add_mset size_mset)

lemma sorted_wrt_insert_at:
  assumes "sorted_wrt R xs" and "i \<le> length xs"
    and "\<And>y. y \<in> set (take i xs) \<Longrightarrow> R y x" and "\<And>y. y \<in> set (drop i xs) \<Longrightarrow> R x y"
  shows "sorted_wrt R (insert_at i x xs)"
proof -
  have "sorted_wrt R (take i xs @ drop i xs)" using assms(1) by simp
  then have "sorted_wrt R (take i xs)" "sorted_wrt R (drop i xs)"
    "\<forall>y\<in>set (take i xs). \<forall>z\<in>set (drop i xs). R y z"
    unfolding sorted_wrt_append by simp_all
  then show ?thesis using assms(3,4) by (simp add: insert_at_def sorted_wrt_append)
qed

lemma sum_list_insert_at:
  "sum_list (map f (insert_at i x xs)) = f x + sum_list (map f xs)" for f :: "'a \<Rightarrow> 'b::comm_monoid_add"
proof -
  have "sum_list (map f (take i xs)) + sum_list (map f (drop i xs)) = sum_list (map f (take i xs @ drop i xs))"
    unfolding map_append sum_list_append ..
  then show ?thesis by (simp add: insert_at_def add.left_commute)
qed

lemma find_Some_in_set: "find P xs = Some x \<Longrightarrow> x \<in> set xs \<and> P x"
  by (auto simp: find_Some_iff)

lemma filter_length_le_append: "length (filter P xs) \<le> length (filter P (xs @ ys))"
  by simp

end
