(* ===== verification/Doubles.thy ===== *)
theory Doubles
  imports Complex_Main "HOL-Library.Log_Nat" Prelude
begin

text \<open>
  The C++ type \<open>double\<close> as IEEE 754 binary64, which every platform the library builds
  on uses: a value is NaN, an infinity, the negative zero or a finite rational (\<open>Fin 0\<close> is
  the positive zero). Arithmetic is exact rational arithmetic followed by one rounding to
  nearest, ties to even, with 53 bits of precision, gradual underflow below \<open>2^-1022\<close> and
  overflow to infinity from \<open>2^1024\<close>. NaN payloads are not modelled: no operation of the
  library reads them. The conversions to integer types are undefined behaviour where the
  truncated value does not fit, hence options.
\<close>

datatype double = NaN | PInf | MInf | NegZero | Fin rat

subsection \<open>Rounding\<close>

text \<open>The exponent of the leading bit: \<open>2^e \<le> q < 2^(e+1)\<close>.\<close>

definition ilog2 :: "rat \<Rightarrow> int" where
  "ilog2 q = (let (a, b) = quotient_of q; e = bitlen a - bitlen b
    in if q < 2 powi e then e - 1 else e)"

text \<open>Nearest integer, ties to even.\<close>

definition rne :: "rat \<Rightarrow> int" where
  "rne x = (let f = floor x; d = x - of_int f in
     if d < 1/2 then f else if d > 1/2 then f + 1 else if even f then f else f + 1)"

text \<open>The exponent of the unit in the last place of a value of magnitude \<open>q\<close>.\<close>

definition ulp_exp :: "rat \<Rightarrow> int" where
  "ulp_exp q = max (ilog2 q - 52) (- 1074)"

definition rnd_fin :: "rat \<Rightarrow> rat" where
  "rnd_fin q = (if q = 0 then 0 else
     let k = ulp_exp \<bar>q\<bar> in of_int (rne (q * 2 powi (- k))) * 2 powi k)"

text \<open>
  The result of an operation whose exact value is \<open>q\<close>; \<open>s\<close> is the sign of an exact zero.
\<close>

definition overflow_bound :: rat where
  "overflow_bound = 2 ^ 1024"

definition rnd :: "bool \<Rightarrow> rat \<Rightarrow> double" where
  "rnd s q = (if q = 0 then (if s then NegZero else Fin 0)
     else let r = rnd_fin q in
       if r = 0 then (if q < 0 then NegZero else Fin 0)
       else if overflow_bound \<le> r then PInf
       else if r \<le> - overflow_bound then MInf
       else Fin r)"

definition representable :: "rat \<Rightarrow> bool" where
  "representable q \<longleftrightarrow> rnd_fin q = q \<and> \<bar>q\<bar> < overflow_bound"

text \<open>The values a \<open>double\<close> can hold.\<close>

fun is_double :: "double \<Rightarrow> bool" where
  "is_double (Fin q) = representable q"
| "is_double _ = True"

subsection \<open>Classification and comparison\<close>

fun dval :: "double \<Rightarrow> rat" where
  "dval (Fin q) = q"
| "dval _ = 0"

fun dneg_sign :: "double \<Rightarrow> bool" where
  "dneg_sign MInf = True"
| "dneg_sign NegZero = True"
| "dneg_sign (Fin q) = (q < 0)"
| "dneg_sign _ = False"

fun dfinite :: "double \<Rightarrow> bool" where
  "dfinite (Fin q) = True"
| "dfinite NegZero = True"
| "dfinite _ = False"

fun dkey :: "double \<Rightarrow> int \<times> rat" where
  "dkey MInf = (-1, 0)"
| "dkey PInf = (1, 0)"
| "dkey (Fin q) = (0, q)"
| "dkey _ = (0, 0)"

text \<open>The operators \<open><\<close>, \<open><=\<close> and \<open>==\<close>: false as soon as an operand is NaN.\<close>

definition dlt :: "double \<Rightarrow> double \<Rightarrow> bool" where
  "dlt x y \<longleftrightarrow> x \<noteq> NaN \<and> y \<noteq> NaN \<and> dkey x < dkey y"

definition dle :: "double \<Rightarrow> double \<Rightarrow> bool" where
  "dle x y \<longleftrightarrow> x \<noteq> NaN \<and> y \<noteq> NaN \<and> dkey x \<le> dkey y"

definition deq :: "double \<Rightarrow> double \<Rightarrow> bool" where
  "deq x y \<longleftrightarrow> x \<noteq> NaN \<and> y \<noteq> NaN \<and> dkey x = dkey y"

subsection \<open>Arithmetic\<close>

fun dadd :: "double \<Rightarrow> double \<Rightarrow> double" where
  "dadd NaN y = NaN"
| "dadd x NaN = NaN"
| "dadd PInf MInf = NaN"
| "dadd MInf PInf = NaN"
| "dadd PInf y = PInf"
| "dadd x PInf = PInf"
| "dadd MInf y = MInf"
| "dadd x MInf = MInf"
| "dadd NegZero NegZero = NegZero"
| "dadd x y = rnd False (dval x + dval y)"

fun dneg :: "double \<Rightarrow> double" where
  "dneg NaN = NaN"
| "dneg PInf = MInf"
| "dneg MInf = PInf"
| "dneg NegZero = Fin 0"
| "dneg (Fin q) = (if q = 0 then NegZero else Fin (- q))"

definition dsub :: "double \<Rightarrow> double \<Rightarrow> double" where
  "dsub x y = dadd x (dneg y)"

definition dzero :: "double \<Rightarrow> bool" where
  "dzero x \<longleftrightarrow> x = NegZero \<or> x = Fin 0"

definition dmul :: "double \<Rightarrow> double \<Rightarrow> double" where
  "dmul x y = (let s = (dneg_sign x \<noteq> dneg_sign y) in
     if x = NaN \<or> y = NaN then NaN
     else if dfinite x \<and> dfinite y then rnd s (dval x * dval y)
     else if dzero x \<or> dzero y then NaN
     else if s then MInf else PInf)"

definition ddiv :: "double \<Rightarrow> double \<Rightarrow> double" where
  "ddiv x y = (let s = (dneg_sign x \<noteq> dneg_sign y) in
     if x = NaN \<or> y = NaN then NaN
     else if \<not> dfinite x then (if \<not> dfinite y then NaN else if s then MInf else PInf)
     else if \<not> dfinite y then (if s then NegZero else Fin 0)
     else if dzero y then (if dzero x then NaN else if s then MInf else PInf)
     else rnd s (dval x / dval y))"

subsection \<open>Conversions\<close>

definition dint :: "int \<Rightarrow> double" where
  "dint n = rnd False (of_int n)"

definition dfloor :: "double \<Rightarrow> double" where
  "dfloor x = (case x of Fin q \<Rightarrow> Fin (of_int (floor q)) | _ \<Rightarrow> x)"

definition trunc :: "rat \<Rightarrow> int" where
  "trunc q = (if 0 \<le> q then floor q else ceiling q)"

text \<open>\<open>static_cast<int>\<close> and the conversion to a 64-bit unsigned integer.\<close>

definition double_to_int :: "double \<Rightarrow> int option" where
  "double_to_int x = (if dfinite x then as_int (trunc (dval x)) else None)"

definition double_to_u64 :: "double \<Rightarrow> u64 option" where
  "double_to_u64 x = (if dfinite x \<and> 0 \<le> trunc (dval x) \<and> trunc (dval x) < 2 ^ 64
     then Some (word_of_int (trunc (dval x))) else None)"

subsection \<open>The order\<close>

lemma dle_refl [simp]: "dle x x \<longleftrightarrow> x \<noteq> NaN"
  by (simp add: dle_def)

lemma dle_trans: "dle x y \<Longrightarrow> dle y z \<Longrightarrow> dle x z"
  by (auto simp: dle_def)

lemma dlt_trans: "dlt x y \<Longrightarrow> dlt y z \<Longrightarrow> dlt x z"
  unfolding dlt_def by (meson less_trans)

lemma dle_dlt_trans: "dle x y \<Longrightarrow> dlt y z \<Longrightarrow> dlt x z"
  unfolding dle_def dlt_def by (meson le_less_trans)

lemma dlt_dle_trans: "dlt x y \<Longrightarrow> dle y z \<Longrightarrow> dlt x z"
  unfolding dle_def dlt_def by (meson less_le_trans)

lemma dlt_imp_dle: "dlt x y \<Longrightarrow> dle x y"
  by (auto simp: dle_def dlt_def)

lemma dlt_irrefl [simp]: "\<not> dlt x x"
  by (simp add: dlt_def)

lemma not_dlt: "x \<noteq> NaN \<Longrightarrow> y \<noteq> NaN \<Longrightarrow> \<not> dlt x y \<longleftrightarrow> dle y x"
  by (auto simp: dle_def dlt_def)

lemma not_dle: "x \<noteq> NaN \<Longrightarrow> y \<noteq> NaN \<Longrightarrow> \<not> dle x y \<longleftrightarrow> dlt y x"
  by (auto simp: dle_def dlt_def)

lemma dle_total: "x \<noteq> NaN \<Longrightarrow> y \<noteq> NaN \<Longrightarrow> dle x y \<or> dle y x"
  by (auto simp: dle_def)

lemma dlt_NaN [simp]: "\<not> dlt NaN y" "\<not> dlt x NaN"
  by (simp_all add: dlt_def)

lemma dle_NaN [simp]: "\<not> dle NaN y" "\<not> dle x NaN"
  by (simp_all add: dle_def)

lemma dle_PInf [simp]: "dle x PInf \<longleftrightarrow> x \<noteq> NaN"
  by (cases x) (auto simp: dle_def)

lemma dle_Fin [simp]: "dle (Fin p) (Fin q) \<longleftrightarrow> p \<le> q"
  by (simp add: dle_def)

lemma dlt_Fin [simp]: "dlt (Fin p) (Fin q) \<longleftrightarrow> p < q"
  by (simp add: dlt_def)

lemma deq_Fin [simp]: "deq (Fin p) (Fin q) \<longleftrightarrow> p = q"
  by (simp add: deq_def)

lemma deq_imp_dle: "deq x y \<Longrightarrow> dle x y"
  by (auto simp: dle_def deq_def)

lemma dkey_finite: "dfinite x \<Longrightarrow> dkey x = (0, dval x)"
  by (cases x) auto

lemma dle_finite: "dfinite x \<Longrightarrow> dfinite y \<Longrightarrow> dle x y \<longleftrightarrow> dval x \<le> dval y"
  by (cases x; cases y) (auto simp: dle_def)

lemma dlt_finite: "dfinite x \<Longrightarrow> dfinite y \<Longrightarrow> dlt x y \<longleftrightarrow> dval x < dval y"
  by (cases x; cases y) (auto simp: dlt_def)

end
