(* ===== verification/ClientMetric.thy ===== *)
theory ClientMetric
  imports Doubles
begin

text \<open>
  The data exchanged between the metrics, the registry and the serializer:
  \<open>metric_type.h\<close>, \<open>labels.h\<close>, \<open>client_metric.h\<close> and \<open>metric_family.h\<close>. A \<open>std::map\<close>
  from label names to values is its list of entries in key order; strings are compared
  bytewise, as \<open>std::less<std::string>\<close> does.
\<close>

datatype MetricType = Counter | Gauge | Summary | Untyped | Histogram | Info

type_synonym label_map = "(string \<times> string) list"

definition wf_labels :: "label_map \<Rightarrow> bool" where
  "wf_labels ls \<longleftrightarrow> sorted_wrt (<) (map fst ls)"

text \<open>\<open>Labels{...}\<close> from an initializer list: the first entry of a key wins.\<close>

fun labels_emplace :: "string \<Rightarrow> string \<Rightarrow> label_map \<Rightarrow> label_map" where
  "labels_emplace k v [] = [(k, v)]"
| "labels_emplace k v ((k', v') # ls) =
     (if k < k' then (k, v) # (k', v') # ls
      else if k = k' then (k', v') # ls
      else (k', v') # labels_emplace k v ls)"

definition labels_of :: "(string \<times> string) list \<Rightarrow> label_map" where
  "labels_of ps = fold (\<lambda>(k, v). labels_emplace k v) ps []"

definition labels_count :: "label_map \<Rightarrow> string \<Rightarrow> nat" where
  "labels_count ls k = length (filter (\<lambda>(k', v'). k' = k) ls)"

record label =
  label_name :: string
  label_value :: string

definition label_lt :: "label \<Rightarrow> label \<Rightarrow> bool" where
  "label_lt l r \<longleftrightarrow> (label_name l, label_value l) < (label_name r, label_value r)"

definition label_eq :: "label \<Rightarrow> label \<Rightarrow> bool" where
  "label_eq l r \<longleftrightarrow> (label_name l, label_value l) = (label_name r, label_value r)"

record client_quantile =
  quantile_level :: double
  quantile_value :: double

record client_summary =
  summary_sample_count :: u64
  summary_sample_sum :: double
  summary_quantile :: "client_quantile list"

record client_bucket =
  cumulative_count :: u64
  upper_bound :: double

record client_histogram =
  histogram_sample_count :: u64
  histogram_sample_sum :: double
  histogram_bucket :: "client_bucket list"

record client_metric =
  metric_label :: "label list"
  counter_value :: double
  gauge_value :: double
  info_value :: double
  metric_summary :: client_summary
  metric_histogram :: client_histogram
  untyped_value :: double
  timestamp_ms :: i64

definition empty_client_metric :: client_metric where
  "empty_client_metric =
     \<lparr>metric_label = [], counter_value = Fin 0, gauge_value = Fin 0, info_value = Fin 1,
      metric_summary = \<lparr>summary_sample_count = 0, summary_sample_sum = Fin 0, summary_quantile = []\<rparr>,
      metric_histogram = \<lparr>histogram_sample_count = 0, histogram_sample_sum = Fin 0, histogram_bucket = []\<rparr>,
      untyped_value = Fin 0, timestamp_ms = 0\<rparr>"

record metric_family =
  family_name :: string
  family_help :: string
  family_type :: MetricType
  family_metric :: "client_metric list"

subsection \<open>Label maps\<close>

lemma set_labels_emplace: "fst ` set (labels_emplace k v ls) = insert k (fst ` set ls)"
  by (induction k v ls rule: labels_emplace.induct) auto

lemma wf_labels_emplace [wf_intros]: "wf_labels ls \<Longrightarrow> wf_labels (labels_emplace k v ls)"
proof (induction k v ls rule: labels_emplace.induct)
  case (2 k v k' v' ls)
  have mem: "set (map fst (labels_emplace k v ls)) = insert k (set (map fst ls))"
    using set_labels_emplace [of k v ls] by simp
  show ?case
  proof (cases "k < k'")
    case True
    with "2.prems" show ?thesis by (fastforce simp: wf_labels_def)
  next
    case False
    then consider "k = k'" | "k' < k" "k \<noteq> k'" by fastforce
    then show ?thesis
    proof cases
      case 1
      then show ?thesis using "2.prems" by simp
    next
      case 2
      have "wf_labels (labels_emplace k v ls)"
        using "2.IH" False 2 "2.prems" by (simp add: wf_labels_def)
      moreover have "\<forall>x\<in>set (map fst (labels_emplace k v ls)). k' < x"
        unfolding mem using 2(1) "2.prems" by (simp add: wf_labels_def)
      ultimately show ?thesis using False 2 by (simp add: wf_labels_def)
    qed
  qed
qed (simp add: wf_labels_def)

lemma wf_labels_of [wf_intros, simp]: "wf_labels (labels_of ps)"
proof -
  have "wf_labels (fold (\<lambda>(k, v). labels_emplace k v) ps acc)" if "wf_labels acc" for acc
    using that by (induction ps arbitrary: acc) (auto intro: wf_labels_emplace)
  then show ?thesis by (simp add: labels_of_def wf_labels_def)
qed

lemma labels_count_pos: "labels_count ls k \<noteq> 0 \<longleftrightarrow> k \<in> fst ` set ls"
  by (force simp: labels_count_def filter_empty_conv)

lemma wf_labels_distinct: "wf_labels ls \<Longrightarrow> distinct (map fst ls)"
  using strict_sorted_iff by (auto simp: wf_labels_def)

lemma wf_labels_count_le: "wf_labels ls \<Longrightarrow> labels_count ls k \<le> 1"
proof -
  assume "wf_labels ls"
  then have "distinct (map fst ls)" by (rule wf_labels_distinct)
  then show ?thesis
    by (induction ls) (auto simp: labels_count_def filter_empty_conv image_iff)
qed

text \<open>The comparison operators of \<open>ClientMetric::Label\<close> are a strict linear order.\<close>

lemma label_eq_iff: "label_eq l r \<longleftrightarrow> l = r"
  by (cases l; cases r) (auto simp: label_eq_def)

lemma label_lt_total: "label_lt l r \<or> label_eq l r \<or> label_lt r l"
  unfolding label_lt_def label_eq_def by (metis linorder_neqE)

lemma label_lt_trans: "label_lt a b \<Longrightarrow> label_lt b c \<Longrightarrow> label_lt a c"
  unfolding label_lt_def by (rule less_trans)

end
