(* ===== verification/Rounding.thy ===== *)
theory Rounding
  imports Doubles
begin

text \<open>
  Facts about rounding: it is monotone, it fixes the representable values, its result is
  representable, and small integers are representable. The components use them to show that
  counters do not decrease and that counts are exact below \<open>2^53\<close>.
\<close>

subsection \<open>The exponent\<close>

lemma bitlen_powi:
  assumes "0 < a"
  shows "2 powi (bitlen a - 1) \<le> (of_int a :: rat)" and "(of_int a :: rat) < 2 powi bitlen a"
proof -
  have bl: "1 \<le> bitlen a" using assms bitlen_ge_iff_power [of 1 a] by simp
  have pw: "of_int (2 ^ nat k) = (2::rat) powi k" if "0 \<le> k" for k
    using that by (simp add: power_int_def)
  from bitlen_bounds [OF assms]
  have "of_int (2 ^ nat (bitlen a - 1)) \<le> (of_int a :: rat)"
    and "(of_int a :: rat) < of_int (2 ^ nat (bitlen a))"
    by (simp_all only: of_int_le_iff of_int_less_iff)
  with bl show "2 powi (bitlen a - 1) \<le> (of_int a :: rat)" and "(of_int a :: rat) < 2 powi bitlen a"
    by (simp_all add: pw del: of_int_power)
qed

lemma ilog2_bounds:
  assumes "0 < q"
  shows "2 powi (ilog2 q) \<le> q" and "q < 2 powi (ilog2 q + 1)"
proof -
  obtain a b where ab: "quotient_of q = (a, b)" by fastforce
  then have b: "0 < b" and q: "q = of_int a / of_int b"
    by (auto dest: quotient_of_denom_pos quotient_of_div)
  with assms have a: "0 < a" by (simp add: zero_less_divide_iff)
  define e where "e = bitlen a - bitlen b"
  note la = bitlen_powi(1) [OF a] and ua = bitlen_powi(2) [OF a]
    and lb = bitlen_powi(1) [OF b] and ub = bitlen_powi(2) [OF b]
  have "q < 2 powi bitlen a / 2 powi (bitlen b - 1)"
    unfolding q using ua lb b by (intro frac_less) (use a in auto)
  then have upper: "q < 2 powi (e + 1)" by (simp add: e_def algebra_simps flip: power_int_diff)
  have "2 powi (bitlen a - 1) / 2 powi bitlen b \<le> q"
    unfolding q using la ub b a by (intro frac_le) auto
  then have lower: "2 powi (e - 1) \<le> q" by (simp add: e_def algebra_simps flip: power_int_diff)
  have il: "ilog2 q = (if q < 2 powi e then e - 1 else e)"
    by (simp add: ilog2_def ab e_def Let_def)
  show "2 powi (ilog2 q) \<le> q" using lower by (auto simp: il not_less)
  show "q < 2 powi (ilog2 q + 1)" using upper by (auto simp: il)
qed

lemma powi2_le_iff: "(2::rat) powi a \<le> 2 powi b \<longleftrightarrow> a \<le> b"
  by (meson power_int_increasing power_int_strict_increasing less_le_not_le
      linorder_not_le numeral_le_one_iff one_less_numeral_iff order_less_imp_le semiring_norm(69)
      semiring_norm(76))

lemma powi2_less_iff: "(2::rat) powi a < 2 powi b \<longleftrightarrow> a < b"
  using powi2_le_iff [of b a] by linarith

lemma powi2_pos [simp]: "0 < (2::rat) powi a"
  by simp

lemma ilog2_ge: "0 < q \<Longrightarrow> 2 powi e \<le> q \<Longrightarrow> e \<le> ilog2 q"
proof -
  assume "0 < q" "2 powi e \<le> q"
  then have "2 powi e < (2::rat) powi (ilog2 q + 1)" using ilog2_bounds(2) by (meson le_less_trans)
  then show ?thesis by (simp add: powi2_less_iff)
qed

lemma ilog2_less: "0 < q \<Longrightarrow> q < 2 powi e \<Longrightarrow> ilog2 q < e"
proof -
  assume "0 < q" "q < 2 powi e"
  then have "(2::rat) powi ilog2 q < 2 powi e" using ilog2_bounds(1) by (meson le_less_trans)
  then show ?thesis by (simp add: powi2_less_iff)
qed

lemma ilog2_mono: "0 < p \<Longrightarrow> p \<le> q \<Longrightarrow> ilog2 p \<le> ilog2 q"
  using ilog2_bounds(1) [of p] by (intro ilog2_ge) auto

lemma ulp_exp_mono: "0 < p \<Longrightarrow> p \<le> q \<Longrightarrow> ulp_exp p \<le> ulp_exp q"
  using ilog2_mono [of p q] by (auto simp: ulp_exp_def)

subsection \<open>Nearest integer\<close>

lemma rne_bounds: "floor x \<le> rne x" "rne x \<le> floor x + 1"
  by (auto simp: rne_def Let_def)

lemma rne_of_int [simp]: "rne (of_int n) = n"
  by (simp add: rne_def)

lemma rne_error: "\<bar>of_int (rne x) - x\<bar> \<le> 1/2"
proof -
  define d where "d = x - of_int (floor x)"
  have d: "0 \<le> d" "d < 1" unfolding d_def by linarith+
  have "of_int (rne x) - x = (if rne x = floor x then - d else 1 - d)"
    using rne_bounds [of x] by (auto simp: d_def)
  moreover have "rne x = floor x \<Longrightarrow> d \<le> 1/2" "rne x \<noteq> floor x \<Longrightarrow> 1/2 \<le> d"
    by (auto simp: rne_def Let_def d_def split: if_splits)
  ultimately show ?thesis using d by (auto simp: abs_if)
qed

lemma rne_nearest: "\<bar>x - of_int n\<bar> < 1 / 2 \<Longrightarrow> rne x = n"
proof -
  assume "\<bar>x - of_int n\<bar> < 1 / 2"
  then have "\<bar>of_int (rne x) - of_int n :: rat\<bar> < of_int 1" using rne_error [of x] by linarith
  then have "\<bar>rne x - n\<bar> < 1" by (simp only: of_int_diff [symmetric] of_int_abs [symmetric] of_int_less_iff)
  then show ?thesis by simp
qed

lemma rne_mono: "x \<le> y \<Longrightarrow> rne x \<le> rne y"
proof -
  assume xy: "x \<le> y"
  then have fl: "floor x \<le> floor y" by (rule floor_mono)
  show ?thesis
  proof (cases "floor x = floor y")
    case True
    with xy show ?thesis by (auto simp: rne_def Let_def)
  next
    case False
    with fl have "floor x + 1 \<le> floor y" by simp
    then show ?thesis using rne_bounds [of x] rne_bounds [of y] by linarith
  qed
qed

lemma rne_le: "x \<le> of_int n \<Longrightarrow> rne x \<le> n"
  using rne_mono [of x "of_int n"] by simp

lemma rne_ge: "of_int n \<le> x \<Longrightarrow> n \<le> rne x"
  using rne_mono [of "of_int n" x] by simp

lemma rne_minus: "rne (- x) = - rne x"
proof (cases "x \<in> \<int>")
  case True
  then obtain n where "x = of_int n" by (auto elim: Ints_cases)
  then show ?thesis using rne_of_int [of "- n"] by simp
next
  case False
  then have "floor (- x) = - floor x - 1"
    by (metis (no_types) Ints_of_int ceiling_altdef floor_minus minus_diff_eq add.inverse_distrib_swap
        uminus_add_conv_diff add.commute)
  then show ?thesis
    by (auto simp: rne_def Let_def)
qed

subsection \<open>Rounding of finite values\<close>

lemma rnd_fin_0 [simp]: "rnd_fin 0 = 0"
  by (simp add: rnd_fin_def)

lemma rnd_fin_minus [simp]: "rnd_fin (- q) = - rnd_fin q"
  by (simp add: rnd_fin_def Let_def rne_minus)

lemma ulp_exp_ge: "- 1074 \<le> ulp_exp q"
  by (simp add: ulp_exp_def)

lemma powi2_shift: "(2::rat) powi k * 2 powi (- u) = 2 powi (k - u)"
  by (simp add: power_int_diff power_int_minus divide_inverse)

lemma powi2_cancel [simp]: "(2::rat) powi (- u) * 2 powi u = 1" "(2::rat) powi u * 2 powi (- u) = 1"
  by (simp_all add: power_int_minus)

lemma of_int_powi2: "0 \<le> k \<Longrightarrow> (of_int (2 ^ nat k) :: rat) = 2 powi k"
  by (simp add: power_int_def)

lemma rnd_fin_on_grid:
  assumes "q \<noteq> 0" and "q = of_int n * 2 powi (ulp_exp \<bar>q\<bar>)"
  shows "rnd_fin q = q"
proof -
  have "q * 2 powi (- ulp_exp \<bar>q\<bar>) = of_int n"
    by (subst assms(2)) (simp add: mult.assoc)
  then show ?thesis using assms by (simp add: rnd_fin_def Let_def)
qed

text \<open>A multiple of a coarser power of two lies on the grid.\<close>

lemma on_finer_grid:
  assumes "u \<le> k"
  shows "of_int m * (2::rat) powi k = of_int (m * 2 ^ nat (k - u)) * 2 powi u"
proof -
  have "(2::rat) powi k = 2 powi (k - u) * 2 powi u"
    by (simp add: power_int_diff)
  moreover have "(of_int (2 ^ nat (k - u)) :: rat) = 2 powi (k - u)"
    using assms by (intro of_int_powi2) simp
  ultimately show ?thesis by (simp add: mult.assoc)
qed

lemma rnd_fin_fixed:
  assumes "q = of_int m * 2 powi k" and "\<bar>m\<bar> \<le> 2 ^ 53" and "- 1074 \<le> k"
  shows "rnd_fin q = q"
proof (cases "m = 0")
  case True
  then show ?thesis using assms by simp
next
  case False
  then have q0: "q \<noteq> 0" using assms by simp
  have aq: "\<bar>q\<bar> = of_int \<bar>m\<bar> * 2 powi k" using assms(1) by (simp add: abs_mult)
  show ?thesis
  proof (cases "\<bar>m\<bar> = 2 ^ 53")
    case True
    have "\<bar>q\<bar> = of_int (2 ^ nat 53) * 2 powi k" using aq True by simp
    also have "\<dots> = 2 powi 53 * 2 powi k" by simp
    also have "\<dots> = 2 powi (53 + k)" by (rule power_int_add [symmetric]) simp
    finally have aq': "\<bar>q\<bar> = 2 powi (53 + k)" .
    then have "53 + k \<le> ilog2 \<bar>q\<bar>" "ilog2 \<bar>q\<bar> < 54 + k"
      using q0 by (auto intro: ilog2_ge ilog2_less simp: powi2_less_iff)
    then have u: "ulp_exp \<bar>q\<bar> = k + 1" using assms(3) by (simp add: ulp_exp_def)
    have "q = of_int (sgn m * 2 ^ 52) * 2 powi (ulp_exp \<bar>q\<bar>)" unfolding u
      using assms(1) True False by (auto simp: sgn_if abs_if power_int_add split: if_splits)
    with q0 show ?thesis by (rule rnd_fin_on_grid)
  next
    case lt: False
    then have "(of_int \<bar>m\<bar> :: rat) < of_int (2 ^ nat 53)" using assms(2) by (subst of_int_less_iff) auto
    then have "(of_int \<bar>m\<bar> :: rat) < 2 powi 53" by (simp only: of_int_powi2)
    then have "\<bar>q\<bar> < 2 powi 53 * 2 powi k"
      unfolding aq by (intro mult_strict_right_mono) auto
    then have "\<bar>q\<bar> < 2 powi (53 + k)" by (simp add: power_int_add)
    then have "ilog2 \<bar>q\<bar> < 53 + k" using q0 by (intro ilog2_less) auto
    then have le: "ulp_exp \<bar>q\<bar> \<le> k" using assms(3) by (simp add: ulp_exp_def)
    show ?thesis using q0 trans [OF assms(1) on_finer_grid [OF le]] by (rule rnd_fin_on_grid)
  qed
qed

lemma rnd_fin_form:
  assumes "q \<noteq> 0"
  obtains m where "rnd_fin q = of_int m * 2 powi (ulp_exp \<bar>q\<bar>)" and "\<bar>m\<bar> \<le> 2 ^ 53"
proof -
  let ?u = "ulp_exp \<bar>q\<bar>" and ?m = "rne (q * 2 powi (- ulp_exp \<bar>q\<bar>))"
  have "\<bar>q\<bar> \<le> 2 powi (?u + 53)"
    using ilog2_bounds(2) [of "\<bar>q\<bar>"] assms powi2_le_iff [of "ilog2 \<bar>q\<bar> + 1" "?u + 53"]
    by (auto simp: ulp_exp_def)
  then have "\<bar>q\<bar> * 2 powi (- ?u) \<le> 2 powi (?u + 53) * 2 powi (- ?u)"
    by (rule mult_right_mono) simp
  also have "\<dots> = 2 powi 53" unfolding powi2_shift by (rule arg_cong [where f = "power_int 2"]) simp
  also have "\<dots> = of_int (2 ^ 53)" by simp
  finally have "\<bar>q * 2 powi (- ?u)\<bar> \<le> of_int (2 ^ 53)" by (simp add: abs_mult)
  then have "?m \<le> 2 ^ 53" "- (2 ^ 53) \<le> ?m"
    by (auto intro!: rne_le rne_ge simp: abs_le_iff)
  then have "\<bar>?m\<bar> \<le> 2 ^ 53" by linarith
  moreover have "rnd_fin q = of_int ?m * 2 powi ?u" using assms by (simp add: rnd_fin_def Let_def)
  ultimately show thesis by (rule that [rotated])
qed

lemma rnd_fin_idem [simp]: "rnd_fin (rnd_fin q) = rnd_fin q"
proof (cases "q = 0")
  case False
  then obtain m where "rnd_fin q = of_int m * 2 powi (ulp_exp \<bar>q\<bar>)" "\<bar>m\<bar> \<le> 2 ^ 53"
    by (rule rnd_fin_form)
  then show ?thesis using ulp_exp_ge by (rule rnd_fin_fixed)
qed simp

lemma rnd_fin_le_grid:
  assumes "0 < q" and "q \<le> of_int n * 2 powi (ulp_exp q)"
  shows "rnd_fin q \<le> of_int n * 2 powi (ulp_exp q)"
proof -
  have "q * 2 powi (- ulp_exp q) \<le> of_int n * 2 powi (ulp_exp q) * 2 powi (- ulp_exp q)"
    using assms(2) by (rule mult_right_mono) simp
  then have "rne (q * 2 powi (- ulp_exp q)) \<le> n" by (intro rne_le) (simp add: mult.assoc)
  then show ?thesis using assms(1) by (simp add: rnd_fin_def Let_def)
qed

lemma rnd_fin_ge_grid:
  assumes "0 < q" and "of_int n * 2 powi (ulp_exp q) \<le> q"
  shows "of_int n * 2 powi (ulp_exp q) \<le> rnd_fin q"
proof -
  have "of_int n * 2 powi (ulp_exp q) * 2 powi (- ulp_exp q) \<le> q * 2 powi (- ulp_exp q)"
    using assms(2) by (rule mult_right_mono) simp
  then have "n \<le> rne (q * 2 powi (- ulp_exp q))" by (intro rne_ge) (simp add: mult.assoc)
  then show ?thesis using assms(1) by (simp add: rnd_fin_def Let_def)
qed

lemma rnd_fin_mono_pos:
  assumes "0 < p" and "p \<le> q"
  shows "rnd_fin p \<le> rnd_fin q"
proof (cases "ulp_exp p = ulp_exp q")
  case True
  have "rne (p * 2 powi (- ulp_exp q)) \<le> rne (q * 2 powi (- ulp_exp q))"
    using assms(2) by (intro rne_mono mult_right_mono) auto
  then show ?thesis using assms True by (simp add: rnd_fin_def Let_def)
next
  case False
  let ?C = "(2::rat) powi ilog2 q"
  from False have uw: "ulp_exp p < ulp_exp q" using ulp_exp_mono [OF assms] by simp
  then have w: "ulp_exp q = ilog2 q - 52" and il: "ilog2 p < ilog2 q"
    by (auto simp: ulp_exp_def)
  have "p < 2 powi (ilog2 p + 1)" using assms by (intro ilog2_bounds)
  also have "\<dots> \<le> ?C" using il by (simp add: powi2_le_iff)
  finally have pC: "p \<le> ?C" by simp
  have C: "?C = of_int (1 * 2 ^ nat (ilog2 q - ulp_exp p)) * 2 powi (ulp_exp p)"
    using uw w on_finer_grid [of "ulp_exp p" "ilog2 q" 1] by simp
  have C': "?C = of_int (1 * 2 ^ nat (ilog2 q - ulp_exp q)) * 2 powi (ulp_exp q)"
    using w on_finer_grid [of "ulp_exp q" "ilog2 q" 1] by simp
  have "rnd_fin p \<le> ?C" using rnd_fin_le_grid [OF assms(1)] pC by (subst C) (simp only: C)
  also have "?C \<le> rnd_fin q"
    using rnd_fin_ge_grid [of q] ilog2_bounds(1) [of q] assms by (subst C') (simp only: C')
  finally show ?thesis .
qed

lemma rnd_fin_nonneg: "0 \<le> q \<Longrightarrow> 0 \<le> rnd_fin q"
  using rnd_fin_ge_grid [of q 0] by (cases "q = 0") auto

lemma rnd_fin_mono: "p \<le> q \<Longrightarrow> rnd_fin p \<le> rnd_fin q"
proof -
  assume pq: "p \<le> q"
  consider "0 < p" | "q < 0" | "p \<le> 0" "0 \<le> q" by linarith
  then show ?thesis
  proof cases
    case 1
    then show ?thesis using pq by (rule rnd_fin_mono_pos)
  next
    case 2
    then have "rnd_fin (- q) \<le> rnd_fin (- p)" using pq by (intro rnd_fin_mono_pos) auto
    then show ?thesis by simp
  next
    case 3
    then have "0 \<le> rnd_fin (- p)" "0 \<le> rnd_fin q" by (intro rnd_fin_nonneg; simp)+
    then show ?thesis by simp
  qed
qed

subsection \<open>Rounding to a double\<close>

lemma overflow_bound_pos [simp]: "0 < overflow_bound"
  by (simp add: overflow_bound_def)

lemma rnd_not_NaN [simp]: "rnd s q \<noteq> NaN"
  by (simp add: rnd_def Let_def)

lemma dkey_rnd:
  "dkey (rnd s q) = (if overflow_bound \<le> rnd_fin q then (1, 0)
     else if rnd_fin q \<le> - overflow_bound then (-1, 0) else (0, rnd_fin q))"
  using overflow_bound_pos by (auto simp: rnd_def Let_def not_le)

lemma rnd_mono: "p \<le> q \<Longrightarrow> dle (rnd s p) (rnd t q)"
  using rnd_fin_mono [of p q] overflow_bound_pos by (auto simp: dle_def dkey_rnd)

lemma is_double_rnd [simp, wf_intros]: "is_double (rnd s q)"
  by (auto simp: rnd_def Let_def representable_def abs_less_iff)

lemma rnd_representable: "representable q \<Longrightarrow> q \<noteq> 0 \<Longrightarrow> rnd s q = Fin q"
  by (auto simp: rnd_def representable_def abs_less_iff)

lemma rnd_0 [simp]: "rnd False 0 = Fin 0" "rnd True 0 = NegZero"
  by (simp_all add: rnd_def)

lemma rnd_False_representable: "representable q \<Longrightarrow> rnd False q = Fin q"
  by (cases "q = 0") (simp_all add: rnd_representable)

lemma rnd_dyadic:
  assumes "q = of_int m * 2 powi (- int k)" and "\<bar>m\<bar> \<le> 2 ^ 53" and "k \<le> 1000" and "q \<noteq> 0"
  shows "rnd s q = Fin q"
proof -
  have "rnd_fin q = q" using assms(1-3) by (intro rnd_fin_fixed) auto
  moreover have "\<bar>q\<bar> \<le> 2 ^ 53"
  proof -
    have "\<bar>q\<bar> = of_int \<bar>m\<bar> * 2 powi (- int k)" by (simp add: assms(1) abs_mult)
    also have "\<dots> \<le> of_int \<bar>m\<bar> * 1" by (intro mult_left_mono) (simp_all add: power_int_minus field_simps)
    also have "\<dots> \<le> of_int (2 ^ 53)" using assms(2) by (simp only: mult_1_right of_int_le_iff)
    finally show ?thesis by simp
  qed
  then have "\<bar>q\<bar> < overflow_bound" unfolding overflow_bound_def by (rule le_less_trans) simp
  ultimately have "representable q" by (simp add: representable_def)
  then show ?thesis using assms(4) by (rule rnd_representable)
qed

lemma dkey_rnd_representable: "representable q \<Longrightarrow> dkey (rnd s q) = (0, q)"
  by (cases "q = 0"; cases s) (simp_all add: rnd_representable)

lemma representable_0 [simp]: "representable 0"
  by (simp add: representable_def)

lemma representable_of_int: "\<bar>n\<bar> \<le> 2 ^ 53 \<Longrightarrow> representable (of_int n)"
proof -
  assume n: "\<bar>n\<bar> \<le> 2 ^ 53"
  have "rnd_fin (of_int n) = of_int n"
    using n by (intro rnd_fin_fixed [where m = n and k = 0]) auto
  moreover have "\<bar>of_int n :: rat\<bar> < overflow_bound"
  proof -
    have "\<bar>of_int n :: rat\<bar> \<le> of_int (2 ^ 53)"
      using n by (simp only: of_int_abs [symmetric] of_int_le_iff)
    also have "\<dots> < (2::rat) ^ 1024"
      unfolding of_int_power of_int_numeral by (rule power_strict_increasing) simp_all
    finally show ?thesis by (simp only: overflow_bound_def)
  qed
  ultimately show ?thesis by (simp add: representable_def)
qed

lemma dint_exact: "\<bar>n\<bar> \<le> 2 ^ 53 \<Longrightarrow> dint n = Fin (of_int n)"
  by (simp add: dint_def rnd_False_representable representable_of_int)

lemma is_double_dint [simp, wf_intros]: "is_double (dint n)"
  by (simp add: dint_def)

lemma dint_mono: "m \<le> n \<Longrightarrow> dle (dint m) (dint n)"
  by (simp add: dint_def rnd_mono)

lemma dint_not_NaN [simp]: "dint n \<noteq> NaN"
  by (simp add: dint_def)

subsection \<open>Arithmetic\<close>

lemma dadd_finite:
  "dfinite x \<Longrightarrow> dfinite y \<Longrightarrow> dadd x y = rnd (x = NegZero \<and> y = NegZero) (dval x + dval y)"
  by (cases x; cases y) auto

lemma is_double_dadd [simp, wf_intros]: "is_double (dadd x y)"
  by (cases x; cases y) auto

lemma is_double_dneg [wf_intros]: "is_double x \<Longrightarrow> is_double (dneg x)"
  by (cases x) (auto simp: representable_def)

lemma is_double_dmul [simp, wf_intros]: "is_double (dmul x y)"
  by (simp add: dmul_def Let_def)

lemma is_double_ddiv [simp, wf_intros]: "is_double (ddiv x y)"
  by (simp add: ddiv_def Let_def)

lemma dadd_nonneg_ge:
  assumes "is_double x" and "x \<noteq> NaN" and "dle (Fin 0) v" and "\<not> (x = MInf \<and> v = PInf)"
  shows "dle x (dadd x v)"
proof (cases "dfinite x \<and> dfinite v")
  case True
  then have v: "0 \<le> dval v" using assms(3) by (simp add: dle_finite)
  have "rnd_fin (dval x) = dval x" "\<bar>dval x\<bar> < overflow_bound"
    using assms(1) True by (cases x; simp add: representable_def)+
  then have "dkey x = dkey (rnd False (dval x))"
    using True by (auto simp: dkey_finite dkey_rnd abs_less_iff)
  moreover have "dle (rnd False (dval x)) (dadd x v)"
    using True v by (simp add: dadd_finite rnd_mono)
  ultimately show ?thesis using assms(2) by (simp add: dle_def)
next
  case False
  then show ?thesis using assms by (cases x; cases v) (auto simp: dle_def)
qed

lemma dadd_nonneg:
  assumes "dle (Fin 0) x" and "dle (Fin 0) y"
  shows "dle (Fin 0) (dadd x y)"
proof (cases "dfinite x \<and> dfinite y")
  case True
  then have "dle (rnd False 0) (dadd x y)"
    using assms by (simp add: dadd_finite dle_finite rnd_mono del: rnd_0)
  then show ?thesis by simp
next
  case False
  then show ?thesis using assms by (cases x; cases y) (auto simp: dle_def)
qed

lemma dadd_dint:
  "\<bar>m\<bar> \<le> 2 ^ 53 \<Longrightarrow> \<bar>n\<bar> \<le> 2 ^ 53 \<Longrightarrow> dadd (dint m) (dint n) = dint (m + n)"
proof -
  assume "\<bar>m\<bar> \<le> 2 ^ 53" "\<bar>n\<bar> \<le> 2 ^ 53"
  then have "dadd (dint m) (dint n) = rnd False (of_int m + of_int n)"
    by (simp add: dint_exact)
  then show ?thesis by (simp add: dint_def)
qed

lemma dint_0 [simp]: "dint 0 = Fin 0"
  by (simp add: dint_def)

lemma dint_1 [simp]: "dint 1 = Fin 1"
  using dint_exact [of 1] by simp

lemma dint_inj: "\<bar>m\<bar> \<le> 2 ^ 53 \<Longrightarrow> \<bar>n\<bar> \<le> 2 ^ 53 \<Longrightarrow> dint m = dint n \<longleftrightarrow> m = n"
  by (simp add: dint_exact)

lemma double_to_u64_dint:
  assumes "0 \<le> n" and "n \<le> 2 ^ 53"
  shows "double_to_u64 (dint n) = Some (word_of_int n)"
proof -
  have "n < 2 ^ 64" using assms(2) by (rule le_less_trans) simp
  with assms show ?thesis by (simp add: double_to_u64_def trunc_def dint_exact)
qed

subsection \<open>Large values are integers\<close>

lemma uint_of_nat_small: "n \<le> 2 ^ 53 \<Longrightarrow> uint (of_nat n :: u64) = int n"
proof -
  assume "n \<le> 2 ^ 53"
  then have "n < 2 ^ LENGTH(64)" by (rule le_less_trans) simp
  then show ?thesis by (simp add: uint_nat unat_of_nat)
qed

lemma representable_large:
  assumes "representable q" and "2 ^ 53 \<le> \<bar>q\<bar>"
  obtains n where "q = of_int n"
proof -
  have q0: "q \<noteq> 0" using assms(2) by auto
  let ?u = "ulp_exp \<bar>q\<bar>"
  from q0 obtain m where "rnd_fin q = of_int m * 2 powi ?u" by (rule rnd_fin_form)
  then have q: "q = of_int m * 2 powi ?u" using assms(1) by (simp add: representable_def)
  have "(2::rat) powi 53 \<le> \<bar>q\<bar>" using assms(2) by simp
  then have "53 \<le> ilog2 \<bar>q\<bar>" using q0 by (intro ilog2_ge) auto
  then have u: "0 \<le> ?u" by (simp add: ulp_exp_def)
  have "(2::rat) powi ?u = of_int (2 ^ nat ?u)" using u by (simp add: power_int_def)
  then have "q = of_int (m * 2 ^ nat ?u)" using q by simp
  then show thesis by (rule that)
qed

lemma trunc_of_int [simp]: "trunc (of_int n) = n"
  by (simp add: trunc_def)

lemma trunc_mono_int: "of_int n \<le> q \<Longrightarrow> n \<le> trunc q"
  by (auto simp: trunc_def le_floor_iff) linarith

lemma abs_trunc_le: "\<bar>of_int (trunc q)\<bar> \<le> \<bar>q\<bar>"
proof (cases "0 \<le> q")
  case True
  then show ?thesis by (simp add: trunc_def)
next
  case False
  then have "ceiling q \<le> 0" by simp
  then have "(of_int (ceiling q) :: rat) \<le> 0" by simp
  with False show ?thesis using le_of_int_ceiling [of q] by (simp add: trunc_def)
qed

lemma representable_trunc: "representable q \<Longrightarrow> representable (of_int (trunc q))"
proof (cases "2 ^ 53 \<le> \<bar>q\<bar>")
  case True
  assume r: "representable q"
  then obtain n where "q = of_int n" using True by (rule representable_large)
  with r show ?thesis by simp
next
  case False
  then have "\<bar>of_int (trunc q) :: rat\<bar> < of_int (2 ^ 53)" using abs_trunc_le [of q] by simp
  then have "\<bar>trunc q\<bar> < 2 ^ 53" by (simp only: of_int_abs [symmetric] of_int_less_iff)
  then show ?thesis by (intro representable_of_int) simp
qed

lemma is_double_dval: "is_double x \<Longrightarrow> representable (dval x)"
  by (cases x) auto

subsection \<open>Sums of small integers\<close>

lemma dadd_small:
  "\<bar>a\<bar> \<le> 2 ^ 53 \<Longrightarrow> \<bar>b\<bar> \<le> 2 ^ 53 \<Longrightarrow> \<bar>a + b\<bar> \<le> 2 ^ 53 \<Longrightarrow>
   dadd (Fin (of_int a)) (Fin (of_int b)) = Fin (of_int (a + b))"
  using dadd_dint [of a b] by (simp add: dint_exact)

text \<open>From \<open>2^53\<close> on, adding one is a tie that rounds to the even neighbour below.\<close>

lemma ilog2_limit: "ilog2 9007199254740993 = 53"
  using ilog2_ge [of 9007199254740993 53] ilog2_less [of 9007199254740993 54] by simp

lemma rnd_fin_limit: "rnd_fin 9007199254740993 = 9007199254740992"
proof -
  have "\<lfloor>9007199254740993 / 2 :: rat\<rfloor> = 4503599627370496" by (simp add: floor_eq_iff)
  then show ?thesis by (simp add: rnd_fin_def ulp_exp_def ilog2_limit rne_def Let_def)
qed

lemma dadd_limit: "dadd (Fin 9007199254740992) (Fin 1) = Fin 9007199254740992"
  by (simp add: rnd_def rnd_fin_limit overflow_bound_def)

end
