(* ===== verification/Scalars.thy ===== *)
theory Scalars
  imports ClientMetric Rounding
begin

text \<open>
  The metrics that hold one number: \<open>gauge.cc\<close>, \<open>counter.cc\<close> and \<open>info.cc\<close> with their
  headers, each operation run alone. A counter wraps a gauge. The interleaving of concurrent
  calls of \<open>Gauge::Change\<close> is in the theory \<open>GaugeAtomic\<close>.
\<close>

subsection \<open>Gauge\<close>

record gauge =
  gauge_cell :: double

definition Gauge_default :: gauge where
  "Gauge_default = \<lparr>gauge_cell = Fin 0\<rparr>"

definition Gauge_new :: "double \<Rightarrow> gauge" where
  "Gauge_new value = \<lparr>gauge_cell = value\<rparr>"

definition Gauge_Change :: "double \<Rightarrow> gauge \<Rightarrow> gauge" where
  "Gauge_Change value g = g\<lparr>gauge_cell := dadd (gauge_cell g) value\<rparr>"

definition Gauge_Increment_by :: "double \<Rightarrow> gauge \<Rightarrow> gauge" where
  "Gauge_Increment_by value g = Gauge_Change value g"

definition Gauge_Increment :: "gauge \<Rightarrow> gauge" where
  "Gauge_Increment g = Gauge_Increment_by (Fin 1) g"

definition Gauge_Decrement_by :: "double \<Rightarrow> gauge \<Rightarrow> gauge" where
  "Gauge_Decrement_by value g = Gauge_Change (dmul (Fin (-1)) value) g"

definition Gauge_Decrement :: "gauge \<Rightarrow> gauge" where
  "Gauge_Decrement g = Gauge_Decrement_by (Fin 1) g"

definition Gauge_Set :: "double \<Rightarrow> gauge \<Rightarrow> gauge" where
  "Gauge_Set value g = g\<lparr>gauge_cell := value\<rparr>"

text \<open>\<open>std::time(nullptr)\<close> is the argument; the cast rounds it to the nearest double.\<close>

definition Gauge_SetToCurrentTime :: "int \<Rightarrow> gauge \<Rightarrow> gauge" where
  "Gauge_SetToCurrentTime time g = Gauge_Set (dint time) g"

definition Gauge_Value :: "gauge \<Rightarrow> double" where
  "Gauge_Value g = gauge_cell g"

definition Gauge_Collect :: "gauge \<Rightarrow> client_metric" where
  "Gauge_Collect g = empty_client_metric\<lparr>gauge_value := Gauge_Value g\<rparr>"

subsection \<open>Counter\<close>

record counter =
  counter_gauge :: gauge

definition Counter_default :: counter where
  "Counter_default = \<lparr>counter_gauge = Gauge_new (Fin 0)\<rparr>"

definition Counter_Increment :: "counter \<Rightarrow> counter" where
  "Counter_Increment c = c\<lparr>counter_gauge := Gauge_Increment (counter_gauge c)\<rparr>"

definition Counter_Increment_by :: "double \<Rightarrow> counter \<Rightarrow> counter" where
  "Counter_Increment_by val c =
     (if dlt val (Fin 0) then c else c\<lparr>counter_gauge := Gauge_Increment_by val (counter_gauge c)\<rparr>)"

definition Counter_Value :: "counter \<Rightarrow> double" where
  "Counter_Value c = Gauge_Value (counter_gauge c)"

definition Counter_Reset :: "counter \<Rightarrow> counter" where
  "Counter_Reset c = c\<lparr>counter_gauge := Gauge_Set (Fin 0) (counter_gauge c)\<rparr>"

definition Counter_Collect :: "counter \<Rightarrow> client_metric" where
  "Counter_Collect c = empty_client_metric\<lparr>counter_value := Counter_Value c\<rparr>"

subsection \<open>Info\<close>

datatype info = Info_object

definition Info_Collect :: "info \<Rightarrow> client_metric" where
  "Info_Collect i = empty_client_metric\<lparr>info_value := Fin 1\<rparr>"

subsection \<open>Values after an operation\<close>

lemmas gauge_defs = Gauge_Change_def Gauge_Increment_by_def Gauge_Increment_def
  Gauge_Decrement_by_def Gauge_Decrement_def Gauge_Set_def Gauge_SetToCurrentTime_def
  Gauge_Value_def Gauge_new_def Gauge_default_def

lemma Counter_Value_Increment [simp]:
  "Counter_Value (Counter_Increment c) = dadd (Counter_Value c) (Fin 1)"
  by (simp add: Counter_Value_def Counter_Increment_def gauge_defs)

lemma Counter_Value_Increment_by [simp]:
  "Counter_Value (Counter_Increment_by v c) =
     (if dlt v (Fin 0) then Counter_Value c else dadd (Counter_Value c) v)"
  by (simp add: Counter_Value_def Counter_Increment_by_def gauge_defs)

lemma Counter_Value_Reset [simp]: "Counter_Value (Counter_Reset c) = Fin 0"
  by (simp add: Counter_Value_def Counter_Reset_def gauge_defs)

lemma Counter_Value_default [simp]: "Counter_Value Counter_default = Fin 0"
  by (simp add: Counter_Value_def Counter_default_def gauge_defs)

lemma counter_eqI: "Counter_Value c = Counter_Value d \<Longrightarrow> c = d" for c d :: counter
  by (cases c; cases d; cases "counter_gauge c"; cases "counter_gauge d")
    (simp add: Counter_Value_def Gauge_Value_def)

text \<open>What a counter fed with proper amounts holds.\<close>

definition counter_ok :: "counter \<Rightarrow> bool" where
  "counter_ok c \<longleftrightarrow> is_double (Counter_Value c) \<and> dle (Fin 0) (Counter_Value c)"

lemma counter_ok_default [simp, wf_intros]: "counter_ok Counter_default"
  by (simp add: counter_ok_def)

lemma counter_ok_Reset [simp, wf_intros]: "counter_ok (Counter_Reset c)"
  by (simp add: counter_ok_def)

lemma counter_ok_Increment [wf_intros]: "counter_ok c \<Longrightarrow> counter_ok (Counter_Increment c)"
  by (simp add: counter_ok_def dadd_nonneg)

lemma nonneg_iff: "v \<noteq> NaN \<Longrightarrow> \<not> dlt v (Fin 0) \<longleftrightarrow> dle (Fin 0) v"
  by (simp add: not_dlt)

lemma counter_ok_Increment_by [wf_intros]:
  "counter_ok c \<Longrightarrow> v \<noteq> NaN \<Longrightarrow> counter_ok (Counter_Increment_by v c)"
  by (simp add: counter_ok_def dadd_nonneg nonneg_iff)

lemma counter_ok_not_MInf: "counter_ok c \<Longrightarrow> Counter_Value c \<noteq> MInf \<and> Counter_Value c \<noteq> NaN"
  by (auto simp: counter_ok_def dle_def)

lemma Counter_Increment_by_ge:
  assumes "counter_ok c" and "v \<noteq> NaN"
  shows "dle (Counter_Value c) (Counter_Value (Counter_Increment_by v c))"
proof (cases "dlt v (Fin 0)")
  case True
  then show ?thesis using counter_ok_not_MInf [OF assms(1)] by simp
next
  case False
  then have "dle (Fin 0) v" using assms(2) by (simp add: nonneg_iff)
  then show ?thesis
    using False assms(1) counter_ok_not_MInf [OF assms(1)]
    by (simp add: counter_ok_def dadd_nonneg_ge)
qed

lemma Counter_Increment_ge: "counter_ok c \<Longrightarrow> dle (Counter_Value c) (Counter_Value (Counter_Increment c))"
  using counter_ok_not_MInf [of c] by (simp add: counter_ok_def dadd_nonneg_ge)

subsection \<open>Sequences of operations\<close>

datatype counter_op = OpIncrement | OpIncrementBy double | OpReset

fun counter_step :: "counter_op \<Rightarrow> counter \<Rightarrow> counter" where
  "counter_step OpIncrement c = Counter_Increment c"
| "counter_step (OpIncrementBy v) c = Counter_Increment_by v c"
| "counter_step OpReset c = Counter_Reset c"

definition op_proper :: "counter_op \<Rightarrow> bool" where
  "op_proper p \<longleftrightarrow> p \<noteq> OpIncrementBy NaN"

lemma counter_ok_step: "counter_ok c \<Longrightarrow> op_proper p \<Longrightarrow> counter_ok (counter_step p c)"
  by (cases p) (auto simp: op_proper_def intro: wf_intros)

lemma counter_ok_run:
  "counter_ok c \<Longrightarrow> \<forall>p\<in>set ps. op_proper p \<Longrightarrow> counter_ok (fold counter_step ps c)"
  by (induction ps arbitrary: c) (auto intro: counter_ok_step)

lemma counter_step_ge:
  "counter_ok c \<Longrightarrow> op_proper p \<Longrightarrow> p \<noteq> OpReset \<Longrightarrow>
   dle (Counter_Value c) (Counter_Value (counter_step p c))"
  by (cases p) (simp_all add: op_proper_def Counter_Increment_ge Counter_Increment_by_ge
      del: Counter_Value_Increment Counter_Value_Increment_by)

lemma counter_run_ge:
  "counter_ok c \<Longrightarrow> \<forall>p\<in>set ps. op_proper p \<and> p \<noteq> OpReset \<Longrightarrow>
   dle (Counter_Value c) (Counter_Value (fold counter_step ps c))"
proof (induction ps arbitrary: c)
  case Nil
  then show ?case using counter_ok_not_MInf [of c] by simp
next
  case (Cons p ps)
  then have "dle (Counter_Value c) (Counter_Value (counter_step p c))"
    by (intro counter_step_ge) auto
  moreover have "dle (Counter_Value (counter_step p c)) (Counter_Value (fold counter_step ps (counter_step p c)))"
    using Cons.prems by (intro Cons.IH counter_ok_step) auto
  ultimately show ?case using dle_trans by simp
qed

text \<open>Unit increments count exactly as long as the count is at most \<open>2^53\<close>.\<close>

lemma Counter_Increment_exact:
  "Counter_Value c = dint (int k) \<Longrightarrow> k < 2 ^ 53 \<Longrightarrow>
   Counter_Value (Counter_Increment c) = dint (int (Suc k))"
  using dadd_dint [of "int k" 1] by (simp add: add.commute)

lemma Counter_Increment_funpow:
  "Counter_Value c = dint (int k) \<Longrightarrow> k + n \<le> 2 ^ 53 \<Longrightarrow>
   Counter_Value ((Counter_Increment ^^ n) c) = dint (int (k + n))"
proof (induction n)
  case (Suc n)
  then show ?case using Counter_Increment_exact [of "(Counter_Increment ^^ n) c" "k + n"] by simp
qed simp

subsection \<open>Properties\<close>

text \<open>C15: A counter never decreases and is never negative between resets: whatever increments
  (with any amount but NaN, negative ones included) and resets came before, further increments
  leave its value at least where it was.\<close>

theorem counter_monotone:
  assumes "\<forall>p\<in>set (ps @ qs). op_proper p" and "OpReset \<notin> set qs"
  shows "dle (Fin 0) (Counter_Value (fold counter_step ps Counter_default)) \<and>
    dle (Counter_Value (fold counter_step ps Counter_default))
      (Counter_Value (fold counter_step (ps @ qs) Counter_default))"
proof -
  have "counter_ok (fold counter_step ps Counter_default)"
    using assms(1) by (intro counter_ok_run) auto
  then show ?thesis
    using assms counter_run_ge [of "fold counter_step ps Counter_default" qs]
    by (auto simp: counter_ok_def)
qed

theorem counter_monotone_witness:
  "dle (Counter_Value (fold counter_step [OpIncrement, OpReset, OpIncrementBy (Fin 3)] Counter_default))
     (Counter_Value (fold counter_step ([OpIncrement, OpReset, OpIncrementBy (Fin 3)] @
        [OpIncrementBy (Fin (-2)), OpIncrement]) Counter_default))"
  using counter_monotone [of "[OpIncrement, OpReset, OpIncrementBy (Fin 3)]"
      "[OpIncrementBy (Fin (-2)), OpIncrement]"]
  by (simp add: op_proper_def)

text \<open>Unit increments count exactly up to \<open>2^53\<close> and stop there: the next one is absorbed
  by the rounding of the addition.\<close>

theorem counter_counts_exactly:
  "Counter_Value ((Counter_Increment ^^ n) Counter_default) = Fin (of_nat (min n (2 ^ 53)))"
proof (cases "n \<le> 2 ^ 53")
  case True
  then show ?thesis
    using Counter_Increment_funpow [of Counter_default 0 n] by (simp add: dint_exact min_absorb1)
next
  case False
  have full: "Counter_Value ((Counter_Increment ^^ (2 ^ 53)) Counter_default) = Fin (2 ^ 53)"
    using Counter_Increment_funpow [of Counter_default 0 "2 ^ 53"] by (simp add: dint_exact)
  have "Counter_Value ((Counter_Increment ^^ k) c) = Fin (2 ^ 53)" if "Counter_Value c = Fin (2 ^ 53)" for k c
    using that by (induction k) (simp_all add: dadd_limit del: dadd.simps)
  then have "Counter_Value ((Counter_Increment ^^ ((n - 2 ^ 53) + 2 ^ 53)) Counter_default) = Fin (2 ^ 53)"
    using full unfolding funpow_add comp_apply by blast
  then show ?thesis using False by (simp add: min_absorb2)
qed

end
