(* ===== verification/GaugeAtomic.thy ===== *)
theory GaugeAtomic
  imports Scalars
begin

text \<open>
  Concurrent calls on one gauge (\<open>Gauge::Change\<close>, \<open>Gauge::Set\<close> and \<open>Gauge::Value\<close> of \<open>gauge.cc\<close>) as a
  step relation over any number of threads. Without atomic floating-point addition in the standard
  library, \<open>Change\<close> loads the value and repeats a weak compare-and-exchange: it compares the
  representation (equality of values here), may fail although the values agree, and on failure
  loads the current value again. With the library feature, \<open>Change\<close> is one \<open>fetch_add\<close>.
  Each thread runs its own list of calls; entering a call and returning from it are steps of their
  own. Two ghost fields: \<open>history\<close> has the invocations and responses as they happen, which is what
  the threads can see of each other, and \<open>committed\<close> the calls in the order they take effect.
\<close>

subsection \<open>The steps\<close>

datatype gauge_call = Call_Change double | Call_Set double | Call_Value

text \<open>Where a thread is: between two calls, in a call before its access to the value, in the loop of
  \<open>Change\<close> with the amount and \<open>current\<close>, or about to return.\<close>

datatype gauge_pc = Between_calls | Entered gauge_call | In_loop double double | Leaving gauge_call "double option"

text \<open>A call is named by its thread and its number in that thread.\<close>

type_synonym call_id = "nat \<times> nat"

datatype gauge_event = Invocation call_id gauge_call | Response call_id "double option"

record gauge_system =
  shared :: double
  todo :: "nat \<Rightarrow> gauge_call list"
  pc :: "nat \<Rightarrow> gauge_pc"
  returned :: "nat \<Rightarrow> nat"
  history :: "gauge_event list"
  committed :: "(call_id \<times> gauge_call \<times> double option) list"

inductive gauge_sys_step :: "bool \<Rightarrow> gauge_system \<Rightarrow> gauge_system \<Rightarrow> bool"
  for has_fetch_add :: bool where
  invoke: "pc s i = Between_calls \<Longrightarrow> todo s i = c # cs \<Longrightarrow>
    gauge_sys_step has_fetch_add s
      (s\<lparr>todo := (todo s)(i := cs), pc := (pc s)(i := Entered c),
         history := history s @ [Invocation (i, returned s i) c]\<rparr>)"
| fetch_add: "has_fetch_add \<Longrightarrow> pc s i = Entered (Call_Change v) \<Longrightarrow>
    gauge_sys_step has_fetch_add s
      (s\<lparr>shared := dadd (shared s) v, pc := (pc s)(i := Leaving (Call_Change v) None),
         committed := committed s @ [((i, returned s i), Call_Change v, None)]\<rparr>)"
| load: "\<not> has_fetch_add \<Longrightarrow> pc s i = Entered (Call_Change v) \<Longrightarrow>
    gauge_sys_step has_fetch_add s (s\<lparr>pc := (pc s)(i := In_loop v (shared s))\<rparr>)"
| exchange: "pc s i = In_loop v current \<Longrightarrow> shared s = current \<Longrightarrow>
    gauge_sys_step has_fetch_add s
      (s\<lparr>shared := dadd current v, pc := (pc s)(i := Leaving (Call_Change v) None),
         committed := committed s @ [((i, returned s i), Call_Change v, None)]\<rparr>)"
| exchange_fails: "pc s i = In_loop v current \<Longrightarrow>
    gauge_sys_step has_fetch_add s (s\<lparr>pc := (pc s)(i := In_loop v (shared s))\<rparr>)"
| store: "pc s i = Entered (Call_Set v) \<Longrightarrow>
    gauge_sys_step has_fetch_add s
      (s\<lparr>shared := v, pc := (pc s)(i := Leaving (Call_Set v) None),
         committed := committed s @ [((i, returned s i), Call_Set v, None)]\<rparr>)"
| read: "pc s i = Entered Call_Value \<Longrightarrow>
    gauge_sys_step has_fetch_add s
      (s\<lparr>pc := (pc s)(i := Leaving Call_Value (Some (shared s))),
         committed := committed s @ [((i, returned s i), Call_Value, Some (shared s))]\<rparr>)"
| return: "pc s i = Leaving c r \<Longrightarrow>
    gauge_sys_step has_fetch_add s
      (s\<lparr>pc := (pc s)(i := Between_calls), returned := (returned s)(i := Suc (returned s i)),
         history := history s @ [Response (i, returned s i) r]\<rparr>)"

definition gauge_init :: "double \<Rightarrow> (nat \<Rightarrow> gauge_call list) \<Rightarrow> gauge_system" where
  "gauge_init x prog = \<lparr>shared = x, todo = prog, pc = (\<lambda>_. Between_calls), returned = (\<lambda>_. 0), history = [], committed = []\<rparr>"

inductive gauge_reachable :: "bool \<Rightarrow> double \<Rightarrow> (nat \<Rightarrow> gauge_call list) \<Rightarrow> gauge_system \<Rightarrow> bool"
  for has_fetch_add :: bool and x :: double and prog :: "nat \<Rightarrow> gauge_call list" where
  start: "gauge_reachable has_fetch_add x prog (gauge_init x prog)"
| step: "gauge_reachable has_fetch_add x prog s \<Longrightarrow> gauge_sys_step has_fetch_add s t \<Longrightarrow>
    gauge_reachable has_fetch_add x prog t"

inductive_cases gauge_sys_stepE: "gauge_sys_step b s t"

subsection \<open>Linearizations\<close>

text \<open>A call as one step of the sequential gauge: its new state and what it returns.\<close>

fun call_result :: "gauge_call \<Rightarrow> gauge \<Rightarrow> gauge \<times> double option" where
  "call_result (Call_Change v) g = (Gauge_Change v g, None)"
| "call_result (Call_Set v) g = (Gauge_Set v g, None)"
| "call_result Call_Value g = (g, Some (Gauge_Value g))"

fun sequential :: "gauge \<Rightarrow> (call_id \<times> gauge_call \<times> double option) list \<Rightarrow> gauge \<Rightarrow> bool" where
  "sequential g [] h \<longleftrightarrow> g = h"
| "sequential g ((a, c, r) # cs) h \<longleftrightarrow> snd (call_result c g) = r \<and> sequential (fst (call_result c g)) cs h"

lemma sequential_snoc:
  "sequential g cs h \<Longrightarrow> call_result c h = (k, r) \<Longrightarrow> sequential g (cs @ [(a, c, r)]) k"
  by (induction g cs h rule: sequential.induct) auto

text \<open>Somewhere in the list an element with \<open>P\<close> comes before one with \<open>Q\<close>.\<close>

fun earlier :: "('e \<Rightarrow> bool) \<Rightarrow> ('e \<Rightarrow> bool) \<Rightarrow> 'e list \<Rightarrow> bool" where
  "earlier P Q [] \<longleftrightarrow> False"
| "earlier P Q (e # es) \<longleftrightarrow> P e \<and> (\<exists>z\<in>set es. Q z) \<or> earlier P Q es"

lemma earlier_snoc [simp]: "earlier P Q (es @ [e]) \<longleftrightarrow> earlier P Q es \<or> Q e \<and> (\<exists>x\<in>set es. P x)"
  by (induction es) auto

lemma earlier_first: "earlier P Q es \<Longrightarrow> \<exists>x\<in>set es. P x"
  by (induction es) auto

text \<open>The call \<open>a\<close> has returned before the call \<open>b\<close> was made.\<close>

definition real_time :: "call_id \<Rightarrow> call_id \<Rightarrow> gauge_event list \<Rightarrow> bool" where
  "real_time a b h \<longleftrightarrow> earlier (\<lambda>e. \<exists>r. e = Response a r) (\<lambda>e. \<exists>c. e = Invocation b c) h"

lemma real_time_snoc [simp]:
  "real_time a b (h @ [Invocation d c]) \<longleftrightarrow> real_time a b h \<or> b = d \<and> (\<exists>r. Response a r \<in> set h)"
  "real_time a b (h @ [Response d r]) \<longleftrightarrow> real_time a b h"
  unfolding real_time_def by auto

lemma real_time_response: "real_time a b h \<Longrightarrow> \<exists>r. Response a r \<in> set h"
  unfolding real_time_def using earlier_first by fastforce

text \<open>The calls \<open>cs\<close>, one after the other, explain the history: run from the value \<open>x\<close> they return what
  they returned and leave \<open>y\<close>; each of them was made, each that has returned is among them with its
  answer, and whenever one returned before another was made it comes before it.\<close>

definition linearization :: "double \<Rightarrow> gauge_event list \<Rightarrow> (call_id \<times> gauge_call \<times> double option) list \<Rightarrow> double \<Rightarrow> bool" where
  "linearization x h cs y \<longleftrightarrow> sequential (Gauge_new x) cs (Gauge_new y) \<and> distinct (map fst cs) \<and>
     (\<forall>a c r. (a, c, r) \<in> set cs \<longrightarrow> Invocation a c \<in> set h) \<and>
     (\<forall>a r. Response a r \<in> set h \<longrightarrow> (\<exists>c. (a, c, r) \<in> set cs)) \<and>
     (\<forall>a b. real_time a b h \<longrightarrow> b \<in> fst ` set cs \<longrightarrow> earlier (\<lambda>e. fst e = a) (\<lambda>e. fst e = b) cs)"

lemma linearizationI:
  assumes "sequential (Gauge_new x) cs (Gauge_new y)" and "distinct (map fst cs)"
    and "\<And>a c r. (a, c, r) \<in> set cs \<Longrightarrow> Invocation a c \<in> set h"
    and "\<And>a r. Response a r \<in> set h \<Longrightarrow> \<exists>c. (a, c, r) \<in> set cs"
    and "\<And>a b. real_time a b h \<Longrightarrow> b \<in> fst ` set cs \<Longrightarrow> earlier (\<lambda>e. fst e = a) (\<lambda>e. fst e = b) cs"
  shows "linearization x h cs y"
  unfolding linearization_def using assms by blast

lemma linearizationD:
  assumes "linearization x h cs y"
  shows "sequential (Gauge_new x) cs (Gauge_new y)" and "distinct (map fst cs)"
    and "(a, c, r) \<in> set cs \<Longrightarrow> Invocation a c \<in> set h"
    and "Response a r \<in> set h \<Longrightarrow> \<exists>c. (a, c, r) \<in> set cs"
    and "real_time a b h \<Longrightarrow> b \<in> fst ` set cs \<Longrightarrow> earlier (\<lambda>e. fst e = a) (\<lambda>e. fst e = b) cs"
  using assms unfolding linearization_def by blast+

lemma linearization_start: "linearization x [] [] x"
  by (simp add: linearization_def)

lemma linearization_invoke:
  assumes "linearization x h cs y" and "a \<notin> fst ` set cs"
  shows "linearization x (h @ [Invocation a c]) cs y"
proof (rule linearizationI)
  show "Invocation b d \<in> set (h @ [Invocation a c])" if "(b, d, r) \<in> set cs" for b d r
    using linearizationD(3) [OF assms(1) that] by simp
  show "\<exists>d. (b, d, r) \<in> set cs" if "Response b r \<in> set (h @ [Invocation a c])" for b r
    using linearizationD(4) [OF assms(1), of b r] that by simp
  show "earlier (\<lambda>e. fst e = d) (\<lambda>e. fst e = b) cs" if "real_time d b (h @ [Invocation a c])" "b \<in> fst ` set cs" for d b
    using linearizationD(5) [OF assms(1), of d b] that assms(2) by (simp only: real_time_snoc) blast
qed (rule linearizationD [OF assms(1)])+

lemma linearization_respond:
  assumes "linearization x h cs y" and "(a, c, r) \<in> set cs"
  shows "linearization x (h @ [Response a r]) cs y"
proof (rule linearizationI)
  show "Invocation b d \<in> set (h @ [Response a r])" if "(b, d, q) \<in> set cs" for b d q
    using linearizationD(3) [OF assms(1) that] by simp
  show "\<exists>d. (b, d, q) \<in> set cs" if "Response b q \<in> set (h @ [Response a r])" for b q
    using linearizationD(4) [OF assms(1), of b q] that assms(2) by auto
  show "earlier (\<lambda>e. fst e = d) (\<lambda>e. fst e = b) cs" if "real_time d b (h @ [Response a r])" "b \<in> fst ` set cs" for d b
    using linearizationD(5) [OF assms(1), of d b] that by (simp only: real_time_snoc)
qed (rule linearizationD [OF assms(1)])+

lemma linearization_commit:
  assumes lin: "linearization x h cs y" and fresh: "a \<notin> fst ` set cs" and made: "Invocation a c \<in> set h"
    and call: "call_result c (Gauge_new y) = (Gauge_new z, r)"
  shows "linearization x h (cs @ [(a, c, r)]) z"
proof (rule linearizationI)
  show "sequential (Gauge_new x) (cs @ [(a, c, r)]) (Gauge_new z)"
    using linearizationD(1) [OF lin] call by (rule sequential_snoc)
  show "distinct (map fst (cs @ [(a, c, r)]))" using linearizationD(2) [OF lin] fresh by simp
  show "Invocation b d \<in> set h" if "(b, d, q) \<in> set (cs @ [(a, c, r)])" for b d q
    using linearizationD(3) [OF lin, of b d q] that made by auto
  show "\<exists>d. (b, d, q) \<in> set (cs @ [(a, c, r)])" if "Response b q \<in> set h" for b q
    using linearizationD(4) [OF lin that] by auto
  show "earlier (\<lambda>e. fst e = d) (\<lambda>e. fst e = b) (cs @ [(a, c, r)])"
    if rt: "real_time d b h" and b: "b \<in> fst ` set (cs @ [(a, c, r)])" for d b
  proof (cases "b = a")
    case True
    obtain q where "Response d q \<in> set h" using real_time_response [OF rt] ..
    then obtain e where "(d, e, q) \<in> set cs" using linearizationD(4) [OF lin] by blast
    then show ?thesis using True by (simp only: earlier_snoc) force
  next
    case False
    then have "b \<in> fst ` set cs" using b by simp
    from linearizationD(5) [OF lin rt this] show ?thesis by simp
  qed
qed

subsection \<open>Invariant\<close>

text \<open>A thread with the program \<open>p\<close> that has returned from \<open>k\<close> calls: what it has left, and which events
  and commits are its own.\<close>

fun current_call :: "gauge_pc \<Rightarrow> gauge_call option" where
  "current_call Between_calls = None"
| "current_call (Entered c) = Some c"
| "current_call (In_loop v current) = Some (Call_Change v)"
| "current_call (Leaving c r) = Some c"

definition begun :: "nat \<Rightarrow> gauge_pc \<Rightarrow> nat" where
  "begun k p = (if p = Between_calls then k else Suc k)"

definition effective :: "nat \<Rightarrow> gauge_pc \<Rightarrow> nat" where
  "effective k p = (case p of Leaving c r \<Rightarrow> Suc k | _ \<Rightarrow> k)"

lemma begun_effective [simp]:
  "begun k Between_calls = k" "begun k (Entered c) = Suc k" "begun k (In_loop v w) = Suc k" "begun k (Leaving c r) = Suc k"
  "effective k Between_calls = k" "effective k (Entered c) = k" "effective k (In_loop v w) = k" "effective k (Leaving c r) = Suc k"
  by (simp_all add: begun_def effective_def)

definition thread_inv :: "gauge_call list \<Rightarrow> nat \<Rightarrow> gauge_system \<Rightarrow> bool" where
  "thread_inv p i s \<longleftrightarrow>
     (let k = returned s i; b = begun k (pc s i) in
      b \<le> length p \<and> todo s i = drop b p \<and> (\<forall>c. current_call (pc s i) = Some c \<longrightarrow> c = p ! k) \<and>
      (\<forall>m c. Invocation (i, m) c \<in> set (history s) \<longleftrightarrow> m < b \<and> c = p ! m) \<and>
      (\<forall>m. (\<exists>r. Response (i, m) r \<in> set (history s)) \<longleftrightarrow> m < k) \<and>
      (\<forall>m. (i, m) \<in> fst ` set (committed s) \<longleftrightarrow> m < effective k (pc s i)) \<and>
      (\<forall>c r. pc s i = Leaving c r \<longrightarrow> ((i, k), c, r) \<in> set (committed s)))"

lemma thread_inv_other:
  assumes "thread_inv p j s" and "i \<noteq> j" and "pc t j = pc s j" and "todo t j = todo s j" and "returned t j = returned s j"
    and "history t = history s \<or> (\<exists>m c. history t = history s @ [Invocation (i, m) c]) \<or> (\<exists>m r. history t = history s @ [Response (i, m) r])"
    and "committed t = committed s \<or> (\<exists>m c. committed t = committed s @ [((i, m), c)])"
  shows "thread_inv p j t"
  using assms unfolding thread_inv_def Let_def by (elim disjE exE; simp)

definition gauge_sys_inv :: "double \<Rightarrow> (nat \<Rightarrow> gauge_call list) \<Rightarrow> gauge_system \<Rightarrow> bool" where
  "gauge_sys_inv x prog s \<longleftrightarrow> linearization x (history s) (committed s) (shared s) \<and> (\<forall>i. thread_inv (prog i) i s)"

lemma gauge_sys_inv_init: "gauge_sys_inv x prog (gauge_init x prog)"
  by (simp add: gauge_sys_inv_def thread_inv_def gauge_init_def linearization_start)

text \<open>The step in which a call takes effect.\<close>

lemma commit_inv:
  assumes inv: "gauge_sys_inv x prog s" and now: "current_call (pc s i) = Some c" "effective (returned s i) (pc s i) = returned s i"
    and call: "call_result c (Gauge_new (shared s)) = (Gauge_new y, r)"
    and t: "t = s\<lparr>shared := y, pc := (pc s)(i := Leaving c r), committed := committed s @ [((i, returned s i), c, r)]\<rparr>"
  shows "gauge_sys_inv x prog t"
proof -
  have own: "thread_inv (prog i) i s" using inv by (simp add: gauge_sys_inv_def)
  have b: "begun (returned s i) (pc s i) = Suc (returned s i)" using now(1) by (cases "pc s i") simp_all
  have "thread_inv (prog i) i t" using own now b unfolding thread_inv_def t Let_def by (auto simp: less_Suc_eq)
  moreover have "thread_inv (prog j) j t" if "j \<noteq> i" for j
    by (rule thread_inv_other [of _ _ s i]) (use inv that in \<open>auto simp: gauge_sys_inv_def t\<close>)
  moreover have "linearization x (history s) (committed s @ [((i, returned s i), c, r)]) y"
    by (rule linearization_commit [OF _ _ _ call]) (use inv own now b in \<open>auto simp: gauge_sys_inv_def thread_inv_def Let_def\<close>)
  ultimately show ?thesis using t unfolding gauge_sys_inv_def by (simp add: t) metis
qed

lemma drop_ConsD: "drop k xs = y # ys \<Longrightarrow> k < length xs \<and> xs ! k = y \<and> drop (Suc k) xs = ys"
  by (metis Cons_nth_drop_Suc drop_all leI list.distinct(1) list.inject)

lemma gauge_sys_inv_step:
  assumes "gauge_sys_step b s t" and inv: "gauge_sys_inv x prog s"
  shows "gauge_sys_inv x prog t"
  using assms(1)
proof (cases rule: gauge_sys_step.cases)
  case (invoke i c cs)
  have own: "thread_inv (prog i) i s" using inv by (simp add: gauge_sys_inv_def)
  then have "drop (returned s i) (prog i) = c # cs" using invoke(2,3) by (simp add: thread_inv_def Let_def)
  then have "returned s i < length (prog i)" "prog i ! returned s i = c" "drop (Suc (returned s i)) (prog i) = cs"
    using drop_ConsD [of "returned s i" "prog i" c cs] by simp_all
  then have "thread_inv (prog i) i t"
    using own invoke(2,3) unfolding thread_inv_def invoke(1) Let_def by (auto simp: less_Suc_eq)
  moreover have "thread_inv (prog j) j t" if "j \<noteq> i" for j
    by (rule thread_inv_other [of _ _ s i]) (use inv that in \<open>auto simp: gauge_sys_inv_def invoke(1)\<close>)
  moreover have "linearization x (history s @ [Invocation (i, returned s i) c]) (committed s) (shared s)"
    by (rule linearization_invoke) (use inv own invoke(2) in \<open>auto simp: gauge_sys_inv_def thread_inv_def Let_def\<close>)
  ultimately show ?thesis unfolding gauge_sys_inv_def by (simp add: invoke(1)) metis
next
  case (fetch_add i v)
  then show ?thesis by (intro commit_inv [OF inv, of i "Call_Change v" "dadd (shared s) v" None]) (simp_all add: gauge_defs)
next
  case (load i v)
  have own: "thread_inv (prog i) i s" using inv by (simp add: gauge_sys_inv_def)
  then have "thread_inv (prog i) i t" using load(3) unfolding thread_inv_def load(1) Let_def by simp
  moreover have "thread_inv (prog j) j t" if "j \<noteq> i" for j
    by (rule thread_inv_other [of _ _ s i]) (use inv that in \<open>auto simp: gauge_sys_inv_def load(1)\<close>)
  ultimately show ?thesis using inv unfolding gauge_sys_inv_def by (simp add: load(1)) metis
next
  case (exchange i v current)
  then show ?thesis by (intro commit_inv [OF inv, of i "Call_Change v" "dadd current v" None]) (simp_all add: gauge_defs)
next
  case (exchange_fails i v current)
  have own: "thread_inv (prog i) i s" using inv by (simp add: gauge_sys_inv_def)
  then have "thread_inv (prog i) i t" using exchange_fails(2) unfolding thread_inv_def exchange_fails(1) Let_def by simp
  moreover have "thread_inv (prog j) j t" if "j \<noteq> i" for j
    by (rule thread_inv_other [of _ _ s i]) (use inv that in \<open>auto simp: gauge_sys_inv_def exchange_fails(1)\<close>)
  ultimately show ?thesis using inv unfolding gauge_sys_inv_def by (simp add: exchange_fails(1)) metis
next
  case (store i v)
  then show ?thesis by (intro commit_inv [OF inv, of i "Call_Set v" v None]) (simp_all add: gauge_defs)
next
  case (read i)
  then show ?thesis by (intro commit_inv [OF inv, of i Call_Value "shared s" "Some (shared s)"]) (simp_all add: gauge_defs)
next
  case (return i c r)
  have own: "thread_inv (prog i) i s" using inv by (simp add: gauge_sys_inv_def)
  then have "thread_inv (prog i) i t"
    using return(2) unfolding thread_inv_def return(1) Let_def by (auto simp: less_Suc_eq)
  moreover have "thread_inv (prog j) j t" if "j \<noteq> i" for j
    by (rule thread_inv_other [of _ _ s i]) (use inv that in \<open>auto simp: gauge_sys_inv_def return(1)\<close>)
  moreover have "linearization x (history s @ [Response (i, returned s i) r]) (committed s) (shared s)"
    by (rule linearization_respond [where c = c]) (use inv own return(2) in \<open>auto simp: gauge_sys_inv_def thread_inv_def Let_def\<close>)
  ultimately show ?thesis unfolding gauge_sys_inv_def by (simp add: return(1)) metis
qed

lemma gauge_reachable_inv: "gauge_reachable b x prog s \<Longrightarrow> gauge_sys_inv x prog s"
  by (induction rule: gauge_reachable.induct) (blast intro: gauge_sys_inv_init gauge_sys_inv_step)+

definition gauge_finished :: "gauge_system \<Rightarrow> bool" where
  "gauge_finished s \<longleftrightarrow> (\<forall>i. todo s i = [] \<and> pc s i = Between_calls)"

subsection \<open>All calls can finish\<close>

fun steps_to_return :: "gauge_pc \<Rightarrow> nat" where
  "steps_to_return Between_calls = 0"
| "steps_to_return (Entered c) = 3"
| "steps_to_return (In_loop v current) = 2"
| "steps_to_return (Leaving c r) = 1"

definition thread_work :: "gauge_system \<Rightarrow> nat \<Rightarrow> nat" where
  "thread_work s i = 4 * length (todo s i) + steps_to_return (pc s i)"

definition work_left :: "nat \<Rightarrow> gauge_system \<Rightarrow> nat" where
  "work_left n s = (\<Sum>i<n. thread_work s i)"

definition threads_below :: "nat \<Rightarrow> gauge_system \<Rightarrow> bool" where
  "threads_below n s \<longleftrightarrow> (\<forall>i\<ge>n. todo s i = [] \<and> pc s i = Between_calls)"

text \<open>A thread that has not finished can get on, alone: in the loop, a failed exchange loads the value
  anew, and the next one succeeds.\<close>

lemma thread_gets_on:
  assumes "todo s i \<noteq> [] \<or> pc s i \<noteq> Between_calls"
  shows "\<exists>t. (gauge_sys_step b)\<^sup>*\<^sup>* s t \<and> thread_work t i < thread_work s i \<and>
    (\<forall>j. j \<noteq> i \<longrightarrow> todo t j = todo s j \<and> pc t j = pc s j)"
proof (cases "pc s i")
  case Between_calls
  then obtain c cs where cs: "todo s i = c # cs" using assms by (cases "todo s i") auto
  show ?thesis
    by (rule exI, rule conjI, rule r_into_rtranclp, rule gauge_sys_step.invoke [OF Between_calls cs])
      (simp add: thread_work_def Between_calls cs)
next
  case (In_loop v current)
  let ?t = "s\<lparr>pc := (pc s)(i := In_loop v (shared s))\<rparr>"
  let ?u = "?t\<lparr>shared := dadd (shared s) v, pc := (pc ?t)(i := Leaving (Call_Change v) None),
      committed := committed ?t @ [((i, returned ?t i), Call_Change v, None)]\<rparr>"
  have "gauge_sys_step b s ?t" using In_loop by (rule gauge_sys_step.exchange_fails)
  moreover have "gauge_sys_step b ?t ?u" by (rule gauge_sys_step.exchange) simp_all
  ultimately have "(gauge_sys_step b)\<^sup>*\<^sup>* s ?u" by (meson r_into_rtranclp rtranclp.rtrancl_into_rtrancl)
  then show ?thesis by (intro exI [of _ ?u]) (simp add: thread_work_def In_loop)
next
  case (Leaving c r)
  show ?thesis
    by (rule exI, rule conjI, rule r_into_rtranclp, rule gauge_sys_step.return [OF Leaving])
      (simp add: thread_work_def Leaving)
next
  case (Entered c)
  show ?thesis
  proof (cases c)
    case (Call_Change v)
    show ?thesis
    proof (cases b)
      case True
      show ?thesis
        by (rule exI, rule conjI, rule r_into_rtranclp, rule gauge_sys_step.fetch_add [OF True Entered [unfolded Call_Change]])
          (simp add: thread_work_def Entered)
    next
      case False
      show ?thesis
        by (rule exI, rule conjI, rule r_into_rtranclp, rule gauge_sys_step.load [OF False Entered [unfolded Call_Change]])
          (simp add: thread_work_def Entered)
    qed
  next
    case (Call_Set v)
    show ?thesis
      by (rule exI, rule conjI, rule r_into_rtranclp, rule gauge_sys_step.store [OF Entered [unfolded Call_Set]])
        (simp add: thread_work_def Entered)
  next
    case Call_Value
    show ?thesis
      by (rule exI, rule conjI, rule r_into_rtranclp, rule gauge_sys_step.read [OF Entered [unfolded Call_Value]])
        (simp add: thread_work_def Entered)
  qed
qed

lemma less_work:
  assumes "\<not> gauge_finished s" and "threads_below n s"
  shows "\<exists>t. (gauge_sys_step b)\<^sup>*\<^sup>* s t \<and> work_left n t < work_left n s \<and> threads_below n t"
proof -
  obtain i where i: "todo s i \<noteq> [] \<or> pc s i \<noteq> Between_calls" "i < n"
    using assms unfolding gauge_finished_def threads_below_def by (metis not_le)
  obtain t where t: "(gauge_sys_step b)\<^sup>*\<^sup>* s t" "thread_work t i < thread_work s i"
    "\<forall>j. j \<noteq> i \<longrightarrow> todo t j = todo s j \<and> pc t j = pc s j"
    using thread_gets_on [OF i(1)] by blast
  have "work_left n t < work_left n s"
    unfolding work_left_def
  proof (rule sum_strict_mono_ex1)
    show "\<forall>j\<in>{..<n}. thread_work t j \<le> thread_work s j"
      using t(2,3) by (metis less_imp_le order_refl thread_work_def)
  qed (use t(2) i(2) in auto)
  moreover have "threads_below n t"
    using t(3) assms(2) i(2) unfolding threads_below_def by (metis leD)
  ultimately show ?thesis using t(1) by blast
qed

lemma can_finish:
  "threads_below n s \<Longrightarrow> \<exists>t. (gauge_sys_step b)\<^sup>*\<^sup>* s t \<and> gauge_finished t"
proof (induction "work_left n s" arbitrary: s rule: less_induct)
  case less
  show ?case
  proof (cases "gauge_finished s")
    case True
    then show ?thesis by blast
  next
    case False
    from less_work [OF False less.prems] obtain t where
      t: "(gauge_sys_step b)\<^sup>*\<^sup>* s t" "work_left n t < work_left n s" "threads_below n t" by blast
    from less.hyps [OF t(2,3)] t(1) show ?thesis by (meson rtranclp_trans)
  qed
qed

lemma gauge_reachable_threads:
  assumes "gauge_reachable b x prog s" and "\<And>i. n \<le> i \<Longrightarrow> prog i = []"
  shows "threads_below n s"
  unfolding threads_below_def
proof (intro allI impI)
  fix i assume "n \<le> i"
  then have "thread_inv [] i s" using gauge_reachable_inv [OF assms(1)] assms(2) by (metis gauge_sys_inv_def)
  then show "todo s i = [] \<and> pc s i = Between_calls" by (cases "pc s i") (auto simp: thread_inv_def Let_def)
qed

subsection \<open>Properties\<close>

text \<open>C9: Concurrent calls of \<open>Change\<close>, \<open>Set\<close> and \<open>Value\<close> are linearizable, with the exchange loop and
  with \<open>fetch_add\<close> alike. In every reachable state the calls that have taken effect, in some order,
  explain what the threads have seen: made one after the other on the sequential gauge they return
  what the calls returned, readings included, and leave the value as it is; every call that has
  returned is among them; and when one call returned before another was made, it comes before it.
  The history holds the calls of each thread in its program order, all of them once everything has
  returned, and no call is blocked for good: whatever exchanges have failed so far, some continuation
  finishes all calls.\<close>

theorem gauge_linearizable:
  assumes "gauge_reachable has_fetch_add x prog s" and "\<forall>i\<ge>n. prog i = []"
  shows "(\<exists>cs. linearization x (history s) cs (shared s)) \<and>
    (\<forall>i k c. Invocation (i, k) c \<in> set (history s) \<longrightarrow> k < length (prog i) \<and> c = prog i ! k) \<and>
    (gauge_finished s \<longrightarrow> (\<forall>i. \<forall>k<length (prog i). \<exists>r. Response (i, k) r \<in> set (history s))) \<and>
    (\<exists>t. (gauge_sys_step has_fetch_add)\<^sup>*\<^sup>* s t \<and> gauge_finished t)"
proof -
  have inv: "gauge_sys_inv x prog s" using gauge_reachable_inv [OF assms(1)] .
  have thread: "thread_inv (prog i) i s" for i using inv by (simp add: gauge_sys_inv_def)
  have lin: "linearization x (history s) (committed s) (shared s)" using inv by (simp add: gauge_sys_inv_def)
  have made: "k < length (prog i) \<and> c = prog i ! k" if "Invocation (i, k) c \<in> set (history s)" for i k c
    using thread [of i] that unfolding thread_inv_def Let_def by auto
  have returned: "\<exists>r. Response (i, k) r \<in> set (history s)" if "gauge_finished s" "k < length (prog i)" for i k
    using thread [of i] that unfolding thread_inv_def Let_def gauge_finished_def by auto
  have "\<exists>t. (gauge_sys_step has_fetch_add)\<^sup>*\<^sup>* s t \<and> gauge_finished t"
    using can_finish gauge_reachable_threads assms by blast
  then show ?thesis using lin made returned by blast
qed

text \<open>Two threads: one adds 1 and then reads, the other adds 1.\<close>

definition two_threads :: "nat \<Rightarrow> gauge_call list" where
  "two_threads i = (if i = 0 then [Call_Change (Fin 1), Call_Value] else if i = 1 then [Call_Change (Fin 1)] else [])"

lemma two_threads_finish:
  "\<exists>s. gauge_reachable False (Fin 0) two_threads s \<and> gauge_finished s"
proof -
  have "threads_below 2 (gauge_init (Fin 0) two_threads)"
    by (simp add: threads_below_def gauge_init_def two_threads_def)
  then obtain s where s: "(gauge_sys_step False)\<^sup>*\<^sup>* (gauge_init (Fin 0) two_threads) s" "gauge_finished s"
    using can_finish by blast
  have "gauge_reachable False (Fin 0) two_threads s"
    using s(1) by (induction rule: rtranclp_induct) (blast intro: start step)+
  with s(2) show ?thesis by blast
qed

theorem gauge_linearizable_witness:
  "\<exists>s cs r. gauge_finished s \<and> linearization (Fin 0) (history s) cs (shared s) \<and>
     Response (0, 1) r \<in> set (history s) \<and> ((0, 1), Call_Value, r) \<in> set cs"
proof -
  obtain s where s: "gauge_reachable False (Fin 0) two_threads s" "gauge_finished s" using two_threads_finish by blast
  have "\<forall>i\<ge>2. two_threads i = []" by (simp add: two_threads_def)
  note props = gauge_linearizable [OF s(1) this]
  obtain cs where cs: "linearization (Fin 0) (history s) cs (shared s)" using props by blast
  have "1 < length (two_threads 0)" by (simp add: two_threads_def)
  then obtain r where r: "Response (0, 1) r \<in> set (history s)" using props s(2) by blast
  obtain c where c: "((0, 1), c, r) \<in> set cs" using linearizationD(4) [OF cs r] ..
  have "Invocation (0, 1) c \<in> set (history s)" using linearizationD(3) [OF cs c] .
  then have "c = two_threads 0 ! 1" using props by blast
  then have "c = Call_Value" by (simp add: two_threads_def)
  then show ?thesis using s(2) cs r c by blast
qed

text \<open>No increment is lost: when \<open>n\<close> threads have performed unit increments only, in any
  interleaving and with any number of failed exchanges, the value is the number of calls.\<close>

lemma sequential_units:
  "sequential g cs h \<Longrightarrow> \<forall>(a, c, r)\<in>set cs. c = Call_Change (Fin 1) \<Longrightarrow> Gauge_Value g = dint (int k) \<Longrightarrow>
   k + length cs \<le> 2 ^ 53 \<Longrightarrow> Gauge_Value h = dint (int (k + length cs))"
proof (induction g cs h arbitrary: k rule: sequential.induct)
  case (2 g a c r cs h)
  have c: "c = Call_Change (Fin 1)" using 2(3) by simp
  have "Gauge_Value (Gauge_Change (Fin 1) g) = dadd (dint (int k)) (dint 1)"
    using 2(4) by (simp add: gauge_defs)
  also have "\<dots> = dint (int (Suc k))"
    using 2(5) by (subst dadd_dint) (simp_all add: add.commute)
  finally have "Gauge_Value h = dint (int (Suc k + length cs))"
    using 2(2,3,5) c by (intro 2(1)) auto
  then show ?case by simp
qed simp

theorem gauge_no_lost_update:
  assumes "gauge_reachable has_fetch_add (Fin 0) prog s" and "gauge_finished s"
    and "\<forall>i<n. set (prog i) \<subseteq> {Call_Change (Fin 1)}" and "\<forall>i\<ge>n. prog i = []"
    and "(\<Sum>i<n. length (prog i)) \<le> 2 ^ 53"
  shows "shared s = Fin (of_nat (\<Sum>i<n. length (prog i)))"
proof -
  let ?cs = "committed s"
  have inv: "gauge_sys_inv (Fin 0) prog s" by (rule gauge_reachable_inv [OF assms(1)])
  then have lin: "linearization (Fin 0) (history s) ?cs (shared s)" and thread: "\<And>i. thread_inv (prog i) i s"
    by (simp_all add: gauge_sys_inv_def)
  have ids: "(i, k) \<in> fst ` set ?cs \<longleftrightarrow> k < length (prog i)" for i k
    using thread [of i] assms(2) unfolding thread_inv_def Let_def gauge_finished_def by auto
  then have "(i, k) \<in> fst ` set ?cs \<longleftrightarrow> (i, k) \<in> Sigma {..<n} (\<lambda>i. {..<length (prog i)})" for i k
    using assms(4) by (metis SigmaE2 SigmaI lessThan_iff less_nat_zero_code list.size(3) not_le)
  then have sigma: "fst ` set ?cs = Sigma {..<n} (\<lambda>i. {..<length (prog i)})" by (simp only: set_eq_iff split_paired_All simp_thms)
  have "length ?cs = card (fst ` set ?cs)" using linearizationD(2) [OF lin] by (metis distinct_card length_map list.set_map)
  then have len: "length ?cs = (\<Sum>i<n. length (prog i))" unfolding sigma by simp
  have units: "c = Call_Change (Fin 1)" if "((i, k), c, r) \<in> set ?cs" for i k c r
  proof -
    have "Invocation (i, k) c \<in> set (history s)" using linearizationD(3) [OF lin that] .
    then have "k < length (prog i)" "c = prog i ! k"
      using thread [of i] assms(2) unfolding thread_inv_def Let_def gauge_finished_def by auto
    moreover from this have "i < n" using assms(4) by (metis less_nat_zero_code list.size(3) not_le)
    ultimately show ?thesis using assms(3) nth_mem by blast
  qed
  have "Gauge_Value (Gauge_new (shared s)) = dint (int (0 + length ?cs))"
    using assms(5) len units by (intro sequential_units [OF linearizationD(1) [OF lin]]) (auto simp: gauge_defs dint_exact)
  then have "shared s = dint (int (\<Sum>i<n. length (prog i)))" using len by (simp add: gauge_defs)
  also have "\<dots> = Fin (of_nat (\<Sum>i<n. length (prog i)))"
    using assms(5) by (subst dint_exact) (simp_all del: of_nat_sum)
  finally show ?thesis .
qed

definition two_increments :: "nat \<Rightarrow> gauge_call list" where
  "two_increments i = (if i < 2 then [Call_Change (Fin 1)] else [])"

theorem gauge_no_lost_update_witness:
  "\<exists>s. gauge_reachable False (Fin 0) two_increments s \<and> gauge_finished s \<and> shared s = Fin 2"
proof -
  have "threads_below 2 (gauge_init (Fin 0) two_increments)"
    by (simp add: threads_below_def gauge_init_def two_increments_def)
  then obtain s where s: "(gauge_sys_step False)\<^sup>*\<^sup>* (gauge_init (Fin 0) two_increments) s" "gauge_finished s"
    using can_finish by blast
  have reach: "gauge_reachable False (Fin 0) two_increments s"
    using s(1) by (induction rule: rtranclp_induct) (blast intro: start step)+
  have "shared s = Fin (of_nat (\<Sum>i<2. length (two_increments i)))"
    by (rule gauge_no_lost_update [OF reach s(2)]) (simp_all add: two_increments_def)
  with reach s(2) show ?thesis by (auto simp: two_increments_def)
qed

end
