(* ===== verification/CKMSQuantiles.thy ===== *)
theory CKMSQuantiles
  imports Rounding
begin

text \<open>
  \<open>core/src/detail/ckms_quantiles.cc\<close> and its header: the streaming estimator of targeted
  quantiles. Observations are collected in a buffer of 500, sorted and merged into a sample of
  weighted items, and the sample is compressed. An \<open>int\<close> that leaves its range, a conversion
  of a \<open>double\<close> that does not fit, an index outside the buffer and a NaN in the range given to
  \<open>std::sort\<close> (whose order must be a strict weak one) are undefined behaviour: the operation
  is \<open>None\<close>. Sizes of containers are natural numbers; where the code computes with them in
  \<open>size_t\<close>, 64-bit words.
\<close>

subsection \<open>The code\<close>

record quantile =
  q_quantile :: double
  q_error :: double
  q_u :: double
  q_v :: double

definition Quantile_new :: "double \<Rightarrow> double \<Rightarrow> quantile" where
  "Quantile_new quantile err =
     \<lparr>q_quantile = quantile, q_error = err,
      q_u = ddiv (dmul (Fin 2) err) (dsub (Fin 1) quantile),
      q_v = ddiv (dmul (Fin 2) err) quantile\<rparr>"

record item =
  item_value :: double
  item_g :: int
  item_delta :: int

definition Item_new :: "double \<Rightarrow> int \<Rightarrow> int \<Rightarrow> item" where
  "Item_new value lower_delta delta = \<lparr>item_value = value, item_g = lower_delta, item_delta = delta\<rparr>"

record ckms =
  ckms_count :: u64
  ckms_sample :: "item list"
  ckms_buffer :: "double list"
  buffer_count :: nat

definition buffer_size :: nat where
  "buffer_size = 500"

definition CKMS_new :: ckms where
  "CKMS_new = \<lparr>ckms_count = 0, ckms_sample = [], ckms_buffer = replicate buffer_size (Fin 0),
               buffer_count = 0\<rparr>"

text \<open>\<open>static_cast<int>\<close> of a \<open>size_t\<close> keeps the low 32 bits, read as signed.\<close>

definition size_to_int :: "nat \<Rightarrow> int" where
  "size_to_int n = sint (of_nat n :: u32)"

text \<open>The difference \<open>size - rank\<close> is taken in \<open>size_t\<close>: it wraps around.\<close>

definition error_of :: "int \<Rightarrow> u64 \<Rightarrow> quantile \<Rightarrow> double" where
  "error_of rank sz q =
     (if dle (dint rank) (dmul (q_quantile q) (dint (uint sz)))
      then dmul (q_u q) (dint (uint (sz - word_of_int rank)))
      else dmul (q_v q) (dint rank))"

definition allowableError :: "quantile list \<Rightarrow> int \<Rightarrow> u64 \<Rightarrow> double" where
  "allowableError quantiles rank sz =
     fold (\<lambda>q minError. let err = error_of rank sz q in if dlt err minError then err else minError)
       quantiles (dint (uint (sz + 1)))"

text \<open>\<open>std::sort\<close> of values that are not NaN.\<close>

definition sort_doubles :: "double list \<Rightarrow> double list" where
  "sort_doubles = sort_key dkey"

definition new_delta :: "quantile list \<Rightarrow> nat \<Rightarrow> nat \<Rightarrow> int option" where
  "new_delta quantiles idx sz =
     (if 0 < idx \<and> idx < sz then
        do {
          rank \<leftarrow> as_int (size_to_int idx + 1);
          d \<leftarrow> double_to_int (dfloor (allowableError quantiles rank (of_nat sz)));
          as_int (d + 1)
        }
      else Some 0)"

definition insert_item :: "quantile list \<Rightarrow> double \<Rightarrow> item list \<times> u64 \<Rightarrow> (item list \<times> u64) option" where
  "insert_item quantiles value = (\<lambda>(sample, cnt).
     (let idx = lower_bound (\<lambda>item. dlt (item_value item) value) sample in
      map_option (\<lambda>delta. (insert_at idx (Item_new value 1 delta) sample, cnt + 1))
        (new_delta quantiles idx (length sample))))"

definition insertBatch :: "quantile list \<Rightarrow> ckms \<Rightarrow> (bool \<times> ckms) option" where
  "insertBatch quantiles s =
     (if buffer_count s = 0 then Some (False, s)
      else do {
        assert_def_beh (NaN \<notin> set (take (buffer_count s) (ckms_buffer s)));
        let sorted_part = sort_doubles (take (buffer_count s) (ckms_buffer s));
        let buffer = sorted_part @ drop (buffer_count s) (ckms_buffer s);
        let (sample, cnt, start) =
          (if ckms_sample s = [] then ([Item_new (buffer ! 0) 1 0], ckms_count s + 1, 1)
           else (ckms_sample s, ckms_count s, 0));
        (sample, cnt) \<leftarrow> fold_opt (insert_item quantiles) (drop start sorted_part) (sample, cnt);
        Some (True, s\<lparr>ckms_count := cnt, ckms_sample := sample, ckms_buffer := buffer,
                      buffer_count := 0\<rparr>)
      })"

text \<open>The loop of \<open>compress\<close>: the vector built so far, the logical size, the rest.\<close>

fun compress_loop :: "quantile list \<Rightarrow> item list \<Rightarrow> u64 \<Rightarrow> item list \<Rightarrow> item list option" where
  "compress_loop quantiles compressed logical_size [] = Some compressed"
| "compress_loop quantiles compressed logical_size (current_item # rest) =
     (let last_compressed = last compressed;
          logical_index = size_to_int (length compressed) in
      do {
        merged_g \<leftarrow> as_int (item_g last_compressed + item_g current_item);
        total \<leftarrow> as_int (merged_g + item_delta current_item);
        if dle (dint total) (allowableError quantiles logical_index logical_size)
        then compress_loop quantiles (butlast compressed @ [current_item\<lparr>item_g := merged_g\<rparr>])
               (logical_size - 1) rest
        else compress_loop quantiles (compressed @ [current_item]) logical_size rest
      })"

definition compress :: "quantile list \<Rightarrow> ckms \<Rightarrow> ckms option" where
  "compress quantiles s =
     (if length (ckms_sample s) < 2 then Some s
      else map_option (\<lambda>c. s\<lparr>ckms_sample := c\<rparr>)
        (compress_loop quantiles [ckms_sample s ! 0] (of_nat (length (ckms_sample s)))
          (tl (ckms_sample s))))"

definition ckms_insert :: "quantile list \<Rightarrow> double \<Rightarrow> ckms \<Rightarrow> ckms option" where
  "ckms_insert quantiles value s =
     do {
       assert_def_beh (buffer_count s < length (ckms_buffer s));
       let s = s\<lparr>ckms_buffer := (ckms_buffer s)[buffer_count s := value],
                 buffer_count := buffer_count s + 1\<rparr>;
       if buffer_count s = length (ckms_buffer s)
       then do { (_, s) \<leftarrow> insertBatch quantiles s; compress quantiles s }
       else Some s
     }"

text \<open>The loop of \<open>get\<close>: \<open>cur\<close> becomes \<open>prev\<close> in every round.\<close>

fun get_loop :: "double \<Rightarrow> int \<Rightarrow> item \<Rightarrow> item list \<Rightarrow> double option" where
  "get_loop bound rankMin prev [] = Some (item_value prev)"
| "get_loop bound rankMin prev (cur # it) =
     do {
       rankMin \<leftarrow> as_int (rankMin + item_g prev);
       r \<leftarrow> as_int (rankMin + item_g cur);
       r \<leftarrow> as_int (r + item_delta cur);
       if dlt bound (dint r) then Some (item_value prev) else get_loop bound rankMin cur it
     }"

definition ckms_get :: "quantile list \<Rightarrow> double \<Rightarrow> ckms \<Rightarrow> (double \<times> ckms) option" where
  "ckms_get quantiles q s =
     do {
       (_, s) \<leftarrow> insertBatch quantiles s;
       s \<leftarrow> compress quantiles s;
       (case ckms_sample s of
          [] \<Rightarrow> Some (NaN, s)
        | cur # it \<Rightarrow>
            do {
              desired \<leftarrow> double_to_int (dmul q (dint (uint (ckms_count s))));
              let bound = dadd (dint desired)
                (ddiv (allowableError quantiles desired (of_nat (length (ckms_sample s)))) (Fin 2));
              v \<leftarrow> get_loop bound 0 cur it;
              Some (v, s)
            })
     }"

definition ckms_reset :: "ckms \<Rightarrow> ckms" where
  "ckms_reset s = s\<lparr>ckms_count := 0, ckms_sample := [], buffer_count := 0\<rparr>"

end
