(* ===== verification/CKMSInvariant.thy ===== *)
theory CKMSInvariant
  imports CKMSQuantiles
begin

text \<open>
  What the estimator keeps of the observations: the weights of the sample add up to the number
  of observations merged into it, the items are sorted, their values were observed, and the
  weight at or below any value is at most the number of observations at or below it. Every
  operation keeps this, and none runs into undefined behaviour up to \<open>10^9\<close> observations.
\<close>

subsection \<open>Weights\<close>

definition weight_upto :: "double \<Rightarrow> item list \<Rightarrow> int" where
  "weight_upto t sample = sum_list (map item_g (filter (\<lambda>i. dle (item_value i) t) sample))"

definition rank_upto :: "double \<Rightarrow> double list \<Rightarrow> nat" where
  "rank_upto t ys = length (filter (\<lambda>y. dle y t) ys)"

definition sample_inv :: "double list \<Rightarrow> item list \<Rightarrow> bool" where
  "sample_inv ys sample \<longleftrightarrow>
     sum_list (map item_g sample) = int (length ys) \<and>
     (\<forall>i\<in>set sample. 1 \<le> item_g i \<and> item_value i \<in> set ys \<and>
        0 \<le> item_delta i \<and> item_delta i \<le> int (length ys) + 2) \<and>
     sorted_wrt (\<lambda>a b. dle (item_value a) (item_value b)) sample \<and>
     (\<forall>t. weight_upto t sample \<le> int (rank_upto t ys))"

lemma weight_upto_simps [simp]:
  "weight_upto t [] = 0"
  "weight_upto t (i # is) = (if dle (item_value i) t then item_g i else 0) + weight_upto t is"
  "weight_upto t (is @ js) = weight_upto t is + weight_upto t js"
  by (simp_all add: weight_upto_def)

lemma weight_upto_insert_at:
  "weight_upto t (insert_at k i is) = (if dle (item_value i) t then item_g i else 0) + weight_upto t is"
proof -
  have "weight_upto t (take k is) + weight_upto t (drop k is) = weight_upto t is"
    unfolding weight_upto_simps(3) [symmetric] append_take_drop_id ..
  then show ?thesis by (simp add: insert_at_def)
qed

lemma rank_upto_snoc [simp]: "rank_upto t (ys @ [v]) = rank_upto t ys + (if dle v t then 1 else 0)"
  by (simp add: rank_upto_def)

lemma rank_upto_mset: "mset xs = mset ys \<Longrightarrow> rank_upto t xs = rank_upto t ys"
  unfolding rank_upto_def by (metis mset_filter size_mset)

lemma sample_inv_mset:
  assumes "mset xs = mset ys"
  shows "sample_inv xs sample \<longleftrightarrow> sample_inv ys sample"
proof -
  have "set xs = set ys" "length xs = length ys"
    using assms by (metis set_mset_mset, metis size_mset)
  then show ?thesis using rank_upto_mset [OF assms] by (simp add: sample_inv_def)
qed

lemma items_weight: "\<forall>i\<in>set s. 1 \<le> item_g i \<Longrightarrow> int (length s) \<le> sum_list (map item_g s)"
  for s :: "item list"
  by (induction s) auto

lemma sample_length_le: "sample_inv ys sample \<Longrightarrow> length sample \<le> length ys"
  using items_weight [of sample] by (simp add: sample_inv_def)

lemma sample_inv_Nil [simp]: "sample_inv [] [] "
  by (simp add: sample_inv_def rank_upto_def)

lemma sample_inv_single: "v \<noteq> NaN \<Longrightarrow> sample_inv [v] [Item_new v 1 0]"
  by (simp add: sample_inv_def rank_upto_def Item_new_def)

lemma sample_nonempty: "sample_inv ys sample \<Longrightarrow> sample = [] \<longleftrightarrow> ys = []"
  using sample_length_le [of ys sample] by (auto simp: sample_inv_def)

subsection \<open>Inserting an item\<close>

lemma partitioned_sample:
  assumes "sorted_wrt (\<lambda>a b. dle (item_value a) (item_value b)) sample"
  shows "partitioned_by (\<lambda>i. dlt (item_value i) v) sample"
  unfolding partitioned_by_def
proof (intro allI impI)
  fix i j assume "i < j" "j < length sample" and lt: "dlt (item_value (sample ! j)) v"
  then have "dle (item_value (sample ! i)) (item_value (sample ! j))"
    using sorted_wrt_nth_less [OF assms] by blast
  then show "dlt (item_value (sample ! i)) v" using lt by (rule dle_dlt_trans)
qed

lemma sample_inv_insert:
  assumes inv: "sample_inv ys sample" and nan: "NaN \<notin> set ys" "v \<noteq> NaN"
    and k: "k = lower_bound (\<lambda>i. dlt (item_value i) v) sample"
    and d: "0 \<le> d" "d \<le> int (length ys) + 3"
  shows "sample_inv (ys @ [v]) (insert_at k (Item_new v 1 d) sample)"
proof -
  have sorted: "sorted_wrt (\<lambda>a b. dle (item_value a) (item_value b)) sample"
    using inv by (simp add: sample_inv_def)
  have not_nan: "i \<in> set sample \<Longrightarrow> item_value i \<noteq> NaN" for i
    using inv nan by (auto simp: sample_inv_def)
  have kl: "k \<le> length sample" by (simp add: k lower_bound_le)
  have below: "dle (item_value i) v" if "i \<in> set (take k sample)" for i
  proof -
    from that obtain j where "j < k" "i = sample ! j" by (auto simp: in_set_conv_nth)
    then show ?thesis
      using lower_bound_before [OF partitioned_sample [OF sorted]] k dlt_imp_dle by blast
  qed
  have above: "dle v (item_value i)" if "i \<in> set (drop k sample)" for i
  proof -
    from that obtain j where "j < length (drop k sample)" "i = drop k sample ! j"
      by (metis in_set_conv_nth)
    then have "k + j < length sample" "i = sample ! (k + j)" by auto
    then have "\<not> dlt (item_value i) v"
      using lower_bound_after [OF partitioned_sample [OF sorted], of v "k + j"] k by simp
    then show ?thesis using nan(2) not_nan [OF in_set_dropD [OF that]] by (simp add: not_dlt)
  qed
  have "sorted_wrt (\<lambda>a b. dle (item_value a) (item_value b)) (insert_at k (Item_new v 1 d) sample)"
    using sorted kl by (rule sorted_wrt_insert_at) (simp_all add: Item_new_def below above)
  then show ?thesis
    using inv d by (auto simp: sample_inv_def sum_list_insert_at weight_upto_insert_at Item_new_def)
qed

subsection \<open>Merging two neighbours\<close>

lemma sample_inv_merge:
  assumes "sample_inv ys (xs @ a # b # rest)"
  shows "sample_inv ys (xs @ b\<lparr>item_g := item_g a + item_g b\<rparr> # rest)"
proof -
  have ab: "dle (item_value a) (item_value b)" and g: "1 \<le> item_g a"
    using assms by (auto simp: sample_inv_def sorted_wrt_append)
  have "weight_upto t (xs @ b\<lparr>item_g := item_g a + item_g b\<rparr> # rest)
      \<le> weight_upto t (xs @ a # b # rest)" for t
    using dle_trans [OF ab, of t] g by auto
  moreover have "weight_upto t (xs @ a # b # rest) \<le> int (rank_upto t ys)" for t
    using assms by (simp add: sample_inv_def)
  ultimately have "weight_upto t (xs @ b\<lparr>item_g := item_g a + item_g b\<rparr> # rest) \<le> int (rank_upto t ys)" for t
    by (meson order_trans)
  then show ?thesis using assms by (auto simp: sample_inv_def sorted_wrt_append)
qed

lemma g_le_length:
  assumes "sample_inv ys (xs @ a # b # rest)"
  shows "item_g a + item_g b \<le> int (length ys)"
proof -
  have "\<forall>i\<in>set xs. 1 \<le> item_g i" "\<forall>i\<in>set rest. 1 \<le> item_g i"
    using assms by (auto simp: sample_inv_def)
  then have "0 \<le> sum_list (map item_g xs)" "0 \<le> sum_list (map item_g rest)"
    using items_weight [of xs] items_weight [of rest] by linarith+
  with assms show ?thesis by (simp add: sample_inv_def)
qed

text \<open>Up to this many observations every \<open>int\<close> of the algorithm stays in range.\<close>

definition ckms_limit :: nat where
  "ckms_limit = 1000000000"

lemma compress_loop_inv:
  assumes "sample_inv ys (compressed @ rest)" and "compressed \<noteq> []" and "length ys \<le> ckms_limit"
  shows "\<exists>c. compress_loop qs compressed sz rest = Some c \<and> sample_inv ys c \<and> c \<noteq> []"
  using assms(1,2)
proof (induction rest arbitrary: compressed sz)
  case Nil
  then show ?case by simp
next
  case (Cons b rest)
  let ?a = "last compressed"
  have parts: "compressed @ b # rest = butlast compressed @ ?a # b # rest"
    using Cons.prems(2) by simp
  have inv: "sample_inv ys (butlast compressed @ ?a # b # rest)"
    using Cons.prems(1) unfolding parts .
  have "1 \<le> item_g ?a" "1 \<le> item_g b" "0 \<le> item_delta b" "item_delta b \<le> int (length ys) + 2"
    using inv by (auto simp: sample_inv_def)
  with g_le_length [OF inv] assms(3)
  have rng: "in_int (item_g ?a + item_g b)" "in_int (item_g ?a + item_g b + item_delta b)"
    by (auto simp: in_int_def int_max_def int_min_def ckms_limit_def)
  show ?case
  proof (cases "dle (dint (item_g ?a + item_g b + item_delta b))
      (allowableError qs (size_to_int (length compressed)) sz)")
    case True
    have "sample_inv ys ((butlast compressed @ [b\<lparr>item_g := item_g ?a + item_g b\<rparr>]) @ rest)"
      using sample_inv_merge [OF inv] by simp
    then show ?thesis using Cons.IH rng True by (simp add: as_int_in_int Let_def)
  next
    case False
    have "sample_inv ys ((compressed @ [b]) @ rest)" using Cons.prems(1) by simp
    then show ?thesis using Cons.IH rng False by (simp add: as_int_in_int Let_def)
  qed
qed

lemma compress_inv:
  assumes "sample_inv ys (ckms_sample s)" and "length ys \<le> ckms_limit"
  shows "\<exists>c. compress qs s = Some (s\<lparr>ckms_sample := c\<rparr>) \<and> sample_inv ys c"
proof (cases "length (ckms_sample s) < 2")
  case True
  then have "compress qs s = Some (s\<lparr>ckms_sample := ckms_sample s\<rparr>)" by (simp add: compress_def)
  with assms(1) show ?thesis by blast
next
  case False
  then have "[ckms_sample s ! 0] @ tl (ckms_sample s) = ckms_sample s"
    by (cases "ckms_sample s") auto
  then show ?thesis
    using compress_loop_inv [of ys "[ckms_sample s ! 0]" "tl (ckms_sample s)" qs] assms False
    by (fastforce simp: compress_def)
qed

subsection \<open>The allowable error\<close>

text \<open>The errors the quantiles allow are not negative: what the constructor gives for a quantile
  in \<open>(0, 1]\<close> and a tolerated error that is not negative.\<close>

definition quantile_ok :: "quantile \<Rightarrow> bool" where
  "quantile_ok q \<longleftrightarrow> (q_u q = NaN \<or> dle (Fin 0) (q_u q)) \<and> (q_v q = NaN \<or> dle (Fin 0) (q_v q))"

lemma dmul_finite:
  "dfinite x \<Longrightarrow> dfinite y \<Longrightarrow> dmul x y = rnd (dneg_sign x \<noteq> dneg_sign y) (dval x * dval y)"
  by (cases x; cases y) (simp_all add: dmul_def Let_def)

lemma dmul_nonneg: "dle (Fin 0) x \<Longrightarrow> dle (Fin 0) y \<Longrightarrow> dmul x y = NaN \<or> dle (Fin 0) (dmul x y)"
proof (cases "dfinite x \<and> dfinite y")
  case True
  assume "dle (Fin 0) x" "dle (Fin 0) y"
  then have "0 \<le> dval x * dval y" using True by (simp add: dle_finite)
  then have "dle (rnd False 0) (rnd (dneg_sign x \<noteq> dneg_sign y) (dval x * dval y))" by (rule rnd_mono)
  moreover have "dmul x y = rnd (dneg_sign x \<noteq> dneg_sign y) (dval x * dval y)"
    using True by (simp add: dmul_finite)
  ultimately show ?thesis by simp
next
  case False
  assume "dle (Fin 0) x" "dle (Fin 0) y"
  then show ?thesis using False
    by (cases x; cases y) (auto simp: dmul_def dzero_def Let_def dle_def)
qed

lemma ddiv_nonneg:
  "dle (Fin 0) x \<Longrightarrow> dle (Fin 0) y \<Longrightarrow> \<not> dneg_sign x \<Longrightarrow> \<not> dneg_sign y \<Longrightarrow>
   ddiv x y = NaN \<or> dle (Fin 0) (ddiv x y)"
proof (cases "dfinite x \<and> dfinite y \<and> \<not> dzero y")
  case True
  assume "dle (Fin 0) x" "dle (Fin 0) y" "\<not> dneg_sign x" "\<not> dneg_sign y"
  then have "0 \<le> dval x / dval y" using True by (simp add: dle_finite)
  then have "dle (rnd False 0) (rnd False (dval x / dval y))" by (rule rnd_mono)
  moreover have "ddiv x y = rnd False (dval x / dval y)"
    using True \<open>\<not> dneg_sign x\<close> \<open>\<not> dneg_sign y\<close>
    by (cases x; cases y) (simp_all add: ddiv_def Let_def)
  ultimately show ?thesis by simp
next
  case False
  assume "dle (Fin 0) x" "dle (Fin 0) y" "\<not> dneg_sign x" "\<not> dneg_sign y"
  then show ?thesis using False
    by (cases x; cases y) (auto simp: ddiv_def dzero_def Let_def dle_def)
qed

lemma dint_nonneg: "0 \<le> n \<Longrightarrow> dle (Fin 0) (dint n)"
  using dint_mono [of 0 n] by simp

lemma error_of_nonneg:
  assumes "quantile_ok q" and "0 \<le> rank"
  shows "error_of rank sz q = NaN \<or> dle (Fin 0) (error_of rank sz q)"
proof -
  have "dle (Fin 0) (dint (uint (sz - word_of_int rank)))" by (rule dint_nonneg) simp
  moreover have "dle (Fin 0) (dint rank)" using assms(2) by (rule dint_nonneg)
  moreover have "dmul u y = NaN \<or> dle (Fin 0) (dmul u y)"
    if "u = NaN \<or> dle (Fin 0) u" "dle (Fin 0) y" for u y
    using that dmul_nonneg [of u y] by (auto simp: dmul_def)
  ultimately show ?thesis
    using assms(1) unfolding error_of_def quantile_ok_def by simp
qed

lemma allowableError_range:
  assumes "\<forall>q\<in>set qs. quantile_ok q" and "0 \<le> rank" and "n < 2 ^ 53"
  shows "dle (Fin 0) (allowableError qs rank (of_nat n))"
    and "dle (allowableError qs rank (of_nat n)) (dint (int n + 1))"
proof -
  let ?f = "\<lambda>q minError. let err = error_of rank (of_nat n) q in if dlt err minError then err else minError"
  have step: "dle (Fin 0) (fold ?f ps m) \<and> dle (fold ?f ps m) (dint (int n + 1))"
    if "\<forall>q\<in>set ps. quantile_ok q" "dle (Fin 0) m" "dle m (dint (int n + 1))" for ps m
    using that
  proof (induction ps arbitrary: m)
    case (Cons q ps)
    have "dle (Fin 0) (?f q m) \<and> dle (?f q m) (dint (int n + 1))"
    proof (cases "dlt (error_of rank (of_nat n) q) m")
      case True
      then have "dle (Fin 0) (error_of rank (of_nat n) q)"
        using error_of_nonneg [of q rank "of_nat n"] Cons.prems(1) assms(2) by auto
      then show ?thesis using True Cons.prems(3) dle_trans [OF dlt_imp_dle [OF True]]
        by (simp add: Let_def)
    next
      case False
      then show ?thesis using Cons.prems by (simp add: Let_def)
    qed
    then show ?case using Cons by simp
  qed simp
  have "n + 1 < 2 ^ LENGTH(64)" using assms(3) by simp
  then have "unat (of_nat (n + 1) :: u64) = n + 1" by (simp only: unat_of_nat mod_less)
  then have "uint (of_nat n + 1 :: u64) = int n + 1" by (simp add: uint_nat add.commute)
  then have init: "allowableError qs rank (of_nat n) = fold ?f qs (dint (int n + 1))"
    by (simp add: allowableError_def)
  have "dle (Fin 0) (dint (int n + 1))" by (rule dint_nonneg) simp
  then show "dle (Fin 0) (allowableError qs rank (of_nat n))"
    and "dle (allowableError qs rank (of_nat n)) (dint (int n + 1))"
    using step [of qs "dint (int n + 1)"] assms(1) unfolding init by simp_all
qed

lemma double_to_int_between:
  assumes "dle (Fin 0) x" and "dle x (dint n)" and "0 \<le> n" and "n \<le> int_max"
  shows "\<exists>d. double_to_int x = Some d \<and> 0 \<le> d \<and> d \<le> n"
    and "\<exists>d. double_to_int (dfloor x) = Some d \<and> 0 \<le> d \<and> d \<le> n"
proof -
  have n: "dint n = Fin (of_int n)" using assms(3,4) by (intro dint_exact) (simp add: int_max_def)
  then have fin: "dfinite x" using assms(1,2) by (cases x) (auto simp: dle_def)
  then have v: "0 \<le> dval x" "dval x \<le> of_int n" using assms(1,2) n by (auto simp: dle_finite)
  then have fl: "0 \<le> floor (dval x)" "floor (dval x) \<le> n" by (auto simp: floor_le_iff)
  then have "in_int (floor (dval x))" using assms(4) by (intro in_int_nonneg) auto
  then show "\<exists>d. double_to_int x = Some d \<and> 0 \<le> d \<and> d \<le> n"
    and "\<exists>d. double_to_int (dfloor x) = Some d \<and> 0 \<le> d \<and> d \<le> n"
    using fin v fl by (cases x; simp add: double_to_int_def trunc_def dfloor_def as_int_in_int)+
qed

lemma size_to_int_small: "n \<le> nat int_max \<Longrightarrow> size_to_int n = int n"
  by (simp add: size_to_int_def int_max_def signed_of_nat signed_take_bit_int_eq_self)

lemma new_delta_ok:
  assumes "\<forall>q\<in>set qs. quantile_ok q" and "sz \<le> ckms_limit" and "idx \<le> sz"
  shows "\<exists>d. new_delta qs idx sz = Some d \<and> 0 \<le> d \<and> d \<le> int sz + 2"
proof (cases "0 < idx \<and> idx < sz")
  case False
  then show ?thesis by (auto simp: new_delta_def)
next
  case True
  have rank: "size_to_int idx = int idx" "in_int (int idx + 1)"
    using assms(2,3) True
    by (auto simp: ckms_limit_def int_max_def in_int_def int_min_def intro!: size_to_int_small)
  have "dle (Fin 0) (allowableError qs (int idx + 1) (of_nat sz))"
    "dle (allowableError qs (int idx + 1) (of_nat sz)) (dint (int sz + 1))"
    using assms(1,2) by (auto intro!: allowableError_range simp: ckms_limit_def)
  then obtain d where d: "double_to_int (dfloor (allowableError qs (int idx + 1) (of_nat sz))) = Some d"
    "0 \<le> d" "d \<le> int sz + 1"
    using double_to_int_between(2) [of "allowableError qs (int idx + 1) (of_nat sz)" "int sz + 1"]
      assms(2) by (auto simp: ckms_limit_def int_max_def)
  then have "in_int (d + 1)" using assms(2)
    by (auto simp: ckms_limit_def int_max_def in_int_def int_min_def)
  then show ?thesis using d rank True by (simp add: new_delta_def as_int_in_int)
qed

subsection \<open>Inserting the buffer\<close>

lemma insert_item_inv:
  assumes "sample_inv ys sample" and "NaN \<notin> set ys" and "v \<noteq> NaN"
    and "\<forall>q\<in>set qs. quantile_ok q" and "length ys \<le> ckms_limit"
  shows "\<exists>s'. insert_item qs v (sample, c) = Some (s', c + 1) \<and> sample_inv (ys @ [v]) s'"
proof -
  let ?k = "lower_bound (\<lambda>i. dlt (item_value i) v) sample"
  have len: "length sample \<le> length ys" by (rule sample_length_le [OF assms(1)])
  obtain d where d: "new_delta qs ?k (length sample) = Some d" "0 \<le> d" "d \<le> int (length sample) + 2"
    using new_delta_ok [OF assms(4), of "length sample" ?k] len assms(5) lower_bound_le by (meson le_trans)
  then have "sample_inv (ys @ [v]) (insert_at ?k (Item_new v 1 d) sample)"
    using len by (intro sample_inv_insert [OF assms(1,2,3) refl]) auto
  then show ?thesis using d(1) by (simp add: insert_item_def)
qed

lemma insert_items_inv:
  assumes "\<forall>q\<in>set qs. quantile_ok q"
  shows "sample_inv ys sample \<Longrightarrow> NaN \<notin> set ys \<Longrightarrow> NaN \<notin> set vs \<Longrightarrow>
    length ys + length vs \<le> ckms_limit \<Longrightarrow>
    \<exists>s'. fold_opt (insert_item qs) vs (sample, c) = Some (s', c + of_nat (length vs)) \<and>
      sample_inv (ys @ vs) s'"
proof (induction vs arbitrary: ys sample c)
  case (Cons v vs)
  obtain s1 where s1: "insert_item qs v (sample, c) = Some (s1, c + 1)" "sample_inv (ys @ [v]) s1"
    using insert_item_inv [OF Cons.prems(1,2) _ assms, of v c] Cons.prems(3,4) by auto
  obtain s' where "fold_opt (insert_item qs) vs (s1, c + 1) = Some (s', c + 1 + of_nat (length vs))"
    "sample_inv ((ys @ [v]) @ vs) s'"
    using Cons.IH [OF s1(2), of "c + 1"] Cons.prems by auto
  then show ?case using s1(1) by (auto simp: add.assoc)
qed simp

text \<open>
  The relation between the state and the observations since the last reset: \<open>ys\<close> are the ones
  merged into the sample, the filled part of the buffer holds the others.
\<close>

definition ckms_rel :: "double list \<Rightarrow> ckms \<Rightarrow> bool" where
  "ckms_rel xs s \<longleftrightarrow> (\<exists>ys. sample_inv ys (ckms_sample s) \<and> ckms_count s = of_nat (length ys) \<and>
     mset xs = mset ys + mset (take (buffer_count s) (ckms_buffer s)) \<and>
     length (ckms_buffer s) = buffer_size \<and> buffer_count s \<le> buffer_size \<and> NaN \<notin> set xs)"

text \<open>Between the calls the buffer is not full; after a flush it is empty.\<close>

definition ckms_rep :: "double list \<Rightarrow> ckms \<Rightarrow> bool" where
  "ckms_rep xs s \<longleftrightarrow> ckms_rel xs s \<and> buffer_count s < buffer_size"

definition ckms_flushed :: "double list \<Rightarrow> ckms \<Rightarrow> bool" where
  "ckms_flushed xs s \<longleftrightarrow> sample_inv xs (ckms_sample s) \<and> ckms_count s = of_nat (length xs) \<and>
     length (ckms_buffer s) = buffer_size \<and> buffer_count s = 0 \<and> NaN \<notin> set xs"

lemma flushed_rep: "ckms_flushed xs s \<Longrightarrow> ckms_rep xs s"
  unfolding ckms_flushed_def ckms_rep_def ckms_rel_def
  by (intro conjI exI [of _ xs]) (simp_all add: buffer_size_def)

lemma ckms_rep_new [simp, wf_intros]: "ckms_rep [] CKMS_new"
  by (simp add: ckms_rep_def ckms_rel_def CKMS_new_def buffer_size_def)

lemma ckms_rep_reset [wf_intros]: "ckms_rep xs s \<Longrightarrow> ckms_rep [] (ckms_reset s)"
  by (auto simp: ckms_rep_def ckms_rel_def ckms_reset_def buffer_size_def)

lemma set_mset_eq: "mset xs = mset ys + mset zs \<Longrightarrow> set xs = set ys \<union> set zs"
  by (metis set_mset_mset set_mset_union)

lemma mset_sort_doubles [simp]: "mset (sort_doubles xs) = mset xs"
  by (simp add: sort_doubles_def)

lemma length_sort_doubles [simp]: "length (sort_doubles xs) = length xs"
  by (simp add: sort_doubles_def)

lemma set_sort_doubles [simp]: "set (sort_doubles xs) = set xs"
  by (simp add: sort_doubles_def)

text \<open>The items the batch starts from: the old sample, or the smallest new observation.\<close>

lemma insertBatch_flush:
  assumes rel: "ckms_rel xs s" and qs: "\<forall>q\<in>set qs. quantile_ok q" and lim: "length xs \<le> ckms_limit"
  shows "\<exists>b s'. insertBatch qs s = Some (b, s') \<and> ckms_flushed xs s'"
proof (cases "buffer_count s = 0")
  case True
  with rel obtain ys where ys: "sample_inv ys (ckms_sample s)" "ckms_count s = of_nat (length ys)"
    "mset xs = mset ys" "length (ckms_buffer s) = buffer_size" "NaN \<notin> set xs"
    by (auto simp: ckms_rel_def)
  then have "ckms_flushed xs s"
    using True sample_inv_mset [OF ys(3)] mset_eq_length [OF ys(3)] by (simp add: ckms_flushed_def)
  moreover have "insertBatch qs s = Some (False, s)" using True by (simp add: insertBatch_def)
  ultimately show ?thesis by blast
next
  case False
  let ?new = "take (buffer_count s) (ckms_buffer s)"
  let ?sorted = "sort_doubles ?new"
  from rel obtain ys where ys: "sample_inv ys (ckms_sample s)" "ckms_count s = of_nat (length ys)"
    and xs: "mset xs = mset ys + mset ?new" and buf: "length (ckms_buffer s) = buffer_size"
    "buffer_count s \<le> buffer_size" and nan: "NaN \<notin> set xs"
    by (auto simp: ckms_rel_def)
  have sets: "set xs = set ys \<union> set ?new" using xs by (rule set_mset_eq)
  have len: "length xs = length ys + length ?new"
    using xs by (metis size_mset size_union)
  have nonempty: "?new \<noteq> []" using False buf by (auto simp: buffer_size_def)
  then obtain v vs where vs: "?sorted = v # vs"
    by (metis length_sort_doubles length_0_conv neq_Nil_conv)
  then have vset: "set ?new = insert v (set vs)" "length ?new = Suc (length vs)"
    by (metis list.simps(15) set_sort_doubles, metis length_Cons length_sort_doubles)
  define start where "start = (if ckms_sample s = [] then 1 else 0 :: nat)"
  define sample0 where "sample0 = (if ckms_sample s = [] then [Item_new v 1 0] else ckms_sample s)"
  define zs where "zs = (if ckms_sample s = [] then [v] else ys)"
  have z: "sample_inv zs sample0"
    using ys(1) nan sets vset by (auto simp: zs_def sample0_def intro: sample_inv_single)
  have zv: "zs @ drop start ?sorted = ys @ ?sorted"
    using sample_nonempty [OF ys(1)] vs by (auto simp: zs_def start_def)
  have cnt: "(if ckms_sample s = [] then ckms_count s + 1 else ckms_count s) = of_nat (length zs)"
    using ys(2) sample_nonempty [OF ys(1)] by (auto simp: zs_def)
  have "NaN \<notin> set ?new" "NaN \<notin> set ys" using nan unfolding sets by blast+
  moreover have "set (drop start ?sorted) \<subseteq> set ?new"
    using set_drop_subset [of start ?sorted] by simp
  moreover have "set zs \<subseteq> set ys \<union> set ?new" using vset(1) by (auto simp: zs_def)
  ultimately have "NaN \<notin> set zs" "NaN \<notin> set (drop start ?sorted)" by blast+
  moreover have "length zs + length (drop start ?sorted) \<le> ckms_limit"
    using arg_cong [OF zv, of length] len lim by simp
  ultimately obtain s' where s': "fold_opt (insert_item qs) (drop start ?sorted) (sample0, of_nat (length zs))
      = Some (s', of_nat (length zs) + of_nat (length (drop start ?sorted)))"
    "sample_inv (ys @ ?sorted) s'"
    using insert_items_inv [OF qs z, of "drop start ?sorted" "of_nat (length zs)"] unfolding zv by blast
  have total: "(of_nat (length zs) + of_nat (length (drop start ?sorted)) :: u64) = of_nat (length xs)"
    using arg_cong [OF zv, of length] len by (simp flip: of_nat_add)
  have inv: "sample_inv xs s'"
    using s'(2) sample_inv_mset [of xs "ys @ ?sorted"] xs by simp
  define t where "t = s\<lparr>ckms_count := of_nat (length xs), ckms_sample := s',
    ckms_buffer := ?sorted @ drop (buffer_count s) (ckms_buffer s), buffer_count := 0\<rparr>"
  have start_eq: "(if ckms_sample s = [] then ([Item_new ((?sorted @ drop (buffer_count s) (ckms_buffer s)) ! 0) 1 0],
        ckms_count s + 1, 1) else (ckms_sample s, ckms_count s, 0)) = (sample0, of_nat (length zs), start)"
    using cnt vs by (auto simp: sample0_def start_def split: if_splits)
  have "assert_def_beh (NaN \<notin> set ?new) = Some ()" using nan sets by (intro assert_def_beh_True) auto
  then have "insertBatch qs s = Some (True, t)"
    unfolding insertBatch_def Let_def start_eq using False s'(1) total by (simp add: t_def)
  moreover have "ckms_flushed xs t"
    using inv nan buf by (simp add: ckms_flushed_def t_def)
  ultimately show ?thesis by blast
qed

lemma compress_flushed:
  assumes "ckms_flushed xs s" and "length xs \<le> ckms_limit"
  shows "\<exists>s'. compress qs s = Some s' \<and> ckms_flushed xs s'"
proof -
  obtain c where "compress qs s = Some (s\<lparr>ckms_sample := c\<rparr>)" "sample_inv xs c"
    using compress_inv [of xs s qs] assms by (auto simp: ckms_flushed_def)
  then show ?thesis using assms(1) by (simp add: ckms_flushed_def)
qed

lemma ckms_insert_rep:
  assumes rep: "ckms_rep xs s" and qs: "\<forall>q\<in>set qs. quantile_ok q"
    and v: "v \<noteq> NaN" and lim: "length xs < ckms_limit"
  shows "\<exists>s'. ckms_insert qs v s = Some s' \<and> ckms_rep (xs @ [v]) s'"
proof -
  define t where "t = s\<lparr>ckms_buffer := (ckms_buffer s)[buffer_count s := v],
     buffer_count := buffer_count s + 1\<rparr>"
  have bc: "buffer_count s < length (ckms_buffer s)" using rep by (auto simp: ckms_rep_def ckms_rel_def)
  have "take (buffer_count s + 1) ((ckms_buffer s)[buffer_count s := v]) =
      take (buffer_count s) (ckms_buffer s) @ [v]"
    using bc by (simp add: take_Suc_conv_app_nth)
  then have rel: "ckms_rel (xs @ [v]) t"
    using rep v by (auto simp: ckms_rep_def ckms_rel_def t_def)
  have lim': "length (xs @ [v]) \<le> ckms_limit" using lim by simp
  have buf: "length (ckms_buffer t) = buffer_size"
    using rep by (auto simp: ckms_rep_def ckms_rel_def t_def)
  show ?thesis
  proof (cases "buffer_count t = length (ckms_buffer t)")
    case False
    then have "ckms_insert qs v s = Some t"
      using bc by (simp add: ckms_insert_def t_def assert_def_beh_True)
    moreover have "ckms_rep (xs @ [v]) t" using rel False buf by (auto simp: ckms_rep_def ckms_rel_def)
    ultimately show ?thesis by blast
  next
    case True
    obtain b u where u: "insertBatch qs t = Some (b, u)" "ckms_flushed (xs @ [v]) u"
      using insertBatch_flush [OF rel qs lim'] by blast
    obtain w where w: "compress qs u = Some w" "ckms_flushed (xs @ [v]) w"
      using compress_flushed [OF u(2) lim'] by blast
    have "ckms_insert qs v s = Some w"
      using bc True u(1) w(1) by (simp add: ckms_insert_def t_def assert_def_beh_True)
    then show ?thesis using w(2) flushed_rep by blast
  qed
qed

subsection \<open>Reading a quantile\<close>

lemma get_loop_defined:
  assumes "sample_inv ys (done @ prev # it)" and "rankMin = sum_list (map item_g done)"
    and "length ys \<le> ckms_limit"
  shows "\<exists>v. get_loop bound rankMin prev it = Some v \<and> v \<in> set ys"
  using assms(1,2)
proof (induction it arbitrary: "done" prev rankMin)
  case Nil
  then show ?case by (auto simp: sample_inv_def)
next
  case (Cons cur it)
  have pos: "\<forall>i\<in>set done. 1 \<le> item_g i" "\<forall>i\<in>set it. 1 \<le> item_g i" "1 \<le> item_g prev" "1 \<le> item_g cur"
    and d: "0 \<le> item_delta cur" "item_delta cur \<le> int (length ys) + 2"
    and total: "sum_list (map item_g done) + (item_g prev + (item_g cur + sum_list (map item_g it)))
      = int (length ys)" and v: "item_value prev \<in> set ys"
    using Cons.prems(1) by (auto simp: sample_inv_def)
  have "0 \<le> sum_list (map item_g done)" "0 \<le> sum_list (map item_g it)"
    using pos items_weight [of "done"] items_weight [of it] by linarith+
  then have rng: "in_int (rankMin + item_g prev)" "in_int (rankMin + item_g prev + item_g cur)"
    "in_int (rankMin + item_g prev + item_g cur + item_delta cur)"
    using total pos d Cons.prems(2) assms(3)
    by (auto simp: in_int_def int_max_def int_min_def ckms_limit_def)
  have "\<exists>v. get_loop bound (rankMin + item_g prev) cur it = Some v \<and> v \<in> set ys"
    using Cons.prems by (intro Cons.IH [of "done @ [prev]"]) simp_all
  then show ?case using rng v by (simp add: as_int_in_int)
qed

lemma desired_defined:
  assumes "dle (Fin 0) q" and "dle q (Fin 1)" and "n \<le> ckms_limit"
  shows "\<exists>d. double_to_int (dmul q (dint (int n))) = Some d \<and> 0 \<le> d \<and> d \<le> int n"
proof -
  have n: "dint (int n) = Fin (of_nat n)" using assms(3) by (simp add: dint_exact ckms_limit_def)
  have fin: "dfinite q" using assms(1,2) by (cases q) (auto simp: dle_def)
  then have v: "0 \<le> dval q" "dval q \<le> 1" using assms(1,2) by (auto simp: dle_finite)
  then have "dval q * of_nat n \<le> of_nat n" by (simp add: mult_left_le_one_le)
  then have "dle (dmul q (dint (int n))) (rnd False (of_nat n))"
    using fin n by (simp add: dmul_finite rnd_mono)
  then have up: "dle (dmul q (dint (int n))) (dint (int n))" by (simp add: dint_def)
  have "0 \<le> dval q * of_nat n" using v by simp
  then have "dle (rnd False 0) (dmul q (dint (int n)))"
    using fin n by (simp add: dmul_finite rnd_mono del: rnd_0)
  then have "dle (Fin 0) (dmul q (dint (int n)))" by simp
  then show ?thesis using up assms(3)
    by (intro double_to_int_between) (simp_all add: ckms_limit_def int_max_def)
qed

lemma ckms_get_rep:
  assumes rep: "ckms_rep xs s" and qs: "\<forall>q\<in>set qs. quantile_ok q"
    and q: "dle (Fin 0) q" "dle q (Fin 1)" and lim: "length xs \<le> ckms_limit"
  shows "\<exists>v s'. ckms_get qs q s = Some (v, s') \<and> ckms_flushed xs s' \<and>
    (if xs = [] then v = NaN else v \<in> set xs)"
proof -
  obtain b t where t: "insertBatch qs s = Some (b, t)" "ckms_flushed xs t"
    using insertBatch_flush [OF _ qs lim, of s] rep by (auto simp: ckms_rep_def)
  obtain u where u: "compress qs t = Some u" "ckms_flushed xs u"
    using compress_flushed [OF t(2) lim] by blast
  have inv: "sample_inv xs (ckms_sample u)" and cnt: "ckms_count u = of_nat (length xs)"
    using u(2) by (auto simp: ckms_flushed_def)
  show ?thesis
  proof (cases "ckms_sample u")
    case Nil
    then have "xs = []" using sample_nonempty [OF inv] by simp
    then show ?thesis using t u Nil by (simp add: ckms_get_def)
  next
    case (Cons cur it)
    then have "xs \<noteq> []" using sample_nonempty [OF inv] by auto
    have "length xs \<le> 2 ^ 53" using lim by (simp add: ckms_limit_def)
    then have "length xs < 2 ^ LENGTH(64)" by (rule le_less_trans) simp
    then have ucnt: "uint (ckms_count u) = int (length xs)"
      by (simp add: cnt uint_nat unat_of_nat)
    obtain desired where d: "double_to_int (dmul q (dint (int (length xs)))) = Some desired"
      using desired_defined [OF q lim] by blast
    define bound where "bound = dadd (dint desired)
      (ddiv (allowableError qs desired (of_nat (length (ckms_sample u)))) (Fin 2))"
    obtain v where v: "get_loop bound 0 cur it = Some v" "v \<in> set xs"
      using get_loop_defined [of xs "[]" cur it 0 bound] inv Cons lim by auto
    have "ckms_get qs q s = Some (v, u)"
      using t u Cons d v ucnt by (simp add: ckms_get_def bound_def Let_def)
    then show ?thesis using u(2) v(2) \<open>xs \<noteq> []\<close> by simp
  qed
qed

subsection \<open>Proper quantiles\<close>

lemma rnd_no_sign: "0 \<le> q \<Longrightarrow> \<not> dneg_sign (rnd False q)"
  using rnd_fin_nonneg [of q] by (auto simp: rnd_def Let_def)

lemma rnd_nonneg: "0 \<le> q \<Longrightarrow> dle (Fin 0) (rnd s q)"
  using rnd_mono [of 0 q False s] by simp

lemma quantile_ok_new:
  assumes "dlt (Fin 0) q" and "dle q (Fin 1)" and "dle (Fin 0) err" and "\<not> dneg_sign err"
  shows "quantile_ok (Quantile_new q err)"
proof -
  obtain r where q: "q = Fin r" and r: "0 < r" "r \<le> 1"
    using assms(1,2) by (cases q) (auto simp: dlt_def dle_def)
  have two: "dle (Fin 0) (dmul (Fin 2) err) \<and> \<not> dneg_sign (dmul (Fin 2) err)"
  proof (cases "dfinite err")
    case True
    then have "dmul (Fin 2) err = rnd False (2 * dval err)" "0 \<le> dval err"
      using assms(3,4) by (simp_all add: dmul_finite dle_finite)
    then show ?thesis by (simp add: rnd_nonneg rnd_no_sign)
  next
    case False
    then show ?thesis using assms(3) by (cases err) (auto simp: dmul_def dzero_def dle_def)
  qed
  have one: "dsub (Fin 1) q = rnd False (1 - r)"
    using q r by (simp add: dsub_def)
  then have "dle (Fin 0) (dsub (Fin 1) q)" "\<not> dneg_sign (dsub (Fin 1) q)"
    using r by (simp_all add: rnd_nonneg rnd_no_sign)
  moreover have "dle (Fin 0) q" "\<not> dneg_sign q" using q r by simp_all
  ultimately show ?thesis
    using two by (simp add: quantile_ok_def Quantile_new_def ddiv_nonneg)
qed

subsection \<open>Sequences of insertions\<close>

lemma ckms_run:
  "ckms_rep xs s \<Longrightarrow> \<forall>q\<in>set qs. quantile_ok q \<Longrightarrow> NaN \<notin> set vs \<Longrightarrow> length (xs @ vs) \<le> ckms_limit \<Longrightarrow>
   \<exists>s'. fold_opt (ckms_insert qs) vs s = Some s' \<and> ckms_rep (xs @ vs) s'"
proof (induction vs arbitrary: xs s)
  case Nil
  then show ?case by simp
next
  case (Cons v vs)
  obtain t where t: "ckms_insert qs v s = Some t" "ckms_rep (xs @ [v]) t"
    using ckms_insert_rep [of xs s qs v] Cons.prems by auto
  then show ?case using Cons.IH [of "xs @ [v]" t] Cons.prems by simp
qed

subsection \<open>Properties\<close>

definition demo_quantile :: quantile where
  "demo_quantile = Quantile_new (Fin (1/2)) (Fin (1/16))"

lemma demo_quantile_ok [simp]: "quantile_ok demo_quantile"
  unfolding demo_quantile_def by (rule quantile_ok_new) simp_all

text \<open>C32: Up to \<open>10^9\<close> observations no insertion and no query runs into undefined behaviour
  (an \<open>int\<close> out of range, an index outside the buffer, a conversion that does not fit); a query
  answers NaN exactly when nothing was observed, and an observed value otherwise.\<close>

theorem ckms_defined:
  assumes "\<forall>q\<in>set qs. quantile_ok q" and "NaN \<notin> set vs" and "length vs \<le> ckms_limit"
    and "dle (Fin 0) q" and "dle q (Fin 1)"
  shows "\<exists>s v s'. fold_opt (ckms_insert qs) vs CKMS_new = Some s \<and> ckms_get qs q s = Some (v, s') \<and>
    (if vs = [] then v = NaN else v \<in> set vs)"
proof -
  obtain s where s: "fold_opt (ckms_insert qs) vs CKMS_new = Some s" "ckms_rep vs s"
    using ckms_run [of "[]" CKMS_new qs vs] assms(1-3) by auto
  with ckms_get_rep [OF s(2) assms(1,4,5,3)] show ?thesis by blast
qed

theorem ckms_defined_witness:
  "\<exists>s v s'. fold_opt (ckms_insert [demo_quantile]) [Fin 3, Fin 1, Fin 2] CKMS_new = Some s \<and>
     ckms_get [demo_quantile] (Fin (1/2)) s = Some (v, s') \<and> v \<in> {Fin 3, Fin 1, Fin 2}"
  using ckms_defined [of "[demo_quantile]" "[Fin 3, Fin 1, Fin 2]" "Fin (1/2)"]
  by (simp add: ckms_limit_def)

text \<open>C8: After a query the sample represents all observations: the weights add up to their
  number, the items are in order and were observed, and for every value \<open>t\<close> the weight of the
  items up to \<open>t\<close> is at most the number of observations up to \<open>t\<close>.\<close>

theorem ckms_sample_represents:
  assumes "\<forall>q\<in>set qs. quantile_ok q" and "NaN \<notin> set vs" and "length vs \<le> ckms_limit"
    and "dle (Fin 0) q" and "dle q (Fin 1)"
    and "fold_opt (ckms_insert qs) vs CKMS_new = Some s" and "ckms_get qs q s = Some (v, s')"
  shows "sum_list (map item_g (ckms_sample s')) = int (length vs) \<and>
    sorted_wrt dle (map item_value (ckms_sample s')) \<and>
    set (map item_value (ckms_sample s')) \<subseteq> set vs \<and>
    (\<forall>t. sum_list (map item_g (filter (\<lambda>i. dle (item_value i) t) (ckms_sample s')))
       \<le> int (length (filter (\<lambda>y. dle y t) vs)))"
proof -
  have "ckms_rep vs s" using ckms_run [of "[]" CKMS_new qs vs] assms(1-3,6) by simp
  from ckms_get_rep [OF this assms(1,4,5,3)] have "sample_inv vs (ckms_sample s')"
    using assms(7) by (auto simp: ckms_flushed_def)
  then show ?thesis
    by (auto simp: sample_inv_def weight_upto_def rank_upto_def sorted_wrt_map)
qed

theorem ckms_sample_represents_witness:
  "\<exists>s v s'. fold_opt (ckms_insert [demo_quantile]) [Fin 3, Fin 1, Fin 2] CKMS_new = Some s \<and>
     ckms_get [demo_quantile] (Fin (1/2)) s = Some (v, s') \<and>
     sum_list (map item_g (ckms_sample s')) = 3"
proof -
  obtain s where s: "fold_opt (ckms_insert [demo_quantile]) [Fin 3, Fin 1, Fin 2] CKMS_new = Some s"
      "ckms_rep [Fin 3, Fin 1, Fin 2] s"
    using ckms_run [of "[]" CKMS_new "[demo_quantile]" "[Fin 3, Fin 1, Fin 2]"] by (auto simp: ckms_limit_def)
  obtain v s' where g: "ckms_get [demo_quantile] (Fin (1/2)) s = Some (v, s')"
    using ckms_get_rep [OF s(2), of "[demo_quantile]" "Fin (1/2)"] by (auto simp: ckms_limit_def)
  show ?thesis
    using ckms_sample_represents [OF _ _ _ _ _ s(1) g] s(1) g by (auto simp: ckms_limit_def)
qed

text \<open>\<open>Observe\<close> takes a NaN without a check; the next query sorts it, for which \<open><\<close> is no order.\<close>

lemma nan_observation_undefined:
  "\<exists>s. ckms_insert qs NaN CKMS_new = Some s \<and> ckms_get qs q s = None"
proof -
  let ?s = "CKMS_new\<lparr>ckms_buffer := (ckms_buffer CKMS_new)[0 := NaN], buffer_count := 1\<rparr>"
  have "ckms_insert qs NaN CKMS_new = Some ?s"
    by (simp add: ckms_insert_def CKMS_new_def buffer_size_def assert_def_beh_def)
  moreover have "insertBatch qs ?s = None"
    by (simp add: insertBatch_def CKMS_new_def buffer_size_def assert_def_beh_def take_Cons' numeral_eq_Suc)
  then have "ckms_get qs q ?s = None" by (simp add: ckms_get_def)
  ultimately show ?thesis by blast
qed

end
