(* ===== verification/CKMSAccuracy.thy ===== *)
theory CKMSAccuracy
  imports CKMSInvariant
begin

text \<open>
  How close the estimator's answers are. A quantile is configured with the error it tolerates
  (\<open>core/include/prometheus/summary.h\<close>), but \<open>allowableError\<close> is given positions in the compressed
  sample and the sample's size where the method it implements counts observations. The theory
  follows one small run to the end: the answer is off by twice the tolerated error.
\<close>

subsection \<open>A batch in ascending order\<close>

definition buffered :: "double list \<Rightarrow> ckms" where
  "buffered vs = CKMS_new\<lparr>ckms_buffer := vs @ replicate (buffer_size - length vs) (Fin 0), buffer_count := length vs\<rparr>"

lemma insert_buffered:
  "length vs + 1 < buffer_size \<Longrightarrow> ckms_insert qs v (buffered vs) = Some (buffered (vs @ [v]))"
proof -
  assume n: "length vs + 1 < buffer_size"
  then obtain k where k: "buffer_size - length vs = Suc k" by (metis Suc_diff_Suc Suc_lessD Suc_eq_plus1)
  then have "buffer_size - length (vs @ [v]) = k" by simp
  moreover have "k \<noteq> 0" using n k by linarith
  ultimately show ?thesis using n k by (simp add: ckms_insert_def buffered_def list_update_append assert_def_beh_def Let_def)
qed

lemma insert_all_buffered:
  "length us + length vs < buffer_size \<Longrightarrow> fold_opt (ckms_insert qs) vs (buffered us) = Some (buffered (us @ vs))"
  by (induction vs arbitrary: us) (simp_all add: insert_buffered)

lemma buffered_Nil: "buffered [] = CKMS_new"
  by (simp add: buffered_def CKMS_new_def)

text \<open>Values above all items are appended, with no uncertainty.\<close>

lemma insert_item_end:
  assumes "\<forall>i\<in>set sample. dlt (item_value i) v"
  shows "insert_item qs v (sample, cnt) = Some (sample @ [Item_new v 1 0], cnt + 1)"
proof -
  have "lower_bound (\<lambda>i. dlt (item_value i) v) sample = length sample"
    using assms by (intro lower_bound_unique) (auto simp: partitioned_by_def)
  then show ?thesis by (simp add: insert_item_def new_delta_def insert_at_def)
qed

lemma insert_items_end:
  "sorted_wrt dlt vs \<Longrightarrow> \<forall>i\<in>set sample. \<forall>v\<in>set vs. dlt (item_value i) v \<Longrightarrow>
   fold_opt (insert_item qs) vs (sample, cnt) = Some (sample @ map (\<lambda>v. Item_new v 1 0) vs, cnt + of_nat (length vs))"
proof (induction vs arbitrary: sample cnt)
  case (Cons v vs)
  then have "insert_item qs v (sample, cnt) = Some (sample @ [Item_new v 1 0], cnt + 1)"
    by (intro insert_item_end) auto
  moreover have "fold_opt (insert_item qs) vs (sample @ [Item_new v 1 0], cnt + 1) =
      Some ((sample @ [Item_new v 1 0]) @ map (\<lambda>v. Item_new v 1 0) vs, cnt + 1 + of_nat (length vs))"
    using Cons.prems by (intro Cons.IH) (auto simp: Item_new_def)
  ultimately show ?case by (simp add: add.assoc)
qed simp

lemma sort_ascending: "sorted_wrt dlt vs \<Longrightarrow> sort_doubles vs = vs"
  unfolding sort_doubles_def
  by (rule sort_key_id_if_sorted) (auto simp: sorted_map dlt_def elim!: sorted_wrt_mono_rel [rotated] less_imp_le)

subsection \<open>The run\<close>

text \<open>Two quantiles: the 75th percentile within 12.5 percent, the 87.5th within 6.25.\<close>

definition accuracy_quantiles :: "quantile list" where
  "accuracy_quantiles = [Quantile_new (Fin (3/4)) (Fin (1/8)), Quantile_new (Fin (7/8)) (Fin (1/16))]"

definition ascending_values :: "double list" where
  "ascending_values = [Fin 1, Fin 2, Fin 3, Fin 4, Fin 5, Fin 6, Fin 7, Fin 8, Fin 9, Fin 10]"

lemma dyadic_fractions:
  "rnd s (1/4) = Fin (1/4)" "rnd s (1/8) = Fin (1/8)" "rnd s (1/2) = Fin (1/2)" "rnd s 1 = Fin 1" "rnd s 3 = Fin 3"
  "rnd s (7/2) = Fin (7/2)" "rnd s (7/4) = Fin (7/4)" "rnd s (7/8) = Fin (7/8)"
  using rnd_dyadic [of "1/4" 1 2] rnd_dyadic [of "1/8" 1 3] rnd_dyadic [of "1/2" 1 1] rnd_dyadic [of 1 1 0] rnd_dyadic [of 3 3 0]
    rnd_dyadic [of "7/2" 7 1] rnd_dyadic [of "7/4" 7 2] rnd_dyadic [of "7/8" 7 3]
  by (simp_all add: power_int_minus)

lemma rnd_between:
  assumes "rnd False a = Fin a" and "a \<le> q" and "q \<le> b" and "rnd False b = Fin b"
  obtains x where "rnd False q = Fin x \<or> rnd False q = NegZero \<and> x = 0" and "a \<le> x" and "x \<le> b"
proof -
  have "dle (Fin a) (rnd False q)" "dle (rnd False q) (Fin b)"
    using rnd_mono [OF assms(2), of False False] rnd_mono [OF assms(3), of False False] assms(1,4) by simp_all
  then show thesis using that by (cases "rnd False q") (auto simp: dle_def)
qed

lemma accuracy_parameters:
  "accuracy_quantiles = [\<lparr>q_quantile = Fin (3/4), q_error = Fin (1/8), q_u = Fin 1, q_v = rnd False (1/3)\<rparr>,
     \<lparr>q_quantile = Fin (7/8), q_error = Fin (1/16), q_u = Fin 1, q_v = rnd False (1/7)\<rparr>]"
  by (simp add: accuracy_quantiles_def Quantile_new_def dmul_def dsub_def ddiv_def dzero_def dyadic_fractions)

lemma error_of_lower:
  assumes "q_quantile q = Fin p" and "q_u q = Fin 1" and "of_int rank \<le> p * of_int (uint sz)"
    and "0 \<le> rank" and "rank < uint sz" and "uint sz \<le> 1000" and "0 \<le> p"
  shows "error_of rank sz q = Fin (of_int (uint sz - rank))"
proof -
  have d: "dint n = Fin (of_int n)" if "0 \<le> n" "n \<le> uint sz" for n
    using that assms(6) by (intro dint_exact) simp
  have "dle (dint rank) (rnd s (p * of_int (uint sz)))" for s
    using rnd_mono [OF assms(3), of False s] by (simp add: dint_def)
  then have "dle (dint rank) (dmul (q_quantile q) (dint (uint sz)))"
    using d [of "uint sz"] assms(1) by (simp add: dmul_def Let_def)
  moreover have rank: "uint (word_of_int rank :: u64) = rank"
    using assms(4-6) by (simp add: uint_word_of_int take_bit_int_eq_self)
  then have "uint (sz - word_of_int rank) = uint sz - rank"
    using uint_sub_lem [of "word_of_int rank" sz] assms(5) by simp
  moreover have "dmul (Fin 1) (Fin (of_int k)) = Fin (of_int k)" if "0 < k" "k \<le> uint sz" for k
    using d [of k] that by (simp add: dmul_def Let_def dint_def)
  ultimately show ?thesis using assms(2,4,5) d [of "uint sz - rank"] by (simp add: error_of_def del: of_int_diff)
qed

lemma allowableError_lower:
  assumes "0 \<le> rank" and "4 * rank \<le> 3 * uint sz" and "0 < uint sz" and "uint sz \<le> 1000"
  shows "allowableError accuracy_quantiles rank sz = Fin (of_int (uint sz - rank))"
proof -
  have "of_int (4 * rank) \<le> (of_int (3 * uint sz) :: rat)" using assms(2) by (simp only: of_int_le_iff)
  then have r: "of_int rank \<le> (3/4 :: rat) * of_int (uint sz)" "of_int rank \<le> (7/8 :: rat) * of_int (uint sz)"
    using assms(1) by simp_all
  have "of_int (uint sz - rank) < (of_int (uint sz + 1) :: rat)" using assms(1) by (simp only: of_int_less_iff)
  then have less: "of_int (uint sz - rank) < (of_int (uint sz) + 1 :: rat)" by simp
  have "uint (sz + 1) = uint sz + uint (1 :: u64)" unfolding uint_add_lem [symmetric] using assms(4) by simp
  then have "uint (sz + 1) = uint sz + 1" by simp
  then have "dint (uint (sz + 1)) = Fin (of_int (uint sz + 1))" using assms(3,4) by (simp add: dint_exact)
  moreover have "error_of rank sz \<lparr>q_quantile = Fin p, q_error = e, q_u = Fin 1, q_v = w\<rparr> = Fin (of_int (uint sz - rank))"
    if "of_int rank \<le> p * of_int (uint sz)" "0 \<le> p" for p e w
    using that assms by (intro error_of_lower) simp_all
  note this [OF r(1)] this [OF r(2)]
  ultimately show ?thesis
    using less by (simp add: accuracy_parameters allowableError_def Let_def del: of_int_diff)
qed

text \<open>The query asks for the rank 7 of a sample of four items.\<close>

lemma allowableError_query: "\<exists>r. allowableError accuracy_quantiles 7 4 = Fin r \<and> 0 \<le> r \<and> r \<le> 7/4"
proof -
  obtain v where v: "rnd False (1/3) = Fin v" "1/4 \<le> v" "v \<le> 1/2"
    by (rule rnd_between [of "1/4" "1/3" "1/2"]) (auto simp: dyadic_fractions)
  obtain w where w: "rnd False (1/7) = Fin w" "1/8 \<le> w" "w \<le> 1/4"
    by (rule rnd_between [of "1/8" "1/7" "1/4"]) (auto simp: dyadic_fractions)
  obtain x where x: "rnd False (v * 7) = Fin x" "7/4 \<le> x" "x \<le> 7/2"
    by (rule rnd_between [of "7/4" "v * 7" "7/2"]) (use v in \<open>auto simp: dyadic_fractions\<close>)
  obtain y where y: "rnd False (w * 7) = Fin y" "7/8 \<le> y" "y \<le> 7/4"
    by (rule rnd_between [of "7/8" "w * 7" "7/4"]) (use w in \<open>auto simp: dyadic_fractions\<close>)
  have i: "dint 7 = Fin 7" "dint 4 = Fin 4" "dint 5 = Fin 5" using dint_exact [of 7] dint_exact [of 4] dint_exact [of 5] by simp_all
  have "error_of 7 4 \<lparr>q_quantile = Fin (3/4), q_error = Fin (1/8), q_u = Fin 1, q_v = rnd False (1/3)\<rparr> = Fin x"
    using v x by (simp add: error_of_def i dmul_def Let_def dyadic_fractions)
  moreover have "error_of 7 4 \<lparr>q_quantile = Fin (7/8), q_error = Fin (1/16), q_u = Fin 1, q_v = rnd False (1/7)\<rparr> = Fin y"
    using w y by (simp add: error_of_def i dmul_def Let_def dyadic_fractions)
  ultimately show ?thesis using x(2,3) y(2,3) by (simp add: accuracy_parameters allowableError_def i)
qed

lemma query_bound: "dlt (dadd (dint 7) (ddiv (allowableError accuracy_quantiles 7 4) (Fin 2))) (Fin 8)"
proof -
  obtain r where r: "allowableError accuracy_quantiles 7 4 = Fin r" "0 \<le> r" "r \<le> 7/4"
    using allowableError_query by blast
  obtain z where z: "rnd False (r / 2) = Fin z \<or> rnd False (r / 2) = NegZero \<and> z = 0" "0 \<le> z" "z \<le> 7/8"
    by (rule rnd_between [of 0 "r / 2" "7/8"]) (use r in \<open>auto simp: dyadic_fractions\<close>)
  have seven: "dint 7 = Fin 7" by (simp add: dint_exact)
  have "ddiv (Fin r) (Fin 2) = rnd False (r / 2)" using r(2) by (simp add: ddiv_def dzero_def Let_def)
  then have "dadd (dint 7) (ddiv (allowableError accuracy_quantiles 7 4) (Fin 2)) = rnd False (7 + z)"
    using z(1) by (auto simp: r(1) seven)
  moreover have "dle (rnd False (7 + z)) (Fin (63/8))"
    using rnd_mono [of "7 + z" "63/8" False False] z(3) rnd_dyadic [of "63/8" 63 3] by (simp add: power_int_minus)
  then have "dlt (rnd False (7 + z)) (Fin 8)" by (rule dle_dlt_trans) simp
  ultimately show ?thesis by simp
qed

lemma compressed_run:
  "compress_loop accuracy_quantiles [Item_new (Fin 1) 1 0] 10 (map (\<lambda>v. Item_new v 1 0) (tl ascending_values)) =
     Some [Item_new (Fin 5) 5 0, Item_new (Fin 8) 3 0, Item_new (Fin 9) 1 0, Item_new (Fin 10) 1 0]"
  by (simp add: ascending_values_def Item_new_def as_int_def in_int_def int_min_def int_max_def size_to_int_def
      allowableError_lower dint_exact)

lemma flushed_run:
  "\<exists>s. insertBatch accuracy_quantiles (buffered ascending_values) = Some (True, s) \<and> ckms_count s = 10 \<and>
     ckms_sample s = map (\<lambda>v. Item_new v 1 0) ascending_values"
proof -
  have asc: "sorted_wrt dlt ascending_values" "NaN \<notin> set ascending_values" by (simp_all add: ascending_values_def)
  have "fold_opt (insert_item accuracy_quantiles) (tl ascending_values) ([Item_new (Fin 1) 1 0], 1) =
      Some ([Item_new (Fin 1) 1 0] @ map (\<lambda>v. Item_new v 1 0) (tl ascending_values), 1 + of_nat (length (tl ascending_values)))"
    by (rule insert_items_end) (simp_all add: ascending_values_def Item_new_def)
  then show ?thesis
    using asc(2) sort_ascending [OF asc(1)]
    by (simp add: insertBatch_def buffered_def CKMS_new_def Let_def) (simp add: ascending_values_def)
qed

text \<open>The values 1 to 10 are observed; the 75th percentile lies at rank 7.5, and an error of 12.5
  percent leaves 6.25 to 8.75. The answer has rank 5.\<close>

lemma tolerated_error_exceeded:
  "\<exists>s s'. fold_opt (ckms_insert accuracy_quantiles) ascending_values CKMS_new = Some s \<and>
     ckms_get accuracy_quantiles (Fin (3/4)) s = Some (Fin 5, s')"
proof -
  have "fold_opt (ckms_insert accuracy_quantiles) ascending_values (buffered []) = Some (buffered ([] @ ascending_values))"
    by (rule insert_all_buffered) (simp add: ascending_values_def buffer_size_def)
  moreover obtain s where s: "insertBatch accuracy_quantiles (buffered ascending_values) = Some (True, s)" "ckms_count s = 10"
    "ckms_sample s = map (\<lambda>v. Item_new v 1 0) ascending_values"
    using flushed_run by blast
  moreover have "\<exists>s'. ckms_get accuracy_quantiles (Fin (3/4)) (buffered ascending_values) = Some (Fin 5, s')"
  proof -
    let ?sample = "[Item_new (Fin 5) 5 0, Item_new (Fin 8) 3 0, Item_new (Fin 9) 1 0, Item_new (Fin 10) 1 0]"
    have "compress accuracy_quantiles s = Some (s\<lparr>ckms_sample := ?sample\<rparr>)"
      using compressed_run by (simp add: compress_def s(3)) (simp add: ascending_values_def)
    moreover have "double_to_int (dmul (Fin (3/4)) (dint (uint (10 :: u64)))) = Some 7"
    proof -
      have "rnd False (15/2) = Fin (15/2)" using rnd_dyadic [of "15/2" 15 1] by (simp add: power_int_minus)
      moreover have "trunc (15/2) = 7" by (simp add: trunc_def floor_eq_iff)
      ultimately show ?thesis
        by (simp add: dint_exact dmul_def Let_def double_to_int_def as_int_def in_int_def int_min_def int_max_def)
    qed
    moreover obtain bound where "dadd (dint 7) (ddiv (allowableError accuracy_quantiles 7 4) (Fin 2)) = bound" "dlt bound (Fin 8)"
      using query_bound by blast
    ultimately show ?thesis
      using s(1,2) by (simp add: ckms_get_def Item_new_def as_int_def in_int_def int_min_def int_max_def dint_exact)
  qed
  ultimately show ?thesis by (simp add: buffered_Nil)
qed

end
