(* ===== verification/CKMSExact.thy ===== *)
theory CKMSExact
  imports CKMSAccuracy
begin

text \<open>
  A tolerated error of zero. When one of the configured quantiles tolerates no error, nothing is
  ever merged: the sample holds every observation with weight one, and the answer to any query,
  whatever the other quantiles tolerate, is an observation. Which one is not always the one asked
  for: \<open>q * n\<close> is cut to an integer, and an observation that was inserted between others counts as
  uncertain by one rank even then, so the answer can be the one below it.
\<close>

subsection \<open>No allowable error\<close>

definition exact_quantile :: "quantile \<Rightarrow> bool" where
  "exact_quantile q \<longleftrightarrow> q_u q = Fin 0 \<and> q_v q = Fin 0"

text \<open>What the constructor makes of an error of zero.\<close>

lemma exact_quantile_new:
  assumes "0 < a" and "a \<le> 1 - 1 / 2 ^ 53"
  shows "exact_quantile (Quantile_new (Fin a) (Fin 0))"
proof -
  have "dle (Fin (1 / 2 ^ 53)) (rnd False (1 - a))"
    using rnd_mono [of "1 / 2 ^ 53" "1 - a" False False] rnd_dyadic [of "1 / 2 ^ 53" 1 53] assms(2)
    by (simp add: power_int_minus field_simps)
  then have "\<not> dzero (rnd False (1 - a))" "rnd False (1 - a) \<noteq> NaN" by (auto simp: dzero_def dle_def)
  moreover have "\<not> dneg_sign (rnd False (1 - a))" using assms(2) by (intro rnd_no_sign) simp
  ultimately have "ddiv (Fin 0) (rnd False (1 - a)) = Fin 0"
    by (cases "rnd False (1 - a)") (simp_all add: ddiv_def dzero_def Let_def)
  then show ?thesis
    using assms(1) by (simp add: exact_quantile_def Quantile_new_def dmul_def dsub_def) (simp add: ddiv_def dzero_def Let_def)
qed

lemma error_of_exact:
  assumes "exact_quantile q" and "0 \<le> rank" and "rank \<le> int sz" and "sz \<le> ckms_limit"
  shows "error_of rank (of_nat sz) q = Fin 0"
proof -
  have "sz < 2 ^ LENGTH(64)" using assms(4) by (simp add: ckms_limit_def)
  then have sz: "uint (of_nat sz :: u64) = int sz" by (simp add: uint_nat unat_of_nat)
  have rank: "uint (word_of_int rank :: u64) = rank"
    using assms(2-4) by (simp add: uint_word_of_int take_bit_int_eq_self ckms_limit_def)
  then have "uint ((of_nat sz :: u64) - word_of_int rank) = int sz - rank"
    using uint_sub_lem [of "word_of_int rank" "of_nat sz :: u64"] assms(3) sz by simp
  moreover have "dmul (Fin 0) (dint k) = Fin 0" if "0 \<le> k" "k \<le> int sz" for k
    using that assms(4) by (simp add: dint_exact ckms_limit_def dmul_def Let_def)
  ultimately show ?thesis using assms(1-3) by (simp add: error_of_def exact_quantile_def)
qed

lemma allowable_le:
  "q \<in> set qs \<Longrightarrow> error_of rank sz q = Fin 0 \<Longrightarrow> m \<noteq> NaN \<Longrightarrow>
   dle (fold (\<lambda>q minError. let err = error_of rank sz q in if dlt err minError then err else minError) qs m) (Fin 0)"
proof -
  let ?f = "\<lambda>q minError. let err = error_of rank sz q in if dlt err minError then err else minError"
  have keep: "dle m (Fin 0) \<Longrightarrow> dle (fold ?f ps m) (Fin 0)" for ps m
  proof (induction ps arbitrary: m)
    case (Cons p ps)
    have "dle (?f p m) (Fin 0)" using Cons.prems by (auto simp: Let_def dest: dlt_imp_dle dle_trans)
    then show ?case using Cons.IH by simp
  qed simp
  have "m \<noteq> NaN \<Longrightarrow> ?f q m \<noteq> NaN" for q m by (auto simp: Let_def dlt_def)
  then show "q \<in> set qs \<Longrightarrow> error_of rank sz q = Fin 0 \<Longrightarrow> m \<noteq> NaN \<Longrightarrow> dle (fold ?f qs m) (Fin 0)"
  proof (induction qs arbitrary: m)
    case (Cons p ps)
    show ?case
    proof (cases "p = q")
      case True
      have "dle (?f q m) (Fin 0)" using Cons.prems(2,3) by (auto simp: Let_def not_dlt)
      then show ?thesis using keep [of "?f q m" ps] True by simp
    next
      case False
      then show ?thesis using Cons.IH [of "?f p m"] Cons.prems by auto
    qed
  qed simp
qed

definition exact_config :: "quantile list \<Rightarrow> bool" where
  "exact_config qs \<longleftrightarrow> (\<forall>q\<in>set qs. quantile_ok q) \<and> (\<exists>q\<in>set qs. exact_quantile q)"

lemma allowableError_exact:
  assumes "exact_config qs" and "0 \<le> rank" and "rank \<le> int sz" and "sz \<le> ckms_limit"
  shows "allowableError qs rank (of_nat sz) \<in> {Fin 0, NegZero}"
proof -
  obtain q where q: "q \<in> set qs" "exact_quantile q" using assms(1) by (auto simp: exact_config_def)
  have "dle (allowableError qs rank (of_nat sz)) (Fin 0)"
    unfolding allowableError_def using allowable_le [OF q(1) error_of_exact [OF q(2) assms(2-4)]] by simp
  moreover have "dle (Fin 0) (allowableError qs rank (of_nat sz))"
    using assms by (intro allowableError_range(1)) (auto simp: exact_config_def ckms_limit_def)
  ultimately show ?thesis by (cases "allowableError qs rank (of_nat sz)") (auto simp: dle_def)
qed

subsection \<open>The sample\<close>

definition exact_inv :: "double list \<Rightarrow> item list \<Rightarrow> bool" where
  "exact_inv ys sample \<longleftrightarrow> sample_inv ys sample \<and> mset (map item_value sample) = mset ys \<and>
     (\<forall>i\<in>set sample. item_g i = 1 \<and> item_delta i \<in> {0, 1}) \<and> (sample \<noteq> [] \<longrightarrow> item_delta (last sample) = 0)"

lemma new_delta_exact:
  assumes "exact_config qs" and "sz \<le> ckms_limit" and "idx \<le> sz"
  shows "new_delta qs idx sz = Some (if 0 < idx \<and> idx < sz then 1 else 0)"
proof (cases "0 < idx \<and> idx < sz")
  case True
  have rank: "size_to_int idx = int idx" using assms(2,3) by (intro size_to_int_small) (simp add: ckms_limit_def int_max_def)
  have "allowableError qs (int idx + 1) (of_nat sz) \<in> {Fin 0, NegZero}"
    using True assms by (intro allowableError_exact) auto
  then have "double_to_int (dfloor (allowableError qs (int idx + 1) (of_nat sz))) = Some 0"
    by (auto simp: dfloor_def double_to_int_def trunc_def as_int_def in_int_def int_min_def int_max_def)
  moreover have "in_int (int idx + 1)" using assms(2,3) by (auto simp: in_int_def int_min_def int_max_def ckms_limit_def)
  ultimately show ?thesis using True rank by (simp add: new_delta_def as_int_def in_int_def int_min_def int_max_def)
qed (auto simp: new_delta_def)

lemma last_insert_at:
  "i \<le> length xs \<Longrightarrow> last (insert_at i x xs) = (if i = length xs then x else last xs)"
  by (auto simp: insert_at_def last_append)

lemma insert_item_exact:
  assumes inv: "exact_inv ys sample" and nan: "NaN \<notin> set ys" "v \<noteq> NaN" and qs: "exact_config qs"
    and lim: "length ys \<le> ckms_limit" and ins: "insert_item qs v (sample, c) = Some (s', c')"
  shows "exact_inv (ys @ [v]) s'"
proof -
  let ?k = "lower_bound (\<lambda>i. dlt (item_value i) v) sample"
  have ok: "sample_inv ys sample" using inv by (simp add: exact_inv_def)
  have len: "length sample \<le> ckms_limit" using sample_length_le [OF ok] lim by simp
  note d = new_delta_exact [OF qs len lower_bound_le [of "\<lambda>i. dlt (item_value i) v" sample]]
  let ?d = "if 0 < ?k \<and> ?k < length sample then 1 else 0 :: int"
  have s': "s' = insert_at ?k (Item_new v 1 ?d) sample" using ins unfolding insert_item_def prod.case Let_def d by simp
  have "sample_inv (ys @ [v]) s'"
    using insert_item_inv [OF ok nan _ lim, of qs c] qs ins by (auto simp: exact_config_def)
  moreover have "mset (map item_value s') = mset (ys @ [v])"
    using inv by (simp add: s' exact_inv_def Item_new_def)
  moreover have "\<forall>i\<in>set s'. item_g i = 1 \<and> item_delta i \<in> {0, 1}" using inv by (simp add: s' exact_inv_def Item_new_def)
  moreover have "item_delta (last s') = 0"
    using inv lower_bound_le [of "\<lambda>i. dlt (item_value i) v" sample]
    by (auto simp: s' last_insert_at exact_inv_def Item_new_def)
  ultimately show ?thesis by (simp add: exact_inv_def)
qed

lemma insert_items_exact:
  assumes "exact_config qs"
  shows "exact_inv ys sample \<Longrightarrow> NaN \<notin> set ys \<Longrightarrow> NaN \<notin> set vs \<Longrightarrow> length ys + length vs \<le> ckms_limit \<Longrightarrow>
    fold_opt (insert_item qs) vs (sample, c) = Some (s', c') \<Longrightarrow> exact_inv (ys @ vs) s'"
proof (induction vs arbitrary: ys sample c)
  case (Cons v vs)
  obtain s1 c1 where s1: "insert_item qs v (sample, c) = Some (s1, c1)" "fold_opt (insert_item qs) vs (s1, c1) = Some (s', c')"
    using Cons.prems(5) by (auto split: option.splits)
  have "exact_inv (ys @ [v]) s1" using insert_item_exact [OF Cons.prems(1,2) _ assms _ s1(1)] Cons.prems(3,4) by auto
  then show ?case using Cons.IH [of "ys @ [v]" s1 c1] Cons.prems s1(2) by simp
qed simp

text \<open>A batch, seen as insertions one after the other: starting an empty sample is no special case.\<close>

lemma insert_item_first: "insert_item qs v ([], c) = Some ([Item_new v 1 0], c + 1)"
  by (simp add: insert_item_def lower_bound_def new_delta_def insert_at_def)

lemma insertBatch_fold:
  assumes "insertBatch qs s = Some (b, t)" and "buffer_count s \<le> length (ckms_buffer s)"
  shows "ckms_sample t = ckms_sample s \<and> buffer_count s = 0 \<or>
    fold_opt (insert_item qs) (sort_doubles (take (buffer_count s) (ckms_buffer s))) (ckms_sample s, ckms_count s) =
      Some (ckms_sample t, ckms_count t)"
proof (cases "buffer_count s = 0")
  case True
  then show ?thesis using assms(1) by (auto simp: insertBatch_def)
next
  case False
  let ?sorted = "sort_doubles (take (buffer_count s) (ckms_buffer s))"
  have "length ?sorted \<noteq> 0" using False assms(2) by simp
  then obtain v vs where vs: "?sorted = v # vs" by (cases ?sorted) auto
  show ?thesis
  proof (cases "ckms_sample s")
    case Nil
    then have "fold_opt (insert_item qs) vs ([Item_new v 1 0], ckms_count s + 1) = Some (ckms_sample t, ckms_count t)"
      using assms(1) False vs by (auto simp: insertBatch_def Let_def bind_eq_Some_conv)
    then show ?thesis using Nil vs by (simp add: insert_item_first)
  next
    case (Cons i rest)
    then show ?thesis using assms(1) False vs by (auto simp: insertBatch_def Let_def bind_eq_Some_conv)
  qed
qed

lemma compress_loop_exact:
  assumes "exact_config qs"
  shows "(\<forall>i\<in>set (compressed @ rest). item_g i = 1 \<and> item_delta i \<in> {0, 1}) \<Longrightarrow> compressed \<noteq> [] \<Longrightarrow>
    length (compressed @ rest) \<le> sz \<Longrightarrow> sz \<le> ckms_limit \<Longrightarrow>
    compress_loop qs compressed (of_nat sz) rest = Some (compressed @ rest)"
proof (induction rest arbitrary: compressed)
  case (Cons i rest)
  have "last compressed \<in> set compressed" using Cons.prems(2) by simp
  then have g: "item_g (last compressed) = 1" "item_g i = 1" "item_delta i \<in> {0, 1}" using Cons.prems(1) by auto
  have idx: "size_to_int (length compressed) = int (length compressed)"
    using Cons.prems(3,4) by (intro size_to_int_small) (simp add: ckms_limit_def int_max_def)
  have "allowableError qs (int (length compressed)) (of_nat sz) \<in> {Fin 0, NegZero}"
    using Cons.prems(3,4) by (intro allowableError_exact [OF assms]) auto
  then have "\<not> dle (dint (2 + item_delta i)) (allowableError qs (int (length compressed)) (of_nat sz))"
    using g(3) dint_exact [of 2] dint_exact [of 3] by (auto simp: dle_def)
  moreover have "compress_loop qs (compressed @ [i]) (of_nat sz) rest = Some ((compressed @ [i]) @ rest)"
    using Cons.prems by (intro Cons.IH) auto
  ultimately show ?case
    using g idx by (auto simp: as_int_def in_int_def int_min_def int_max_def Let_def)
qed simp

lemma compress_exact:
  assumes "exact_config qs" and "exact_inv ys (ckms_sample s)" and "length ys \<le> ckms_limit"
  shows "compress qs s = Some s"
proof (cases "length (ckms_sample s) < 2")
  case False
  then obtain i rest where i: "ckms_sample s = i # rest" by (cases "ckms_sample s") auto
  have "length (ckms_sample s) \<le> ckms_limit"
    using sample_length_le [of ys "ckms_sample s"] assms(2,3) by (simp add: exact_inv_def)
  then have "compress_loop qs [i] (of_nat (length (ckms_sample s))) rest = Some ([i] @ rest)"
    using assms(2) i by (intro compress_loop_exact [OF assms(1)]) (auto simp: exact_inv_def)
  then show ?thesis using False i by (simp add: compress_def)
qed (simp add: compress_def)

subsection \<open>Insertions\<close>

definition exact_rep :: "double list \<Rightarrow> ckms \<Rightarrow> bool" where
  "exact_rep xs s \<longleftrightarrow> ckms_rep xs s \<and> (\<exists>ys. exact_inv ys (ckms_sample s) \<and>
     mset xs = mset ys + mset (take (buffer_count s) (ckms_buffer s)))"

lemma exact_inv_mset: "mset xs = mset ys \<Longrightarrow> exact_inv xs sample \<longleftrightarrow> exact_inv ys sample"
  using sample_inv_mset [of xs ys sample] by (simp add: exact_inv_def)

text \<open>The state before the buffer is merged may have a full buffer.\<close>

lemma insertBatch_exact:
  assumes qs: "exact_config qs" and rel: "ckms_rel xs s" and lim: "length xs \<le> ckms_limit"
    and ys: "exact_inv ys (ckms_sample s)" "mset xs = mset ys + mset (take (buffer_count s) (ckms_buffer s))"
    and t: "insertBatch qs s = Some (b, t)"
  shows "exact_inv xs (ckms_sample t)"
proof -
  let ?new = "take (buffer_count s) (ckms_buffer s)"
  have buf: "buffer_count s \<le> length (ckms_buffer s)" and nan: "NaN \<notin> set xs" using rel by (auto simp: ckms_rel_def)
  have sets: "set xs = set ys \<union> set ?new" and len: "length xs = length ys + length ?new"
    using set_mset_eq [OF ys(2)] ys(2) by (blast, metis size_mset size_union)
  from insertBatch_fold [OF t buf] show ?thesis
  proof
    assume "ckms_sample t = ckms_sample s \<and> buffer_count s = 0"
    then show ?thesis using ys exact_inv_mset [of xs ys] by simp
  next
    assume "fold_opt (insert_item qs) (sort_doubles ?new) (ckms_sample s, ckms_count s) = Some (ckms_sample t, ckms_count t)"
    then have "exact_inv (ys @ sort_doubles ?new) (ckms_sample t)"
      using nan sets len lim by (intro insert_items_exact [OF qs ys(1)]) auto
    then show ?thesis using ys(2) exact_inv_mset [of xs "ys @ sort_doubles ?new"] by simp
  qed
qed

lemma exact_rep_new: "exact_rep [] CKMS_new"
  by (simp add: exact_rep_def exact_inv_def CKMS_new_def) (metis CKMS_new_def ckms_rep_new)

lemma ckms_insert_exact:
  assumes qs: "exact_config qs" and rep: "exact_rep xs s" and v: "v \<noteq> NaN" and lim: "length xs < ckms_limit"
    and ins: "ckms_insert qs v s = Some s'"
  shows "exact_rep (xs @ [v]) s'"
proof -
  have ok: "\<forall>q\<in>set qs. quantile_ok q" using qs by (simp add: exact_config_def)
  have crep: "ckms_rep xs s" using rep by (simp add: exact_rep_def)
  then have rep': "ckms_rep (xs @ [v]) s'" using ckms_insert_rep [OF _ ok v lim] ins by fastforce
  obtain ys where ys: "exact_inv ys (ckms_sample s)" "mset xs = mset ys + mset (take (buffer_count s) (ckms_buffer s))"
    using rep by (auto simp: exact_rep_def)
  define t where "t = s\<lparr>ckms_buffer := (ckms_buffer s)[buffer_count s := v], buffer_count := buffer_count s + 1\<rparr>"
  have bc: "buffer_count s < length (ckms_buffer s)" using crep by (auto simp: ckms_rep_def ckms_rel_def)
  have tk: "take (buffer_count t) (ckms_buffer t) = take (buffer_count s) (ckms_buffer s) @ [v]"
    using bc by (simp add: t_def take_Suc_conv_app_nth)
  have tys: "exact_inv ys (ckms_sample t)" "mset (xs @ [v]) = mset ys + mset (take (buffer_count t) (ckms_buffer t))"
    using ys unfolding tk by (simp_all add: t_def)
  show ?thesis
  proof (cases "buffer_count t = length (ckms_buffer t)")
    case False
    then have "s' = t" using ins bc by (simp add: ckms_insert_def t_def assert_def_beh_def)
    then show ?thesis using rep' tys by (auto simp: exact_rep_def)
  next
    case True
    then obtain b u where u: "insertBatch qs t = Some (b, u)" "compress qs u = Some s'"
      using ins bc by (auto simp: ckms_insert_def t_def assert_def_beh_def bind_eq_Some_conv)
    have rel: "ckms_rel (xs @ [v]) t"
      using crep v tk by (auto simp: ckms_rep_def ckms_rel_def t_def)
    have lim': "length (xs @ [v]) \<le> ckms_limit" using lim by simp
    have e: "exact_inv (xs @ [v]) (ckms_sample u)" using insertBatch_exact [OF qs rel lim' tys u(1)] .
    have "ckms_flushed (xs @ [v]) u" using insertBatch_flush [OF rel ok lim'] u(1) by auto
    then have "buffer_count u = 0" by (simp add: ckms_flushed_def)
    moreover have "s' = u" using compress_exact [OF qs e lim'] u(2) by simp
    ultimately show ?thesis using rep' e by (auto simp: exact_rep_def)
  qed
qed

lemma ckms_run_exact:
  "exact_config qs \<Longrightarrow> exact_rep xs s \<Longrightarrow> NaN \<notin> set vs \<Longrightarrow> length (xs @ vs) \<le> ckms_limit \<Longrightarrow>
   fold_opt (ckms_insert qs) vs s = Some s' \<Longrightarrow> exact_rep (xs @ vs) s'"
proof (induction vs arbitrary: xs s)
  case (Cons v vs)
  then obtain t where t: "ckms_insert qs v s = Some t" "fold_opt (ckms_insert qs) vs t = Some s'" by (auto split: option.splits)
  have "exact_rep (xs @ [v]) t" using ckms_insert_exact [OF Cons.prems(1,2) _ _ t(1)] Cons.prems(3,4) by auto
  then show ?case using Cons.IH [of "xs @ [v]" t] Cons.prems t(2) by simp
qed simp

subsection \<open>The answer\<close>

text \<open>The loop stops at the item whose rank is the one asked for, or one item earlier when that item
  is uncertain. Ranks count from 1, positions from 0.\<close>

definition answer_position :: "item list \<Rightarrow> int \<Rightarrow> nat" where
  "answer_position sample d = (if 2 \<le> d \<and> item_delta (sample ! (nat d - 1)) = 1 then nat d - 2 else nat d - 1)"

lemma get_loop_exact:
  assumes "\<forall>i\<in>set (done @ prev # it). item_g i = 1 \<and> item_delta i \<in> {0, 1}"
    and "item_delta (last (prev # it)) = 0" and "length (done @ prev # it) \<le> ckms_limit"
    and "bound \<noteq> NaN" and "dkey bound = (0, of_int d)" and "length done \<le> nat d - 1" and "d \<le> int (length (done @ prev # it))"
    and "length done \<le> answer_position (done @ prev # it) d"
  shows "get_loop bound (int (length done)) prev it =
    Some (item_value ((done @ prev # it) ! answer_position (done @ prev # it) d))"
  using assms
proof (induction it arbitrary: "done" prev)
  case Nil
  then have "answer_position (done @ [prev]) d \<le> length done" by (auto simp: answer_position_def)
  then have "answer_position (done @ [prev]) d = length done" using Nil.prems(8) by simp
  then show ?case by (simp add: nth_append)
next
  case (Cons cur it)
  let ?n = "length done"
  have g: "item_g prev = 1" "item_g cur = 1" "item_delta cur \<in> {0, 1}" using Cons.prems(1) by auto
  have n: "?n + 2 \<le> ckms_limit" using Cons.prems(3) by simp
  then have rng: "in_int (int ?n + 1)" "in_int (int ?n + 2)" "in_int (int ?n + 2 + item_delta cur)"
    using g(3) by (auto simp: in_int_def int_min_def int_max_def ckms_limit_def)
  have dkey: "dkey (dint (int ?n + 2 + item_delta cur)) = (0, of_int (int ?n + 2 + item_delta cur))"
    using n g(3) by (subst dint_exact) (auto simp: ckms_limit_def)
  have stop: "dlt bound (dint (int ?n + 2 + item_delta cur)) \<longleftrightarrow> d < int ?n + 2 + item_delta cur"
    unfolding dlt_def dkey Cons.prems(5) using Cons.prems(4) by (simp del: of_int_add)
  let ?l = "done @ prev # cur # it"
  have cur: "?l ! Suc ?n = cur" by (simp add: nth_append)
  show ?case
  proof (cases "d < int ?n + 2 + item_delta cur")
    case True
    then have "get_loop bound (int ?n) prev (cur # it) = Some (item_value prev)"
      using g rng stop by (simp add: as_int_in_int add.assoc)
    moreover have "answer_position ?l d = ?n"
    proof (cases "d = int ?n + 2")
      case same: True
      then have "nat d - 1 = Suc ?n" by simp
      then show ?thesis using True same g(3) cur by (auto simp: answer_position_def)
    next
      case False
      then show ?thesis using True Cons.prems(6,8) g(3) by (auto simp: answer_position_def split: if_splits)
    qed
    ultimately show ?thesis by (simp add: nth_append)
  next
    case False
    then have "?n + 2 \<le> nat d" "item_delta cur = 1 \<Longrightarrow> ?n + 2 \<noteq> nat d" using g(3) by auto
    then have "Suc ?n \<le> answer_position ?l d"
      using cur by (cases "nat d = ?n + 2") (auto simp: answer_position_def)
    then have "get_loop bound (int (length (done @ [prev]))) cur it =
        Some (item_value (((done @ [prev]) @ cur # it) ! answer_position ((done @ [prev]) @ cur # it) d))"
      using Cons.prems False g(3) by (intro Cons.IH) auto
    then show ?thesis using g rng stop False by (simp add: as_int_in_int add.assoc add.commute)
  qed
qed

text \<open>Values with the same place in the order are equal, but for the sign of a zero.\<close>

lemma sorted_values:
  assumes "mset vs = mset xs" and "sorted_wrt dle vs"
  shows "map dkey vs = map dkey (sort_doubles xs)"
proof -
  have "sorted (map dkey vs)"
    using assms(2) unfolding sorted_map by (rule sorted_wrt_mono_rel [rotated]) (simp add: dle_def)
  moreover have "mset (map dkey vs) = mset (map dkey xs)" by (simp add: assms(1))
  ultimately have "sort (map dkey xs) = map dkey vs" by (metis properties_for_sort)
  moreover have "sort (map dkey xs) = map dkey (sort_doubles xs)"
    by (rule properties_for_sort) (simp_all add: sort_doubles_def)
  ultimately show ?thesis by simp
qed

lemma bound_exact:
  assumes "exact_config qs" and "0 \<le> d" and "d \<le> int n" and "n \<le> ckms_limit"
  shows "dadd (dint d) (ddiv (allowableError qs d (of_nat n)) (Fin 2)) = Fin (of_int d)"
proof -
  have d: "dint d = Fin (of_int d)" using assms(2-4) by (simp add: dint_exact ckms_limit_def)
  have "ddiv (allowableError qs d (of_nat n)) (Fin 2) \<in> {Fin 0, NegZero}"
    using allowableError_exact [OF assms] by (auto simp: ddiv_def dzero_def Let_def)
  moreover have "rnd False (of_int d) = Fin (of_int d)" using d by (simp add: dint_def)
  ultimately show ?thesis by (auto simp: d)
qed

lemma ckms_get_exact:
  assumes qs: "exact_config qs" and rep: "exact_rep xs s" and lim: "length xs \<le> ckms_limit" and "xs \<noteq> []"
    and q: "dle (Fin 0) q" "dle q (Fin 1)"
  shows "\<exists>d v s' r. double_to_int (dmul q (dint (int (length xs)))) = Some d \<and> ckms_get qs q s = Some (v, s') \<and>
    v \<in> set xs \<and> deq v (sort_doubles xs ! r) \<and> r < length xs \<and> mset (map item_value (ckms_sample s')) = mset xs \<and>
    (\<forall>i\<in>set (ckms_sample s'). item_delta i \<in> {0, 1}) \<and> r = answer_position (ckms_sample s') d \<and>
    (\<exists>b. insertBatch qs s = Some (b, s'))"
proof -
  have ok: "\<forall>q\<in>set qs. quantile_ok q" using qs by (simp add: exact_config_def)
  have rel: "ckms_rel xs s" using rep by (simp add: exact_rep_def ckms_rep_def)
  obtain b t where t: "insertBatch qs s = Some (b, t)" "ckms_flushed xs t" using insertBatch_flush [OF rel ok lim] by blast
  have e: "exact_inv xs (ckms_sample t)" using insertBatch_exact [OF qs rel lim _ _ t(1)] rep by (auto simp: exact_rep_def)
  have c: "compress qs t = Some t" using compress_exact [OF qs e lim] .
  have inv: "sample_inv xs (ckms_sample t)" using e by (simp add: exact_inv_def)
  obtain prev it where sample: "ckms_sample t = prev # it"
    using sample_nonempty [OF inv] \<open>xs \<noteq> []\<close> by (cases "ckms_sample t") auto
  let ?vals = "map item_value (prev # it)"
  have vals: "mset ?vals = mset xs" using e sample by (simp add: exact_inv_def)
  have len: "length (prev # it) = length xs" using arg_cong [OF vals, of size] by simp
  have nan: "NaN \<notin> set xs" using t(2) by (simp add: ckms_flushed_def)
  have "sorted_wrt dle ?vals" using inv by (simp add: sample_inv_def sample sorted_wrt_map del: list.map sorted_wrt.simps)
  with vals have keys: "map dkey ?vals = map dkey (sort_doubles xs)" by (rule sorted_values)
  obtain d where d: "double_to_int (dmul q (dint (int (length xs)))) = Some d" "0 \<le> d" "d \<le> int (length xs)"
    using desired_defined [OF q lim] by blast
  have bound: "dadd (dint d) (ddiv (allowableError qs d (of_nat (length (prev # it)))) (Fin 2)) = Fin (of_int d)"
    using d lim by (intro bound_exact [OF qs]) (simp_all only: len)
  have items: "\<forall>i\<in>set ([] @ prev # it). item_g i = 1 \<and> item_delta i \<in> {0, 1}" "item_delta (last (prev # it)) = 0"
    using e sample by (simp_all add: exact_inv_def)
  define r where "r = answer_position (prev # it) d"
  have "get_loop (Fin (of_int d)) (int (length ([] :: item list))) prev it =
      Some (item_value (([] @ prev # it) ! answer_position ([] @ prev # it) d))"
    by (rule get_loop_exact [OF items]) (use d lim len in auto)
  then have r: "get_loop (Fin (of_int d)) 0 prev it = Some (item_value ((prev # it) ! r))" by (simp add: r_def)
  have "0 < length xs" using \<open>xs \<noteq> []\<close> by simp
  moreover have "r \<le> nat d - 1" unfolding r_def answer_position_def by (cases "nat d") auto
  ultimately have rl: "r < length xs" using d(3) by linarith
  let ?v = "item_value ((prev # it) ! r)"
  have "(prev # it) ! r \<in> set (prev # it)" using rl len by (intro nth_mem) simp
  then have "?v \<in> set ?vals" unfolding set_map by (rule imageI)
  then have v: "?v \<in> set xs" using vals by (metis mset_eq_setD)
  have "dkey ?v = dkey (sort_doubles xs ! r)"
    using arg_cong [OF keys, of "\<lambda>l. l ! r"] rl len by (simp del: list.map)
  moreover have "sort_doubles xs ! r \<in> set xs" using rl by (metis length_sort_doubles nth_mem set_sort_doubles)
  ultimately have "deq ?v (sort_doubles xs ! r)" using nan v by (auto simp: deq_def)
  moreover have "length xs < 2 ^ LENGTH(64)" using lim by (simp add: ckms_limit_def)
  then have "uint (ckms_count t) = int (length xs)" using t(2) by (simp add: ckms_flushed_def uint_nat unat_of_nat)
  then have "ckms_get qs q s = Some (?v, t)"
    using t(1) c sample d(1) bound r by (simp add: ckms_get_def Let_def)
  moreover have "mset (map item_value (ckms_sample t)) = mset xs" "\<forall>i\<in>set (ckms_sample t). item_delta i \<in> {0, 1}"
    "r = answer_position (ckms_sample t) d"
    using e by (simp_all add: exact_inv_def sample r_def)
  ultimately show ?thesis using d(1) v rl t(1) by blast
qed

text \<open>Different observations that fit the buffer are inserted at the end of the sample, with no
  uncertainty.\<close>

lemma distinct_batch:
  assumes "insertBatch qs (buffered vs) = Some (b, t)" and "vs \<noteq> []" and "length vs < buffer_size"
    and "sorted_wrt dlt (sort_doubles vs)"
  shows "\<forall>i\<in>set (ckms_sample t). item_delta i = 0"
proof -
  have "fold_opt (insert_item qs) (sort_doubles vs) ([], 0) = Some (ckms_sample t, ckms_count t)"
    using insertBatch_fold [OF assms(1)] assms(2,3) by (simp add: buffered_def CKMS_new_def)
  moreover have "fold_opt (insert_item qs) (sort_doubles vs) ([], 0) =
      Some ([] @ map (\<lambda>v. Item_new v 1 0) (sort_doubles vs), 0 + of_nat (length (sort_doubles vs)))"
    by (rule insert_items_end [OF assms(4)]) simp
  ultimately have "ckms_sample t = map (\<lambda>v. Item_new v 1 0) (sort_doubles vs)" by simp
  then show ?thesis by (auto simp: Item_new_def)
qed

subsection \<open>Properties\<close>

text \<open>C33: When a configured quantile tolerates no error, no observation is merged away, whatever the
  other quantiles tolerate: the sample holds all \<open>n\<close> of them. The answer for the level \<open>q\<close> is the
  observation whose rank in ascending order is the integer part of \<open>q * n\<close> (computed in doubles), and
  at least 1; it is the one of the rank below when the item of that rank was inserted between
  others, which leaves it an uncertainty of one. When fewer than 500 observations were made and they
  are all different, no item has one.\<close>

theorem ckms_zero_error:
  assumes "\<forall>p\<in>set qs. quantile_ok p" and "\<exists>p\<in>set qs. exact_quantile p"
    and "NaN \<notin> set vs" and "vs \<noteq> []" and "length vs \<le> ckms_limit" and "dle (Fin 0) q" and "dle q (Fin 1)"
  shows "\<exists>s d v s' r. fold_opt (ckms_insert qs) vs CKMS_new = Some s \<and>
    double_to_int (dmul q (dint (int (length vs)))) = Some d \<and> ckms_get qs q s = Some (v, s') \<and>
    v \<in> set vs \<and> deq v (sort_doubles vs ! r) \<and> r < length vs \<and>
    mset (map item_value (ckms_sample s')) = mset vs \<and> (\<forall>i\<in>set (ckms_sample s'). item_delta i \<in> {0, 1}) \<and>
    r = (if 2 \<le> d \<and> item_delta (ckms_sample s' ! (nat d - 1)) = 1 then nat d - 2 else nat d - 1) \<and>
    (length vs < buffer_size \<and> sorted_wrt dlt (sort_doubles vs) \<longrightarrow> r = nat d - 1)"
proof -
  have qs: "exact_config qs" using assms(1,2) by (simp add: exact_config_def)
  obtain s where s: "fold_opt (ckms_insert qs) vs CKMS_new = Some s"
    using ckms_run [of "[]" CKMS_new qs vs] assms(1,3,5) by auto
  have "exact_rep vs s" using ckms_run_exact [OF qs exact_rep_new _ _ s] assms(3,5) by simp
  from ckms_get_exact [OF qs this assms(5,4,6,7)] obtain d v s' r b where
    get: "double_to_int (dmul q (dint (int (length vs)))) = Some d" "ckms_get qs q s = Some (v, s')" "v \<in> set vs"
      "deq v (sort_doubles vs ! r)" "r < length vs" "mset (map item_value (ckms_sample s')) = mset vs"
      "\<forall>i\<in>set (ckms_sample s'). item_delta i \<in> {0, 1}"
    and r: "r = answer_position (ckms_sample s') d" and b: "insertBatch qs s = Some (b, s')"
    by blast
  have "r = nat d - 1" if few: "length vs < buffer_size" and different: "sorted_wrt dlt (sort_doubles vs)"
  proof -
    have "s = buffered vs" using insert_all_buffered [of "[]" vs qs] few s by (simp add: buffered_Nil)
    then have zero: "\<forall>i\<in>set (ckms_sample s'). item_delta i = 0" using distinct_batch b assms(4) few different by blast
    have n: "length (ckms_sample s') = length vs" using get(6) by (metis length_map size_mset)
    show ?thesis
    proof (rule ccontr)
      assume "r \<noteq> nat d - 1"
      then have d: "2 \<le> d" "item_delta (ckms_sample s' ! (nat d - 1)) = 1" "r = nat d - 2"
        using r by (auto simp: answer_position_def split: if_splits)
      then have "nat d - 1 \<le> length vs" using get(5) by linarith
      moreover have "d \<le> int (length vs)" using desired_defined [OF assms(6,7,5)] get(1) by auto
      ultimately have "ckms_sample s' ! (nat d - 1) \<in> set (ckms_sample s')" using d(1) n by (intro nth_mem) linarith
      then show False using zero d(2) by fastforce
    qed
  qed
  then show ?thesis using s get r unfolding answer_position_def by blast
qed

definition exact_demo :: quantile where
  "exact_demo = Quantile_new (Fin (1/2)) (Fin 0)"

lemma exact_demo_ok: "quantile_ok exact_demo" "exact_quantile exact_demo"
  unfolding exact_demo_def by (rule quantile_ok_new exact_quantile_new; simp)+

text \<open>A second 2 is inserted before the first one, and counts as uncertain: the answer for the median
  of 1, 2, 2 and 3, with no error tolerated, is 1.\<close>

lemma zero_error_exceeded:
  "\<exists>s v s'. fold_opt (ckms_insert [exact_demo]) [Fin 1, Fin 2, Fin 2, Fin 3] CKMS_new = Some s \<and>
     ckms_get [exact_demo] (Fin (1/2)) s = Some (v, s') \<and> deq v (Fin 1)"
proof -
  let ?vs = "[Fin 1, Fin 2, Fin 2, Fin 3]"
  have qs: "exact_config [exact_demo]" using exact_demo_ok by (simp add: exact_config_def)
  have s: "fold_opt (ckms_insert [exact_demo]) ?vs CKMS_new = Some (buffered ?vs)"
    using insert_all_buffered [of "[]" ?vs "[exact_demo]"] by (simp add: buffered_Nil buffer_size_def)
  have sorted: "sort_doubles ?vs = ?vs" by (simp add: sort_doubles_def)
  have rep: "exact_rep ?vs (buffered ?vs)"
    using ckms_run_exact [OF qs exact_rep_new _ _ s] by (simp add: ckms_limit_def)
  obtain d v s' r b where get: "double_to_int (dmul (Fin (1/2)) (dint (int (length ?vs)))) = Some d"
    "ckms_get [exact_demo] (Fin (1/2)) (buffered ?vs) = Some (v, s')" "deq v (sort_doubles ?vs ! r)"
    "r = answer_position (ckms_sample s') d" "insertBatch [exact_demo] (buffered ?vs) = Some (b, s')"
    using ckms_get_exact [OF qs rep, of "Fin (1/2)"] by (auto simp: ckms_limit_def)
  have two: "rnd False 2 = Fin 2" using dint_exact [of 2] by (simp add: dint_def)
  have "trunc 2 = 2" by (simp add: trunc_def)
  then have d: "d = 2"
    using get(1) two by (simp add: dint_exact dmul_def Let_def double_to_int_def as_int_def in_int_def int_min_def int_max_def)
  have "fold_opt (insert_item [exact_demo]) ?vs ([], 0) = Some (ckms_sample s', ckms_count s')"
    using insertBatch_fold [OF get(5)] sorted by (simp add: buffered_def CKMS_new_def)
  then have "ckms_sample s' = [Item_new (Fin 1) 1 0, Item_new (Fin 2) 1 1, Item_new (Fin 2) 1 0, Item_new (Fin 3) 1 0]"
    by (auto simp: insert_item_def lower_bound_def lower_bound_from_step new_delta_exact [OF qs] ckms_limit_def insert_at_def
        Item_new_def Let_def)
  then have "r = 0" using get(4) d by (simp add: answer_position_def Item_new_def)
  then show ?thesis using s get(2,3) sorted by auto
qed

text \<open>The rank is cut, not rounded up: the answer for the median of 1, 2 and 3 is 1.\<close>

theorem ckms_zero_error_witness:
  "\<exists>s v s'. fold_opt (ckms_insert [exact_demo]) [Fin 3, Fin 1, Fin 2] CKMS_new = Some s \<and>
     ckms_get [exact_demo] (Fin (1/2)) s = Some (v, s') \<and> deq v (Fin 1)"
proof -
  have sorted: "sort_doubles [Fin 3, Fin 1, Fin 2] = [Fin 1, Fin 2, Fin 3]" by (simp add: sort_doubles_def)
  have "sorted_wrt dlt (sort_doubles [Fin 3, Fin 1, Fin 2])" by (simp add: sorted)
  with exact_demo_ok obtain s d v s' r where r: "fold_opt (ckms_insert [exact_demo]) [Fin 3, Fin 1, Fin 2] CKMS_new = Some s"
    "double_to_int (dmul (Fin (1/2)) (dint (int (length [Fin 3, Fin 1, Fin 2])))) = Some d"
    "ckms_get [exact_demo] (Fin (1/2)) s = Some (v, s')" "deq v (sort_doubles [Fin 3, Fin 1, Fin 2] ! r)" "r = nat d - 1"
    using ckms_zero_error [of "[exact_demo]" "[Fin 3, Fin 1, Fin 2]" "Fin (1/2)"] by (auto simp: ckms_limit_def buffer_size_def)
  have "rnd False (3/2) = Fin (3/2)" using rnd_dyadic [of "3/2" 3 1] by (simp add: power_int_minus)
  moreover have "trunc (3/2) = 1" by (simp add: trunc_def floor_eq_iff)
  ultimately have "d = 1"
    using r(2) by (simp add: dint_exact dmul_def Let_def double_to_int_def as_int_def in_int_def int_min_def int_max_def)
  then show ?thesis using r by (auto simp: sorted)
qed

end
