(* ===== verification/Guarded.thy ===== *)
theory Guarded
  imports Prelude
begin

text \<open>
  Objects whose operations hold the object's mutex: threads make calls, a call runs statement by
  statement, and only the mutex keeps statements of different calls apart. When the statements of
  a call, run alone, do what the operation does, any interleaving of calls is equivalent to
  making them one after the other, in the order in which they left their critical sections, and
  every answer is the one the call gives in that order.
\<close>

subsection \<open>Threads at one object\<close>

text \<open>A call either returns before it takes the mutex (\<open>Inl\<close>), or runs statements under it. A
  statement acts on the object and the local variables of the call.\<close>

type_synonym ('s, 'l) statements = "('s \<times> 'l \<Rightarrow> 's \<times> 'l) list"

datatype ('s, 'l, 'c) phase = Outside | Inside 'c "('s, 'l) statements" 'l

record ('s, 'l, 'c) guarded_system =
  g_object :: 's
  g_locked :: bool
  g_calls :: "nat \<Rightarrow> 'c list"
  g_phase :: "nat \<Rightarrow> ('s, 'l, 'c) phase"
  g_done :: "(nat \<times> 'c \<times> 'l) list"  \<comment> \<open>the calls that are over, with their final local variables\<close>

inductive guarded_step :: "('c \<Rightarrow> 'l + ('s, 'l) statements) \<Rightarrow> 'l \<Rightarrow> ('s, 'l, 'c) guarded_system \<Rightarrow>
    ('s, 'l, 'c) guarded_system \<Rightarrow> bool"
  for code :: "'c \<Rightarrow> 'l + ('s, 'l) statements" and init :: 'l where
  return_early: "g_phase st i = Outside \<Longrightarrow> g_calls st i = c # cs \<Longrightarrow> code c = Inl l \<Longrightarrow>
    guarded_step code init st (st\<lparr>g_calls := (g_calls st)(i := cs), g_done := g_done st @ [(i, c, l)]\<rparr>)"
| lock: "g_phase st i = Outside \<Longrightarrow> g_calls st i = c # cs \<Longrightarrow> code c = Inr ms \<Longrightarrow> \<not> g_locked st \<Longrightarrow>
    guarded_step code init st (st\<lparr>g_locked := True, g_calls := (g_calls st)(i := cs),
      g_phase := (g_phase st)(i := Inside c ms init)\<rparr>)"
| run: "g_phase st i = Inside c (m # ms) l \<Longrightarrow> m (g_object st, l) = (x, l') \<Longrightarrow>
    guarded_step code init st (st\<lparr>g_object := x, g_phase := (g_phase st)(i := Inside c ms l')\<rparr>)"
| unlock: "g_phase st i = Inside c [] l \<Longrightarrow>
    guarded_step code init st (st\<lparr>g_locked := False, g_phase := (g_phase st)(i := Outside),
      g_done := g_done st @ [(i, c, l)]\<rparr>)"

inductive_cases guarded_stepE: "guarded_step code init st st'"

definition guarded_start :: "'s \<Rightarrow> (nat \<Rightarrow> 'c list) \<Rightarrow> ('s, 'l, 'c) guarded_system" where
  "guarded_start x prog = \<lparr>g_object = x, g_locked = False, g_calls = prog, g_phase = (\<lambda>i. Outside), g_done = []\<rparr>"

definition run_statements :: "('s, 'l) statements \<Rightarrow> 's \<times> 'l \<Rightarrow> 's \<times> 'l" where
  "run_statements ms = fold (\<lambda>m. m) ms"

lemma run_statements_simps [simp]:
  "run_statements [] p = p" "run_statements (m # ms) p = run_statements ms (m p)"
  "run_statements (ms @ ns) p = run_statements ns (run_statements ms p)"
  by (simp_all add: run_statements_def)

text \<open>A thread that finds the mutex free can make its call to the end.\<close>

lemma run_section:
  "g_phase st i = Inside c ms l \<Longrightarrow> run_statements ms (g_object st, l) = (x, l') \<Longrightarrow>
   (guarded_step code init)\<^sup>*\<^sup>* st (st\<lparr>g_object := x, g_phase := (g_phase st)(i := Inside c [] l')\<rparr>)"
proof (induction ms arbitrary: st l)
  case Nil
  then have "st\<lparr>g_object := x, g_phase := (g_phase st)(i := Inside c [] l')\<rparr> = st" by (simp add: fun_upd_idem)
  then show ?case by (simp only: rtranclp.rtrancl_refl)
next
  case (Cons m ms)
  obtain y k where m: "m (g_object st, l) = (y, k)" by (cases "m (g_object st, l)")
  let ?st = "st\<lparr>g_object := y, g_phase := (g_phase st)(i := Inside c ms k)\<rparr>"
  have "guarded_step code init st ?st" using Cons.prems(1) m by (rule guarded_step.run)
  moreover have "(guarded_step code init)\<^sup>*\<^sup>* ?st (?st\<lparr>g_object := x, g_phase := (g_phase ?st)(i := Inside c [] l')\<rparr>)"
    using Cons.prems(2) m by (intro Cons.IH) simp_all
  moreover have "?st\<lparr>g_object := x, g_phase := (g_phase ?st)(i := Inside c [] l')\<rparr> =
      st\<lparr>g_object := x, g_phase := (g_phase st)(i := Inside c [] l')\<rparr>" by simp
  ultimately show ?case using converse_rtranclp_into_rtranclp [of "guarded_step code init"] by metis
qed

lemma call_alone:
  assumes "g_phase st i = Outside" and "g_calls st i = c # cs" and "\<not> g_locked st" and "code c = Inr ms"
    and "run_statements ms (g_object st, init) = (x, l)"
  shows "(guarded_step code init)\<^sup>*\<^sup>* st
    (st\<lparr>g_object := x, g_calls := (g_calls st)(i := cs), g_done := g_done st @ [(i, c, l)]\<rparr>)"
proof -
  let ?st1 = "st\<lparr>g_locked := True, g_calls := (g_calls st)(i := cs), g_phase := (g_phase st)(i := Inside c ms init)\<rparr>"
  let ?st2 = "?st1\<lparr>g_object := x, g_phase := (g_phase ?st1)(i := Inside c [] l)\<rparr>"
  let ?st3 = "?st2\<lparr>g_locked := False, g_phase := (g_phase ?st2)(i := Outside), g_done := g_done ?st2 @ [(i, c, l)]\<rparr>"
  have "guarded_step code init st ?st1" using assms(1,2,4,3) by (rule guarded_step.lock)
  moreover have "(guarded_step code init)\<^sup>*\<^sup>* ?st1 ?st2" using assms(5) by (intro run_section) simp_all
  moreover have "guarded_step code init ?st2 ?st3" by (rule guarded_step.unlock) simp
  ultimately have "(guarded_step code init)\<^sup>*\<^sup>* st ?st3" by (meson converse_rtranclp_into_rtranclp rtranclp.rtrancl_into_rtrancl)
  moreover have "?st3 = st\<lparr>g_object := x, g_calls := (g_calls st)(i := cs), g_done := g_done st @ [(i, c, l)]\<rparr>"
    using assms(1,3) by (simp add: fun_upd_idem)
  ultimately show ?thesis by simp
qed

text \<open>Thread 0 makes its call, then thread 1.\<close>

lemma two_calls_in_turn:
  fixes x :: 's and l1 :: 'l and c1 :: 'c
  assumes "prog 0 = [c1]" and "prog (Suc 0) = [c2]" and "code c1 = Inr ms1" and "code c2 = Inr ms2"
    and "run_statements ms1 (x, init) = (y, l1)"
  shows "\<exists>st l2. (guarded_step code init)\<^sup>*\<^sup>* (guarded_start x prog) st \<and> g_done st = [(0, c1, l1), (1, c2, l2)]"
proof -
  obtain z l2 where l2: "run_statements ms2 (y, init) = (z, l2)" by fastforce
  let ?st0 = "guarded_start x prog :: ('s, 'l, 'c) guarded_system"
  let ?st1 = "?st0\<lparr>g_object := y, g_calls := (g_calls ?st0)(0 := []), g_done := g_done ?st0 @ [(0, c1, l1)]\<rparr>"
  let ?st2 = "?st1\<lparr>g_object := z, g_calls := (g_calls ?st1)(1 := []), g_done := g_done ?st1 @ [(1, c2, l2)]\<rparr>"
  have "(guarded_step code init)\<^sup>*\<^sup>* ?st0 ?st1"
    using assms(1,3,5) by (intro call_alone [where ms = ms1]) (simp_all add: guarded_start_def)
  moreover have "(guarded_step code init)\<^sup>*\<^sup>* ?st1 ?st2"
    using assms(2,4) l2 by (intro call_alone [where ms = ms2]) (simp_all add: guarded_start_def)
  ultimately have "(guarded_step code init)\<^sup>*\<^sup>* ?st0 ?st2" by (rule rtranclp_trans)
  moreover have "g_done ?st2 = [(0, c1, l1), (1, c2, l2)]" by (simp add: guarded_start_def)
  ultimately show ?thesis by blast
qed

subsection \<open>Every schedule ends\<close>

text \<open>The steps that the calls of the first \<open>n\<close> threads still take: one for a call that returns before
  it takes the mutex, otherwise locking, the statements and unlocking.\<close>

definition call_steps :: "('c \<Rightarrow> 'l + ('s, 'l) statements) \<Rightarrow> 'c \<Rightarrow> nat" where
  "call_steps code c = (case code c of Inl l \<Rightarrow> 1 | Inr ms \<Rightarrow> length ms + 2)"

fun phase_steps :: "('s, 'l, 'c) phase \<Rightarrow> nat" where
  "phase_steps Outside = 0"
| "phase_steps (Inside c ms l) = length ms + 1"

definition thread_steps :: "('c \<Rightarrow> 'l + ('s, 'l) statements) \<Rightarrow> ('s, 'l, 'c) guarded_system \<Rightarrow> nat \<Rightarrow> nat" where
  "thread_steps code st i = phase_steps (g_phase st i) + sum_list (map (call_steps code) (g_calls st i))"

definition steps_left :: "('c \<Rightarrow> 'l + ('s, 'l) statements) \<Rightarrow> nat \<Rightarrow> ('s, 'l, 'c) guarded_system \<Rightarrow> nat" where
  "steps_left code n st = (\<Sum>i<n. thread_steps code st i)"

definition idle_from :: "nat \<Rightarrow> ('s, 'l, 'c) guarded_system \<Rightarrow> bool" where
  "idle_from n st \<longleftrightarrow> (\<forall>i\<ge>n. g_phase st i = Outside \<and> g_calls st i = [])"

abbreviation all_returned :: "('s, 'l, 'c) guarded_system \<Rightarrow> bool" where
  "all_returned st \<equiv> idle_from 0 st"

text \<open>Whatever the scheduler does, the threads stop after finitely many steps, and only when every
  call has returned.\<close>

definition surely_return :: "('c \<Rightarrow> 'l + ('s, 'l) statements) \<Rightarrow> 'l \<Rightarrow> nat \<Rightarrow> ('s, 'l, 'c) guarded_system \<Rightarrow> bool" where
  "surely_return code init n st \<longleftrightarrow> (\<forall>k st'. (guarded_step code init ^^ k) st st' \<longrightarrow>
     k \<le> steps_left code n st \<and> ((\<nexists>st''. guarded_step code init st' st'') \<longrightarrow> all_returned st'))"

lemma guarded_step_thread:
  assumes "guarded_step code init st st'"
  shows "\<exists>i. thread_steps code st i = Suc (thread_steps code st' i) \<and> (\<forall>j. j \<noteq> i \<longrightarrow> g_phase st' j = g_phase st j \<and> g_calls st' j = g_calls st j)"
  using assms
proof (cases rule: guarded_step.cases)
  case (return_early i c cs l)
  then show ?thesis by (intro exI [of _ i]) (simp add: thread_steps_def call_steps_def)
next
  case (lock i c cs ms)
  then show ?thesis by (intro exI [of _ i]) (simp add: thread_steps_def call_steps_def)
next
  case (run i c m ms l x l')
  then show ?thesis by (intro exI [of _ i]) (simp add: thread_steps_def)
next
  case (unlock i c l)
  then show ?thesis by (intro exI [of _ i]) (simp add: thread_steps_def)
qed

lemma guarded_step_left:
  assumes "guarded_step code init st st'" and "idle_from n st"
  shows "idle_from n st' \<and> steps_left code n st = Suc (steps_left code n st')"
proof -
  obtain i where i: "thread_steps code st i = Suc (thread_steps code st' i)"
    "\<And>j. j \<noteq> i \<Longrightarrow> g_phase st' j = g_phase st j \<and> g_calls st' j = g_calls st j"
    using guarded_step_thread [OF assms(1)] by blast
  have "i < n"
  proof (rule ccontr)
    assume "\<not> i < n"
    then have "thread_steps code st i = 0" using assms(2) by (simp add: idle_from_def thread_steps_def)
    then show False using i(1) by simp
  qed
  moreover from this have "idle_from n st'" using assms(2) i(2) unfolding idle_from_def by (metis not_le)
  moreover have "thread_steps code st' j = thread_steps code st j" if "j \<noteq> i" for j
    using i(2) [OF that] by (simp add: thread_steps_def)
  then have "(\<Sum>j\<in>{..<n} - {i}. thread_steps code st' j) = (\<Sum>j\<in>{..<n} - {i}. thread_steps code st j)"
    by (intro sum.cong) auto
  ultimately show ?thesis
    using i(1) sum.remove [of "{..<n}" i "thread_steps code st"] sum.remove [of "{..<n}" i "thread_steps code st'"]
    by (simp add: steps_left_def)
qed

lemma guarded_run_left:
  "(guarded_step code init ^^ k) st st' \<Longrightarrow> idle_from n st \<Longrightarrow> idle_from n st' \<and> steps_left code n st = k + steps_left code n st'"
proof (induction k arbitrary: st')
  case (Suc k)
  then obtain mid where mid: "(guarded_step code init ^^ k) st mid" "guarded_step code init mid st'" by auto
  from Suc.IH [OF mid(1) Suc.prems(2)] guarded_step_left [OF mid(2), of n] show ?case by auto
qed simp

subsection \<open>One call after the other\<close>

text \<open>\<open>spec\<close> is the operation as a function: its new state and its answer. \<open>replays\<close> says that
  making the calls in this order from \<open>x\<close> gives these answers and ends in \<open>y\<close>.\<close>

fun replays :: "('c \<Rightarrow> 's \<Rightarrow> 's \<times> 'r) \<Rightarrow> 's \<Rightarrow> (nat \<times> 'c \<times> 'r) list \<Rightarrow> 's \<Rightarrow> bool" where
  "replays spec x [] y \<longleftrightarrow> x = y"
| "replays spec x ((i, c, r) # calls) y \<longleftrightarrow> snd (spec c x) = r \<and> replays spec (fst (spec c x)) calls y"

lemma replays_append: "replays spec x (calls @ calls') z \<longleftrightarrow> (\<exists>y. replays spec x calls y \<and> replays spec y calls' z)"
  by (induction spec x calls z rule: replays.induct) auto

lemma replays_snoc: "replays spec x (calls @ [(i, c, r)]) z \<longleftrightarrow>
    (\<exists>y. replays spec x calls y \<and> snd (spec c y) = r \<and> fst (spec c y) = z)"
  by (induction spec x calls z rule: replays.induct) auto

definition answers_of :: "('l \<Rightarrow> 'r) \<Rightarrow> (nat \<times> 'c \<times> 'l) list \<Rightarrow> (nat \<times> 'c \<times> 'r) list" where
  "answers_of answer calls = map (\<lambda>(i, c, l). (i, c, answer l)) calls"

lemma answers_of_simps [simp]: "answers_of answer (calls @ calls') = answers_of answer calls @ answers_of answer calls'"
  "answers_of answer ((i, c, l) # calls) = (i, c, answer l) # answers_of answer calls" "answers_of answer [] = []"
  by (simp_all add: answers_of_def)

definition made_by :: "nat \<Rightarrow> (nat \<times> 'c \<times> 'l) list \<Rightarrow> 'c list" where
  "made_by i calls = map (\<lambda>(j, c, l). c) (filter (\<lambda>(j, c, l). j = i) calls)"

lemma made_by_snoc [simp]: "made_by i (calls @ [(j, c, l)]) = made_by i calls @ (if j = i then [c] else [])"
  "made_by i [] = []"
  by (simp_all add: made_by_def)

lemma made_by_in: "(i, c, l) \<in> set calls \<Longrightarrow> c \<in> set (made_by i calls)"
  by (force simp: made_by_def)

definition calls_of :: "(nat \<times> 'c \<times> 'l) list \<Rightarrow> 'c list" where
  "calls_of calls = map (\<lambda>(i, c, l). c) calls"

lemma calls_of_simps [simp]: "calls_of [] = []" "calls_of ((i, c, l) # calls) = c # calls_of calls"
  "calls_of (calls @ calls') = calls_of calls @ calls_of calls'"
  by (simp_all add: calls_of_def)

lemma set_calls_of: "c \<in> set (calls_of calls) \<Longrightarrow> \<exists>i. c \<in> set (made_by i calls)"
  by (force simp: calls_of_def made_by_def)

text \<open>What the calls of a program own, such as the addresses of the objects they bring, is owned only
  once when each thread makes its calls in its order.\<close>

lemma distinct_history:
  assumes "\<forall>i. distinct (concat (map g (prog i)))"
    and "\<forall>i j. i \<noteq> j \<longrightarrow> set (concat (map g (prog i))) \<inter> set (concat (map g (prog j))) = {}"
  shows "\<forall>i. \<exists>rest. made_by i calls @ rest = prog i \<Longrightarrow> distinct (concat (map g (calls_of calls)))"
proof (induction calls rule: rev_induct)
  case (snoc p calls)
  obtain i c l where p: "p = (i, c, l)" by (cases p)
  have pre: "\<exists>rest. made_by j calls @ rest = prog j" for j
    using snoc.prems [rule_format, of j] p by (cases "j = i") auto
  obtain rest where own: "made_by i calls @ c # rest = prog i"
    using snoc.prems [rule_format, of i] p by auto
  have eq: "concat (map g (prog i)) = concat (map g (made_by i calls)) @ g c @ concat (map g rest)"
    unfolding own [symmetric] by simp
  have "set (g c) \<inter> set (concat (map g (made_by j calls))) = {}" for j
  proof (cases "j = i")
    case True
    then show ?thesis using assms(1) [rule_format, of i] unfolding eq by auto
  next
    case False
    obtain rest' where "made_by j calls @ rest' = prog j" using pre by blast
    then have "concat (map g (prog j)) = concat (map g (made_by j calls)) @ concat (map g rest')"
      by (metis concat_append map_append)
    then show ?thesis using assms(2) [rule_format, OF False] unfolding eq by auto
  qed
  note apart = this
  have "x \<notin> set (g d)" if x: "x \<in> set (g c)" and d: "d \<in> set (calls_of calls)" for x d
  proof -
    obtain j where "d \<in> set (made_by j calls)" using set_calls_of [OF d] ..
    then show ?thesis using apart [of j] x by auto
  qed
  then have "set (g c) \<inter> set (concat (map g (calls_of calls))) = {}" by auto
  moreover have "distinct (g c)" using assms(1) [rule_format, of i] unfolding eq by simp
  moreover have "distinct (concat (map g (calls_of calls)))" using snoc.IH pre by blast
  ultimately show ?case unfolding p by (simp only: calls_of_simps map_append concat_append distinct_append) auto
qed simp

definition owned_once :: "('c \<Rightarrow> bool) \<Rightarrow> ('c \<Rightarrow> 'a list) \<Rightarrow> (nat \<Rightarrow> 'c list) \<Rightarrow> bool" where
  "owned_once proper owned prog \<longleftrightarrow> (\<forall>i. list_all proper (prog i) \<and> distinct (concat (map owned (prog i)))) \<and>
     (\<forall>i j. i \<noteq> j \<longrightarrow> set (concat (map owned (prog i))) \<inter> set (concat (map owned (prog j))) = {})"

lemma owned_once_history:
  assumes "owned_once proper owned prog" and "\<forall>i. \<exists>rest. made_by i calls @ rest = prog i"
  shows "list_all proper (calls_of calls) \<and> distinct (concat (map owned (calls_of calls)))"
proof
  show "distinct (concat (map owned (calls_of calls)))"
    by (rule distinct_history [OF _ _ assms(2)]) (use assms(1) in \<open>simp_all add: owned_once_def\<close>)
  have "proper c" if c: "c \<in> set (calls_of calls)" for c
  proof -
    obtain i where i: "c \<in> set (made_by i calls)" using set_calls_of [OF c] ..
    obtain rest where "made_by i calls @ rest = prog i" using assms(2) by blast
    then have "c \<in> set (prog i)" using i by (metis Un_iff set_append)
    then show ?thesis using assms(1) by (auto simp: owned_once_def list_all_iff)
  qed
  then show "list_all proper (calls_of calls)" by (auto simp: list_all_iff)
qed

fun in_section :: "('s, 'l, 'c) phase \<Rightarrow> 'c list" where
  "in_section Outside = []"
| "in_section (Inside c ms l) = [c]"

text \<open>The contract of an operation and its statements; \<open>inv\<close> holds of the object between calls.\<close>

locale guarded_object =
  fixes code :: "'c \<Rightarrow> 'l + ('s, 'l) statements" and init :: 'l
    and spec :: "'c \<Rightarrow> 's \<Rightarrow> 's \<times> 'r" and answer :: "'l \<Rightarrow> 'r" and inv :: "'s \<Rightarrow> bool"
  assumes early_spec: "inv x \<Longrightarrow> code c = Inl l \<Longrightarrow> spec c x = (x, answer l)"
    and run_spec: "inv x \<Longrightarrow> code c = Inr ms \<Longrightarrow>
      spec c x = apsnd answer (run_statements ms (x, init)) \<and> inv (fst (spec c x))"
begin

text \<open>At most one thread is inside, exactly when the mutex is locked; the calls that are over can be
  replayed; the statements left of the call inside, run on the object as it is, end as that call
  does after them.\<close>

definition guarded_inv :: "'s \<Rightarrow> (nat \<Rightarrow> 'c list) \<Rightarrow> ('s, 'l, 'c) guarded_system \<Rightarrow> bool" where
  "guarded_inv x0 prog st \<longleftrightarrow>
     (\<forall>i. made_by i (g_done st) @ in_section (g_phase st i) @ g_calls st i = prog i) \<and>
     (\<exists>y. inv y \<and> replays spec x0 (answers_of answer (g_done st)) y \<and>
        (if g_locked st
         then \<exists>i c ms ms' l. g_phase st i = Inside c ms l \<and> (\<forall>j. j \<noteq> i \<longrightarrow> g_phase st j = Outside) \<and>
           code c = Inr ms' \<and> run_statements ms (g_object st, l) = run_statements ms' (y, init)
         else g_object st = y \<and> (\<forall>i. g_phase st i = Outside)))"

lemma guarded_inv_start: "inv x0 \<Longrightarrow> guarded_inv x0 prog (guarded_start x0 prog)"
  by (simp add: guarded_inv_def guarded_start_def)

lemma guarded_inv_insideI:
  assumes "\<And>j. made_by j (g_done st) @ in_section (g_phase st j) @ g_calls st j = prog j"
    and "inv y" and "replays spec x0 (answers_of answer (g_done st)) y" and "g_locked st"
    and "g_phase st i = Inside c ms l" and "\<And>j. j \<noteq> i \<Longrightarrow> g_phase st j = Outside" and "code c = Inr ms'"
    and "run_statements ms (g_object st, l) = run_statements ms' (y, init)"
  shows "guarded_inv x0 prog st"
proof -
  have "\<exists>i c ms ms' l. g_phase st i = Inside c ms l \<and> (\<forall>j. j \<noteq> i \<longrightarrow> g_phase st j = Outside) \<and>
      code c = Inr ms' \<and> run_statements ms (g_object st, l) = run_statements ms' (y, init)"
    using assms(5-8) by metis
  then show ?thesis unfolding guarded_inv_def using assms(1-4) by (simp only: if_True) blast
qed

lemma guarded_invE:
  assumes "guarded_inv x0 prog st" and "g_phase st i = Inside c ms l"
  obtains y ms' where "inv y" and "replays spec x0 (answers_of answer (g_done st)) y" and "g_locked st"
    and "\<And>j. j \<noteq> i \<Longrightarrow> g_phase st j = Outside" and "code c = Inr ms'"
    and "run_statements ms (g_object st, l) = run_statements ms' (y, init)"
proof -
  obtain y where y: "inv y" "replays spec x0 (answers_of answer (g_done st)) y"
    "if g_locked st
         then \<exists>i c ms ms' l. g_phase st i = Inside c ms l \<and> (\<forall>j. j \<noteq> i \<longrightarrow> g_phase st j = Outside) \<and>
           code c = Inr ms' \<and> run_statements ms (g_object st, l) = run_statements ms' (y, init)
         else g_object st = y \<and> (\<forall>i. g_phase st i = Outside)"
    using assms(1) unfolding guarded_inv_def by blast
  then have locked: "g_locked st" using assms(2) by (auto split: if_splits)
  then obtain i' c' ms1 ms' l' where i': "g_phase st i' = Inside c' ms1 l'" "\<forall>j. j \<noteq> i' \<longrightarrow> g_phase st j = Outside"
    "code c' = Inr ms'" "run_statements ms1 (g_object st, l') = run_statements ms' (y, init)"
    using y(3) by auto
  then have "i' = i" using assms(2) by (metis phase.distinct(1))
  then show thesis using that [OF y(1,2) locked _ _ _] i' assms(2) by auto
qed

lemma guarded_inv_step:
  assumes "guarded_step code init st st'" and inv: "guarded_inv x0 prog st"
  shows "guarded_inv x0 prog st'"
  using assms(1)
proof (cases rule: guarded_step.cases)
  case (return_early i c cs l)
  obtain y where y: "inv y" "replays spec x0 (answers_of answer (g_done st)) y"
    using inv unfolding guarded_inv_def by blast
  have order: "made_by j (g_done st) @ in_section (g_phase st j) @ g_calls st j = prog j" for j
    using inv by (simp add: guarded_inv_def)
  have order': "made_by j (g_done st') @ in_section (g_phase st' j) @ g_calls st' j = prog j" for j
    using order [of j] return_early by auto
  have ext: "replays spec x0 (answers_of answer (g_done st) @ [(i, c, answer l)]) z"
    if "inv z" "replays spec x0 (answers_of answer (g_done st)) z" for z
    using that early_spec [OF that(1) return_early(4)] by (auto simp: replays_snoc)
  show ?thesis
    using inv order' ext return_early(1) unfolding guarded_inv_def by auto
next
  case (lock i c cs ms)
  obtain y where y: "inv y" "replays spec x0 (answers_of answer (g_done st)) y" "g_object st = y" "\<forall>i. g_phase st i = Outside"
    using inv lock(5) unfolding guarded_inv_def by auto
  have order: "made_by j (g_done st) @ in_section (g_phase st j) @ g_calls st j = prog j" for j
    using inv by (simp add: guarded_inv_def)
  have "made_by j (g_done st') @ in_section (g_phase st' j) @ g_calls st' j = prog j" for j
    using order [of j] lock by auto
  then show ?thesis
    using y lock by (intro guarded_inv_insideI [where i = i and c = c and ms = ms and l = init and ms' = ms]) auto
next
  case (run i c m ms l x l')
  obtain y ms' where y: "inv y" "replays spec x0 (answers_of answer (g_done st)) y" "g_locked st"
    "\<And>j. j \<noteq> i \<Longrightarrow> g_phase st j = Outside" "code c = Inr ms'"
    "run_statements (m # ms) (g_object st, l) = run_statements ms' (y, init)"
    using guarded_invE [OF inv run(2)] by metis
  have order: "made_by j (g_done st) @ in_section (g_phase st j) @ g_calls st j = prog j" for j
    using inv by (simp add: guarded_inv_def)
  have "made_by j (g_done st') @ in_section (g_phase st' j) @ g_calls st' j = prog j" for j
    using order [of j] run by auto
  then show ?thesis
    using y run by (intro guarded_inv_insideI [where i = i and c = c and ms = ms and l = l' and ms' = ms']) auto
next
  case (unlock i c l)
  obtain y ms' where y: "inv y" "replays spec x0 (answers_of answer (g_done st)) y" "g_locked st"
    "\<And>j. j \<noteq> i \<Longrightarrow> g_phase st j = Outside" "code c = Inr ms'"
    "run_statements [] (g_object st, l) = run_statements ms' (y, init)"
    using guarded_invE [OF inv unlock(2)] by metis
  have spec: "spec c y = (g_object st, answer l)" "inv (g_object st)"
    using run_spec [OF y(1,5)] by (auto simp flip: y(6))
  have order: "made_by j (g_done st) @ in_section (g_phase st j) @ g_calls st j = prog j" for j
    using inv by (simp add: guarded_inv_def)
  have "made_by j (g_done st') @ in_section (g_phase st' j) @ g_calls st' j = prog j" for j
    using order [of j] unlock by auto
  moreover have "replays spec x0 (answers_of answer (g_done st')) (g_object st')"
    using y(2) spec(1) unlock(1) by (auto simp: replays_snoc)
  moreover have "\<not> g_locked st'" "\<forall>j. g_phase st' j = Outside" "g_object st' = g_object st" using unlock(1) y(4) by auto
  ultimately show ?thesis unfolding guarded_inv_def using spec(2) by auto
qed

lemma guarded_reached: "(guarded_step code init)\<^sup>*\<^sup>* (guarded_start x0 prog) st \<Longrightarrow> inv x0 \<Longrightarrow> guarded_inv x0 prog st"
  by (induction rule: rtranclp_induct) (auto intro: guarded_inv_start guarded_inv_step)

lemma linearizable:
  assumes "(guarded_step code init)\<^sup>*\<^sup>* (guarded_start x0 prog) st" and "inv x0"
  shows "(\<forall>i. made_by i (g_done st) @ in_section (g_phase st i) @ g_calls st i = prog i) \<and>
    (\<exists>y. replays spec x0 (answers_of answer (g_done st)) y \<and> (\<not> g_locked st \<longrightarrow> g_object st = y)) \<and>
    (\<forall>i j. g_phase st i \<noteq> Outside \<and> g_phase st j \<noteq> Outside \<longrightarrow> i = j)"
proof -
  have inv: "guarded_inv x0 prog st" using guarded_reached [OF assms] .
  have "i = j" if "g_phase st i \<noteq> Outside" "g_phase st j \<noteq> Outside" for i j
    using that inv unfolding guarded_inv_def by (cases "g_locked st") (auto, metis)
  then show ?thesis using inv unfolding guarded_inv_def by auto
qed

text \<open>Some thread can go on as long as a call has not returned: the one inside, or any when the
  mutex is free.\<close>

lemma guarded_progress:
  assumes "guarded_inv x0 prog st" and "\<nexists>st'. guarded_step code init st st'"
  shows "all_returned st"
proof -
  have stuck: "\<not> guarded_step code init st st'" for st' using assms(2) by blast
  have outside: "g_phase st i = Outside" for i
  proof (cases "g_phase st i")
    case (Inside c ms l)
    then show ?thesis
    proof (cases ms)
      case Nil
      with Inside show ?thesis using guarded_step.unlock [of st i c l code init] stuck by simp
    next
      case (Cons m ms')
      obtain x l' where "m (g_object st, l) = (x, l')" by fastforce
      with Inside Cons show ?thesis using guarded_step.run [of st i c m ms' l x l' code init] stuck by simp
    qed
  qed
  then have free: "\<not> g_locked st" using assms(1) unfolding guarded_inv_def by auto
  have "g_calls st i = []" for i
  proof (cases "g_calls st i")
    case (Cons c cs)
    show ?thesis
    proof (cases "code c")
      case (Inl l)
      then show ?thesis using guarded_step.return_early [of st i c cs code l init] outside [of i] Cons stuck by simp
    next
      case (Inr ms)
      then show ?thesis using guarded_step.lock [of st i c cs code ms init] outside [of i] Cons free stuck by simp
    qed
  qed
  then show ?thesis using outside by (simp add: idle_from_def)
qed

lemma returns:
  assumes "(guarded_step code init)\<^sup>*\<^sup>* (guarded_start x0 prog) st" and "inv x0" and "\<forall>i\<ge>n. prog i = []"
  shows "surely_return code init n st"
proof -
  have start: "idle_from n (guarded_start x0 prog :: ('s, 'l, 'c) guarded_system)" using assms(3) by (simp add: idle_from_def guarded_start_def)
  obtain m where "(guarded_step code init ^^ m) (guarded_start x0 prog) st"
    using assms(1) by (auto simp: rtranclp_power)
  then have idle: "idle_from n st" using guarded_run_left [OF _ start] by blast
  show ?thesis
    unfolding surely_return_def
  proof (intro allI impI conjI)
    fix k st' assume run: "(guarded_step code init ^^ k) st st'"
    show "k \<le> steps_left code n st" using guarded_run_left [OF run idle] by simp
    assume stuck: "\<nexists>st''. guarded_step code init st' st''"
    have "(guarded_step code init)\<^sup>*\<^sup>* (guarded_start x0 prog) st'"
      using assms(1) run by (meson relpowp_imp_rtranclp rtranclp_trans)
    then show "all_returned st'" using guarded_progress [OF guarded_reached [OF _ assms(2)] stuck] by blast
  qed
qed

end

end
