(* ===== verification/CheckNames.thy ===== *)
theory CheckNames
  imports ClientMetric
begin

text \<open>
  The checks of metric and label names, \<open>core/src/check_names.cc\<close>. Characters are compared
  as unsigned bytes; a negative \<open>char\<close> of the code fails every range test, as a byte above
  127 does here.
\<close>

subsection \<open>The code\<close>

definition isLocaleIndependentAlphaNumeric :: "char \<Rightarrow> bool" where
  "isLocaleIndependentAlphaNumeric c \<longleftrightarrow>
     (CHR ''0'' \<le> c \<and> c \<le> CHR ''9'') \<or> (CHR ''a'' \<le> c \<and> c \<le> CHR ''z'') \<or>
     (CHR ''A'' \<le> c \<and> c \<le> CHR ''Z'')"

definition isLocaleIndependentDigit :: "char \<Rightarrow> bool" where
  "isLocaleIndependentDigit c \<longleftrightarrow> CHR ''0'' \<le> c \<and> c \<le> CHR ''9''"

definition nameStartsValid :: "string \<Rightarrow> bool" where
  "nameStartsValid name =
     (if name = [] then False
      else if isLocaleIndependentDigit (hd name) then False
      else if take 2 name = ''__'' then False
      else True)"

definition validMetricCharacter :: "char \<Rightarrow> bool" where
  "validMetricCharacter c \<longleftrightarrow> isLocaleIndependentAlphaNumeric c \<or> c = CHR ''_'' \<or> c = CHR '':''"

definition validLabelCharacter :: "char \<Rightarrow> bool" where
  "validLabelCharacter c \<longleftrightarrow> isLocaleIndependentAlphaNumeric c \<or> c = CHR ''_''"

definition CheckMetricName :: "string \<Rightarrow> bool" where
  "CheckMetricName name =
     (if \<not> nameStartsValid name then False
      else find (\<lambda>c. \<not> validMetricCharacter c) name = None)"

definition CheckLabelName :: "string \<Rightarrow> MetricType \<Rightarrow> bool" where
  "CheckLabelName name mtype =
     (if \<not> nameStartsValid name then False
      else if (mtype = Histogram \<and> name = ''le'') \<or> (mtype = Summary \<and> name = ''quantile'') then False
      else find (\<lambda>c. \<not> validLabelCharacter c) name = None)"

subsection \<open>The regular expressions of the comments\<close>

text \<open>\<open>[a-zA-Z_:][a-zA-Z0-9_:]*\<close> and \<open>[a-zA-Z_][a-zA-Z0-9_]*\<close>.\<close>

definition letter :: "char \<Rightarrow> bool" where
  "letter c \<longleftrightarrow> (CHR ''a'' \<le> c \<and> c \<le> CHR ''z'') \<or> (CHR ''A'' \<le> c \<and> c \<le> CHR ''Z'')"

definition digit :: "char \<Rightarrow> bool" where
  "digit c \<longleftrightarrow> CHR ''0'' \<le> c \<and> c \<le> CHR ''9''"

fun metric_name_regex :: "string \<Rightarrow> bool" where
  "metric_name_regex [] = False"
| "metric_name_regex (c # cs) =
     ((letter c \<or> c \<in> set ''_:'') \<and> list_all (\<lambda>d. letter d \<or> digit d \<or> d \<in> set ''_:'') cs)"

fun label_name_regex :: "string \<Rightarrow> bool" where
  "label_name_regex [] = False"
| "label_name_regex (c # cs) =
     ((letter c \<or> c = CHR ''_'') \<and> list_all (\<lambda>d. letter d \<or> digit d \<or> d = CHR ''_'') cs)"

lemma alnum_iff: "isLocaleIndependentAlphaNumeric c \<longleftrightarrow> letter c \<or> digit c"
  by (auto simp: isLocaleIndependentAlphaNumeric_def letter_def digit_def)

lemma not_digit_special [simp]: "\<not> digit (CHR ''_'')" "\<not> digit (CHR '':'')"
  by (simp_all add: digit_def)

lemma letter_not_digit: "letter c \<Longrightarrow> \<not> digit c"
proof
  assume "letter c" "digit c"
  then have "CHR ''a'' \<le> CHR ''9'' \<or> CHR ''A'' \<le> CHR ''9''"
    unfolding letter_def digit_def by (meson order_trans)
  then show False by simp
qed

lemma isDigit_iff: "isLocaleIndependentDigit c \<longleftrightarrow> digit c"
  by (simp add: isLocaleIndependentDigit_def digit_def)

lemma CheckMetricName_regex:
  "CheckMetricName name \<longleftrightarrow> metric_name_regex name \<and> take 2 name \<noteq> ''__''"
  by (cases name)
    (auto simp: CheckMetricName_def nameStartsValid_def find_None_iff validMetricCharacter_def
      alnum_iff isDigit_iff list_all_iff dest: letter_not_digit)

lemma CheckLabelName_regex:
  "CheckLabelName name t \<longleftrightarrow> label_name_regex name \<and> take 2 name \<noteq> ''__'' \<and>
     \<not> (t = Histogram \<and> name = ''le'') \<and> \<not> (t = Summary \<and> name = ''quantile'')"
  by (cases name)
    (auto simp: CheckLabelName_def nameStartsValid_def find_None_iff validLabelCharacter_def
      alnum_iff isDigit_iff list_all_iff dest: letter_not_digit)

lemma CheckLabelName_Nil [simp]: "\<not> CheckLabelName [] t"
  by (simp add: CheckLabelName_regex)

text \<open>The characters a valid name cannot hold: those that structure a line or a path.\<close>

lemma label_name_chars:
  assumes "CheckLabelName name t" and "c \<in> set name"
  shows "letter c \<or> digit c \<or> c = CHR ''_''"
  using assms by (cases name) (auto simp: CheckLabelName_regex list_all_iff)

lemma metric_name_chars:
  assumes "CheckMetricName name" and "c \<in> set name"
  shows "letter c \<or> digit c \<or> c = CHR ''_'' \<or> c = CHR '':''"
  using assms by (cases name) (auto simp: CheckMetricName_regex list_all_iff)

lemma special_not_name_char:
  "c \<in> set ''@/={},  \"'' \<or> c = CHR 0x0A \<or> c = CHR 0x5C \<Longrightarrow> \<not> letter c \<and> \<not> digit c \<and> c \<noteq> CHR ''_'' \<and> c \<noteq> CHR '':''"
  by (auto simp: letter_def digit_def)

subsection \<open>Properties\<close>

text \<open>C30: \<open>CheckMetricName\<close> and \<open>CheckLabelName\<close> accept exactly the strings of the regular
  expressions in their comments that do not begin with two underscores, the latter without the
  label the metric type reserves.\<close>

theorem name_languages:
  "(CheckMetricName name \<longleftrightarrow> metric_name_regex name \<and> take 2 name \<noteq> ''__'') \<and>
   (CheckLabelName name t \<longleftrightarrow> label_name_regex name \<and> take 2 name \<noteq> ''__'' \<and>
     \<not> (t = Histogram \<and> name = ''le'') \<and> \<not> (t = Summary \<and> name = ''quantile''))"
  by (intro conjI CheckMetricName_regex CheckLabelName_regex)

text \<open>The comment's regular expression alone admits the two underscores.\<close>

lemma regex_admits_reserved: "metric_name_regex ''__a'' \<and> \<not> CheckMetricName ''__a''"
  by (simp add: CheckMetricName_regex letter_def)

end
