(* ===== verification/Histogram.thy ===== *)
theory Histogram
  imports Scalars
begin

text \<open>
  \<open>core/src/histogram.cc\<close> and \<open>histogram.h\<close>: one counter per bucket and a gauge for the
  sum. The mutex makes each call atomic, so calls are functions on the state. In \<open>Collect\<close>
  the running count is a 64-bit unsigned integer to which a \<open>double\<close> is added: the sum is
  taken in \<open>double\<close> and converted back, which is undefined behaviour when it does not fit.
\<close>

subsection \<open>The code\<close>

record histogram =
  bucket_boundaries :: "double list"
  bucket_counts :: "counter list"
  hist_sum :: gauge

text \<open>\<open>std::adjacent_find\<close> with \<open>std::greater_equal\<close> finds no pair.\<close>

fun is_strict_sorted :: "double list \<Rightarrow> bool" where
  "is_strict_sorted (x # y # zs) \<longleftrightarrow> \<not> dle y x \<and> is_strict_sorted (y # zs)"
| "is_strict_sorted _ \<longleftrightarrow> True"

definition Histogram_new :: "double list \<Rightarrow> cpp_exception + histogram" where
  "Histogram_new buckets =
     (let h = \<lparr>bucket_boundaries = buckets,
               bucket_counts = replicate (length buckets + 1) Counter_default,
               hist_sum = Gauge_default\<rparr>
      in if \<not> is_strict_sorted (bucket_boundaries h)
         then Inl (invalid_argument ''Bucket Boundaries must be strictly sorted'')
         else Inr h)"

definition bucket_index :: "double list \<Rightarrow> double \<Rightarrow> nat" where
  "bucket_index bounds value = lower_bound (\<lambda>b. dlt b value) bounds"

definition Histogram_Observe :: "double \<Rightarrow> histogram \<Rightarrow> histogram" where
  "Histogram_Observe value h =
     (let i = bucket_index (bucket_boundaries h) value;
          h = h\<lparr>hist_sum := Gauge_Increment_by value (hist_sum h)\<rparr>
      in h\<lparr>bucket_counts := (bucket_counts h)[i := Counter_Increment (bucket_counts h ! i)]\<rparr>)"

definition Histogram_ObserveMultiple ::
    "double list \<Rightarrow> double \<Rightarrow> histogram \<Rightarrow> cpp_exception + histogram" where
  "Histogram_ObserveMultiple bucket_increments sum_of_values h =
     (if length bucket_increments \<noteq> length (bucket_counts h)
      then Inl (length_error
        ''The size of bucket_increments was not equal tothe number of buckets in the histogram.'')
      else
        (let h = h\<lparr>hist_sum := Gauge_Increment_by sum_of_values (hist_sum h)\<rparr>
         in Inr (h\<lparr>bucket_counts := map2 Counter_Increment_by bucket_increments (bucket_counts h)\<rparr>)))"

definition Histogram_Reset :: "histogram \<Rightarrow> histogram" where
  "Histogram_Reset h = h\<lparr>bucket_counts := map Counter_Reset (bucket_counts h),
                         hist_sum := Gauge_Set (Fin 0) (hist_sum h)\<rparr>"

text \<open>The loop of \<open>Collect\<close> from index \<open>i\<close> on: its buckets and the final count.\<close>

fun collect_buckets ::
    "double list \<Rightarrow> nat \<Rightarrow> u64 \<Rightarrow> counter list \<Rightarrow> (client_bucket list \<times> u64) option" where
  "collect_buckets bounds i cumulative [] = Some ([], cumulative)"
| "collect_buckets bounds i cumulative (c # cs) =
     (case double_to_u64 (dadd (dint (uint cumulative)) (Counter_Value c)) of
        None \<Rightarrow> None
      | Some cumulative' \<Rightarrow>
         (case collect_buckets bounds (i + 1) cumulative' cs of
            None \<Rightarrow> None
          | Some (bs, final) \<Rightarrow>
             Some (\<lparr>cumulative_count = cumulative',
                    upper_bound = (if i = length bounds then PInf else bounds ! i)\<rparr> # bs, final)))"

definition Histogram_Collect :: "histogram \<Rightarrow> client_metric option" where
  "Histogram_Collect h =
     map_option (\<lambda>(buckets, final).
       empty_client_metric\<lparr>metric_histogram :=
         \<lparr>histogram_sample_count = final, histogram_sample_sum = Gauge_Value (hist_sum h),
          histogram_bucket = buckets\<rparr>\<rparr>)
     (collect_buckets (bucket_boundaries h) 0 0 (bucket_counts h))"

subsection \<open>Boundaries\<close>

text \<open>The constructor's check implies a strictly increasing list unless a boundary is NaN.\<close>

definition proper_bounds :: "double list \<Rightarrow> bool" where
  "proper_bounds bs \<longleftrightarrow> is_strict_sorted bs \<and> NaN \<notin> set bs"

lemma is_strict_sorted_wrt: "proper_bounds bs \<Longrightarrow> sorted_wrt dlt bs"
proof (induction bs rule: is_strict_sorted.induct)
  case (1 x y zs)
  then have "dlt x y" "sorted_wrt dlt (y # zs)"
    by (auto simp: proper_bounds_def not_dle)
  then show ?case using dlt_trans by auto
qed auto

lemma partitioned_bounds: "proper_bounds bs \<Longrightarrow> partitioned_by (\<lambda>b. dlt b v) bs"
  unfolding partitioned_by_def
  by (auto dest!: is_strict_sorted_wrt sorted_wrt_nth_less intro: dlt_trans)

lemma bucket_index_le: "bucket_index bs v \<le> length bs"
  by (simp add: bucket_index_def lower_bound_le)

lemma bucket_index_le_iff:
  assumes "proper_bounds bs" and "j < length bs"
  shows "bucket_index bs v \<le> j \<longleftrightarrow> \<not> dlt (bs ! j) v"
  using lower_bound_before [OF partitioned_bounds [OF assms(1)], of j v]
    lower_bound_after [OF partitioned_bounds [OF assms(1)], of v j] assms(2)
  unfolding bucket_index_def by (meson not_le)

text \<open>Bucket \<open>i\<close> is the half-open interval from the boundary before it, excluded, to its own
  boundary, included.\<close>

lemma bucket_index_interval:
  assumes "proper_bounds bs" and "v \<noteq> NaN" and "i \<le> length bs"
  shows "bucket_index bs v = i \<longleftrightarrow>
    (0 < i \<longrightarrow> dlt (bs ! (i - 1)) v) \<and> (i < length bs \<longrightarrow> dle v (bs ! i))"
proof -
  have nn: "j < length bs \<Longrightarrow> bs ! j \<noteq> NaN" for j
    using assms(1) nth_mem [of j bs] unfolding proper_bounds_def by metis
  have le: "bucket_index bs v \<le> i \<longleftrightarrow> (i < length bs \<longrightarrow> dle v (bs ! i))"
    using bucket_index_le_iff [OF assms(1), of i v] bucket_index_le [of bs v] assms(2,3) nn [of i]
    by (cases "i < length bs") (auto simp: not_dlt)
  have ge: "i \<le> bucket_index bs v \<longleftrightarrow> (0 < i \<longrightarrow> dlt (bs ! (i - 1)) v)"
    using bucket_index_le_iff [OF assms(1), of "i - 1" v] assms(3)
    by (cases i) (auto simp: not_le Suc_le_eq)
  show ?thesis using le ge by (auto simp: order_eq_iff)
qed

subsection \<open>The observations a histogram stands for\<close>

text \<open>
  The state after the observations \<open>vs\<close>: every counter holds the number of observations
  that fell into its bucket, and the sum is the running sum in the order of observation.
\<close>

definition hist_rel :: "double list \<Rightarrow> double list \<Rightarrow> histogram \<Rightarrow> bool" where
  "hist_rel bs vs h \<longleftrightarrow>
     bucket_boundaries h = bs \<and> length (bucket_counts h) = length bs + 1 \<and>
     (\<forall>i \<le> length bs. Counter_Value (bucket_counts h ! i) =
        dint (int (length (filter (\<lambda>v. bucket_index bs v = i) vs)))) \<and>
     Gauge_Value (hist_sum h) = foldl dadd (Fin 0) vs"

lemma hist_rel_new: "Histogram_new bs = Inr h \<Longrightarrow> hist_rel bs [] h"
  by (auto simp: Histogram_new_def hist_rel_def Let_def Gauge_default_def Gauge_Value_def
      nth_append nth_Cons' simp del: replicate.simps split: if_splits)

lemma hist_rel_Observe:
  assumes "hist_rel bs vs h" and "length vs < 2 ^ 53"
  shows "hist_rel bs (vs @ [v]) (Histogram_Observe v h)"
proof -
  let ?i = "bucket_index bs v"
  have i: "?i < length (bucket_counts h)"
    using assms(1) bucket_index_le [of bs v] by (simp add: hist_rel_def)
  have "length (filter (\<lambda>v. bucket_index bs v = ?i) vs) < 2 ^ 53"
    using length_filter_le [of "\<lambda>v. bucket_index bs v = ?i" vs] assms(2) by linarith
  then have inc: "Counter_Value (Counter_Increment (bucket_counts h ! ?i)) =
      dint (int (length (filter (\<lambda>v. bucket_index bs v = ?i) vs)) + 1)"
    using Counter_Increment_exact [of "bucket_counts h ! ?i"] assms(1) bucket_index_le [of bs v]
    by (simp add: hist_rel_def add.commute)
  show ?thesis
    using assms(1) i inc
    by (auto simp: hist_rel_def Histogram_Observe_def Let_def nth_list_update gauge_defs
        simp del: Counter_Value_Increment)
qed

lemma hist_rel_fold:
  "hist_rel bs us h \<Longrightarrow> length us + length vs \<le> 2 ^ 53 \<Longrightarrow>
   hist_rel bs (us @ vs) (fold Histogram_Observe vs h)"
proof (induction vs arbitrary: us h)
  case (Cons v vs)
  then have "hist_rel bs (us @ [v]) (Histogram_Observe v h)"
    by (intro hist_rel_Observe) auto
  then show ?case using Cons.IH [of "us @ [v]"] Cons.prems(2) by simp
qed simp

subsection \<open>Collecting the counts\<close>

definition below :: "double list \<Rightarrow> double list \<Rightarrow> nat \<Rightarrow> nat" where
  "below bs vs i = length (filter (\<lambda>v. bucket_index bs v < i) vs)"

lemma below_Suc: "below bs vs (Suc i) = below bs vs i + length (filter (\<lambda>v. bucket_index bs v = i) vs)"
  unfolding below_def by (induction vs) (auto simp: less_Suc_eq)

lemma below_le: "below bs vs i \<le> length vs"
  by (simp add: below_def)

lemma below_0 [simp]: "below bs vs 0 = 0"
  by (simp add: below_def)

lemma below_all: "below bs vs (Suc (length bs)) = length vs"
  using bucket_index_le [of bs] by (simp add: below_def less_Suc_eq_le)

lemma collect_buckets_counts:
  assumes "length vs \<le> 2 ^ 53"
    and "\<And>j. j < length cs \<Longrightarrow>
      Counter_Value (cs ! j) = dint (int (length (filter (\<lambda>v. bucket_index bs v = i + j) vs)))"
  shows "collect_buckets bs i (of_nat (below bs vs i)) cs =
    Some (map (\<lambda>j. \<lparr>cumulative_count = of_nat (below bs vs (Suc j)),
                    upper_bound = (if j = length bs then PInf else bs ! j)\<rparr>) [i..<i + length cs],
      of_nat (below bs vs (i + length cs)))"
  using assms(2)
proof (induction cs arbitrary: i)
  case (Cons c cs)
  let ?b = "below bs vs i" and ?n = "length (filter (\<lambda>v. bucket_index bs v = i) vs)"
  have le: "?b + ?n \<le> 2 ^ 53" using below_le [of bs vs "Suc i"] assms(1) by (simp add: below_Suc)
  have "dadd (dint (int ?b)) (dint (int ?n)) = dint (int (?b + ?n))"
    using le by (subst dadd_dint) auto
  then have "double_to_u64 (dadd (dint (uint (of_nat ?b :: u64))) (Counter_Value c)) =
      Some (word_of_int (int (?b + ?n)))"
    using Cons.prems [of 0] le by (simp add: uint_of_nat_small double_to_u64_dint)
  then have u: "double_to_u64 (dadd (dint (uint (of_nat ?b :: u64))) (Counter_Value c)) =
      Some (of_nat (below bs vs (Suc i)))"
    by (simp add: below_Suc)
  have "collect_buckets bs (i + 1) (of_nat (below bs vs (i + 1))) cs =
    Some (map (\<lambda>j. \<lparr>cumulative_count = of_nat (below bs vs (Suc j)),
                    upper_bound = (if j = length bs then PInf else bs ! j)\<rparr>) [i + 1..<i + 1 + length cs],
      of_nat (below bs vs (i + 1 + length cs)))"
    using Cons.prems [of "Suc j" for j] by (intro Cons.IH) simp
  then show ?case using u by (simp add: upt_conv_Cons del: upt_Suc)
qed simp

lemma Histogram_Collect_counts:
  assumes "hist_rel bs vs h" and "length vs \<le> 2 ^ 53"
  shows "Histogram_Collect h = Some (empty_client_metric\<lparr>metric_histogram :=
    \<lparr>histogram_sample_count = of_nat (length vs),
     histogram_sample_sum = foldl dadd (Fin 0) vs,
     histogram_bucket = map (\<lambda>j. \<lparr>cumulative_count = of_nat (below bs vs (Suc j)),
        upper_bound = (if j = length bs then PInf else bs ! j)\<rparr>) [0..<Suc (length bs)]\<rparr>\<rparr>)"
proof -
  have "collect_buckets bs 0 (of_nat (below bs vs 0)) (bucket_counts h) =
    Some (map (\<lambda>j. \<lparr>cumulative_count = of_nat (below bs vs (Suc j)),
                    upper_bound = (if j = length bs then PInf else bs ! j)\<rparr>)
            [0..<0 + length (bucket_counts h)], of_nat (below bs vs (0 + length (bucket_counts h))))"
    using assms by (intro collect_buckets_counts) (auto simp: hist_rel_def)
  then show ?thesis using assms(1) by (simp add: Histogram_Collect_def hist_rel_def below_all)
qed

lemma below_Suc_bound:
  assumes "proper_bounds bs" and "j < length bs"
  shows "below bs vs (Suc j) = length (filter (\<lambda>v. \<not> dlt (bs ! j) v) vs)"
  using bucket_index_le_iff [OF assms] by (simp add: below_def less_Suc_eq_le)

subsection \<open>Cumulative counts with arbitrary increments\<close>

text \<open>The running count stays a value a \<open>double\<close> can hold, so adding to it never lowers it.\<close>

definition count_ok :: "u64 \<Rightarrow> bool" where
  "count_ok w \<longleftrightarrow> representable (of_int (uint w))"

lemma count_ok_0 [simp]: "count_ok 0"
  by (simp add: count_ok_def)

lemma count_step:
  assumes "count_ok w" and "counter_ok c"
    and "double_to_u64 (dadd (dint (uint w)) (Counter_Value c)) = Some w'"
  shows "w \<le> w' \<and> count_ok w'"
proof -
  let ?x = "dadd (dint (uint w)) (Counter_Value c)"
  have w: "dint (uint w) = Fin (of_int (uint w))"
    using assms(1) by (simp add: count_ok_def dint_def rnd_False_representable)
  have fin: "dfinite ?x" and w': "w' = word_of_int (trunc (dval ?x))"
    and range: "0 \<le> trunc (dval ?x)" "trunc (dval ?x) < 2 ^ 64"
    using assms(3) by (auto simp: double_to_u64_def split: if_splits)
  have u': "uint w' = trunc (dval ?x)"
    using range by (simp add: w' uint_word_of_int)
  have "dle (dint (uint w)) ?x"
    using assms(2) w counter_ok_def [of c] assms(1)
    by (intro dadd_nonneg_ge) (simp_all add: count_ok_def)
  then have "of_int (uint w) \<le> dval ?x" using fin w by (simp add: dle_finite)
  then have "uint w \<le> uint w'" unfolding u' by (rule trunc_mono_int)
  moreover have "representable (of_int (uint w'))"
    unfolding u' by (intro representable_trunc is_double_dval) simp
  ultimately show ?thesis by (simp add: word_le_def count_ok_def)
qed

lemma collect_buckets_mono:
  "collect_buckets bs i w cs = Some (buckets, w') \<Longrightarrow> count_ok w \<Longrightarrow> \<forall>c\<in>set cs. counter_ok c \<Longrightarrow>
   sorted_wrt (\<le>) (w # map cumulative_count buckets) \<and>
   w' = last (w # map cumulative_count buckets) \<and> length buckets = length cs"
proof (induction bs i w cs arbitrary: buckets w' rule: collect_buckets.induct)
  case (1 bs i w)
  then show ?case by simp
next
  case (2 bs i w c cs)
  from "2.prems"(1) obtain v rest where
    v: "double_to_u64 (dadd (dint (uint w)) (Counter_Value c)) = Some v"
    and rest: "collect_buckets bs (i + 1) v cs = Some (rest, w')"
    and buckets: "buckets = \<lparr>cumulative_count = v,
       upper_bound = (if i = length bs then PInf else bs ! i)\<rparr> # rest"
    by (auto split: option.splits)
  have "w \<le> v \<and> count_ok v" using "2.prems"(2,3) v by (intro count_step [of w c]) auto
  moreover have "sorted_wrt (\<le>) (v # map cumulative_count rest) \<and>
      w' = last (v # map cumulative_count rest) \<and> length rest = length cs"
    using "2.IH" [OF v rest] "2.prems"(3) calculation by simp
  ultimately show ?case by (auto simp: buckets intro: order_trans)
qed

lemma collect_buckets_bounds:
  "collect_buckets bs i w cs = Some (buckets, w') \<Longrightarrow>
   map upper_bound buckets =
     map (\<lambda>j. if j = length bs then PInf else bs ! j) [i..<i + length cs]"
proof (induction bs i w cs arbitrary: buckets w' rule: collect_buckets.induct)
  case (2 bs i w c cs)
  then show ?case by (auto simp: upt_conv_Cons simp del: upt_Suc split: option.splits)
qed simp

definition hist_ok :: "histogram \<Rightarrow> bool" where
  "hist_ok h \<longleftrightarrow> length (bucket_counts h) = length (bucket_boundaries h) + 1 \<and>
     (\<forall>c\<in>set (bucket_counts h). counter_ok c)"

lemma hist_ok_new: "Histogram_new bs = Inr h \<Longrightarrow> hist_ok h"
  by (auto simp: Histogram_new_def hist_ok_def Let_def split: if_splits)

lemma hist_ok_Observe: "hist_ok h \<Longrightarrow> hist_ok (Histogram_Observe v h)"
proof -
  assume h: "hist_ok h"
  then have "bucket_index (bucket_boundaries h) v < length (bucket_counts h)"
    using bucket_index_le [of "bucket_boundaries h" v] by (simp add: hist_ok_def)
  with h show ?thesis
    by (auto simp: hist_ok_def Histogram_Observe_def Let_def dest!: set_update_subset_insert [THEN subsetD]
        intro: counter_ok_Increment)
qed

lemma hist_ok_ObserveMultiple:
  assumes "hist_ok h" and "NaN \<notin> set incs" and "Histogram_ObserveMultiple incs s h = Inr h'"
  shows "hist_ok h'"
proof -
  have "counter_ok (Counter_Increment_by v c)" if "(v, c) \<in> set (zip incs (bucket_counts h))" for v c
    using set_zip_leftD [OF that] set_zip_rightD [OF that] assms(1,2)
    by (auto simp: hist_ok_def intro!: counter_ok_Increment_by)
  with assms show ?thesis
    by (auto simp: hist_ok_def Histogram_ObserveMultiple_def Let_def split: if_splits)
qed

lemma hist_ok_Reset: "hist_ok h \<Longrightarrow> hist_ok (Histogram_Reset h)"
  by (auto simp: hist_ok_def Histogram_Reset_def)

subsection \<open>One call for many observations\<close>

lemma ObserveMultiple_counts:
  assumes "hist_rel bs us h" and "length us + length vs \<le> 2 ^ 53"
  shows "\<exists>h'. Histogram_ObserveMultiple
      (map (\<lambda>i. dint (int (length (filter (\<lambda>v. bucket_index bs v = i) vs)))) [0..<Suc (length bs)]) s h
        = Inr h' \<and>
    bucket_counts h' = bucket_counts (fold Histogram_Observe vs h)"
proof -
  let ?n = "\<lambda>i ws. length (filter (\<lambda>v. bucket_index bs v = i) ws)"
  let ?incs = "map (\<lambda>i. dint (int (?n i vs))) [0..<Suc (length bs)]"
  have len: "length ?incs = length (bucket_counts h)" using assms(1) by (simp add: hist_rel_def)
  define h' where "h' = h\<lparr>hist_sum := Gauge_Increment_by s (hist_sum h),
     bucket_counts := map2 Counter_Increment_by ?incs (bucket_counts h)\<rparr>"
  have obs: "Histogram_ObserveMultiple ?incs s h = Inr h'"
    using len by (simp add: Histogram_ObserveMultiple_def h'_def Let_def del: upt_Suc)
  have rel: "hist_rel bs (us @ vs) (fold Histogram_Observe vs h)"
    using assms by (rule hist_rel_fold)
  have "bucket_counts h' = bucket_counts (fold Histogram_Observe vs h)"
  proof (rule nth_equalityI)
    show "length (bucket_counts h') = length (bucket_counts (fold Histogram_Observe vs h))"
      using len rel by (simp add: h'_def hist_rel_def)
    fix i assume i: "i < length (bucket_counts h')"
    then have i': "i \<le> length bs" using assms(1) by (simp add: h'_def hist_rel_def)
    have small: "?n i us \<le> 2 ^ 53" "?n i vs \<le> 2 ^ 53"
      using assms(2) length_filter_le [of "\<lambda>v. bucket_index bs v = i" us]
        length_filter_le [of "\<lambda>v. bucket_index bs v = i" vs] by linarith+
    have pos: "\<not> dlt (dint (int (?n i vs))) (Fin 0)"
      using dint_mono [of 0 "int (?n i vs)"] by (simp add: not_dlt)
    have "Counter_Value (bucket_counts h' ! i) =
        dadd (dint (int (?n i us))) (dint (int (?n i vs)))"
      using i i' len assms(1) pos
      by (simp add: h'_def hist_rel_def del: upt_Suc)
    also have "\<dots> = dint (int (?n i (us @ vs)))"
      using small by (subst dadd_dint) simp_all
    also have "\<dots> = Counter_Value (bucket_counts (fold Histogram_Observe vs h) ! i)"
      using rel i' by (simp add: hist_rel_def)
    finally show "bucket_counts h' ! i = bucket_counts (fold Histogram_Observe vs h) ! i"
      by (rule counter_eqI)
  qed
  with obs show ?thesis by blast
qed

subsection \<open>Histories of calls\<close>

datatype hist_op = Hist_Observe double | Hist_ObserveMultiple "double list" double | Hist_Reset

text \<open>A call that throws leaves the object as it was: the check is the first statement.\<close>

fun hist_step :: "hist_op \<Rightarrow> histogram \<Rightarrow> histogram" where
  "hist_step (Hist_Observe v) h = Histogram_Observe v h"
| "hist_step (Hist_ObserveMultiple incs s) h =
     (case Histogram_ObserveMultiple incs s h of Inl e \<Rightarrow> h | Inr h' \<Rightarrow> h')"
| "hist_step Hist_Reset h = Histogram_Reset h"

fun hist_op_proper :: "hist_op \<Rightarrow> bool" where
  "hist_op_proper (Hist_ObserveMultiple incs s) = (NaN \<notin> set incs)"
| "hist_op_proper _ = True"

lemma hist_ok_run:
  "hist_ok h \<Longrightarrow> \<forall>p\<in>set ps. hist_op_proper p \<Longrightarrow> hist_ok (fold hist_step ps h)"
proof (induction ps arbitrary: h)
  case (Cons p ps)
  have "hist_ok (hist_step p h)"
    using Cons.prems
    by (cases p) (auto simp: hist_ok_Observe hist_ok_Reset split: sum.splits intro: hist_ok_ObserveMultiple)
  then show ?case using Cons by simp
qed simp

lemma boundaries_kept [simp]:
  "bucket_boundaries (Histogram_Observe v h) = bucket_boundaries h"
  "bucket_boundaries (Histogram_Reset h) = bucket_boundaries h"
  "Histogram_ObserveMultiple incs s h = Inr h' \<Longrightarrow> bucket_boundaries h' = bucket_boundaries h"
  by (auto simp: Histogram_Observe_def Histogram_Reset_def Histogram_ObserveMultiple_def Let_def
      split: if_splits)

lemma boundaries_run [simp]: "bucket_boundaries (fold hist_step ps h) = bucket_boundaries h"
proof (induction ps arbitrary: h)
  case (Cons p ps)
  have "bucket_boundaries (hist_step p h) = bucket_boundaries h"
    by (cases p) (auto split: sum.splits)
  then show ?case using Cons by simp
qed simp

lemma Histogram_new_Inr: "Histogram_new bs = Inr h \<Longrightarrow> bucket_boundaries h = bs \<and> is_strict_sorted bs"
  by (auto simp: Histogram_new_def Let_def split: if_splits)

subsection \<open>Properties\<close>

definition demo_hist :: histogram where
  "demo_hist = \<lparr>bucket_boundaries = [Fin 1, Fin 2], bucket_counts = replicate 3 Counter_default,
                hist_sum = Gauge_default\<rparr>"

lemma demo_hist: "Histogram_new [Fin 1, Fin 2] = Inr demo_hist"
  by (simp add: Histogram_new_def demo_hist_def numeral_3_eq_3)

text \<open>An observation is counted in exactly one bucket: the one whose interval, without its
  lower and with its upper boundary, holds the value; every other counter is unchanged.\<close>

theorem observe_hits_one_bucket:
  assumes "hist_ok h" and "proper_bounds (bucket_boundaries h)" and "v \<noteq> NaN"
    and "i \<le> length (bucket_boundaries h)"
  shows "bucket_counts (Histogram_Observe v h) ! i =
    (if (0 < i \<longrightarrow> dlt (bucket_boundaries h ! (i - 1)) v) \<and>
        (i < length (bucket_boundaries h) \<longrightarrow> dle v (bucket_boundaries h ! i))
     then Counter_Increment (bucket_counts h ! i) else bucket_counts h ! i)"
  using bucket_index_interval [OF assms(2-4)] assms(1,4)
  by (auto simp: Histogram_Observe_def Let_def hist_ok_def nth_list_update)

theorem observe_hits_one_bucket_witness:
  "bucket_counts (Histogram_Observe (Fin 2) demo_hist) ! 1 = Counter_Increment (bucket_counts demo_hist ! 1)"
  using observe_hits_one_bucket [of demo_hist "Fin 2" 1] hist_ok_new [OF demo_hist]
  by (simp add: demo_hist_def proper_bounds_def)

lemma Histogram_Collect_exact:
  assumes "Histogram_new bs = Inr h" and "NaN \<notin> set bs" and "length vs \<le> 2 ^ 53"
  shows "Histogram_Collect (fold Histogram_Observe vs h) =
    Some (empty_client_metric\<lparr>metric_histogram :=
      \<lparr>histogram_sample_count = of_nat (length vs),
       histogram_sample_sum = foldl dadd (Fin 0) vs,
       histogram_bucket =
         map (\<lambda>b. \<lparr>cumulative_count = of_nat (length (filter (\<lambda>v. \<not> dlt b v) vs)), upper_bound = b\<rparr>) bs @
         [\<lparr>cumulative_count = of_nat (length vs), upper_bound = PInf\<rparr>]\<rparr>\<rparr>)"
proof -
  have proper: "proper_bounds bs"
    using Histogram_new_Inr [OF assms(1)] assms(2) by (simp add: proper_bounds_def)
  have rel: "hist_rel bs vs (fold Histogram_Observe vs h)"
    using hist_rel_fold [OF hist_rel_new [OF assms(1)], of vs] assms(3) by simp
  have "map (\<lambda>j. \<lparr>cumulative_count = of_nat (below bs vs (Suc j)),
        upper_bound = (if j = length bs then PInf else bs ! j)\<rparr>) [0..<length bs] =
      map (\<lambda>b. \<lparr>cumulative_count = of_nat (length (filter (\<lambda>v. \<not> dlt b v) vs)), upper_bound = b\<rparr>) bs"
    by (rule nth_equalityI) (simp_all add: below_Suc_bound [OF proper])
  then show ?thesis
    using Histogram_Collect_counts [OF rel assms(3)] by (simp add: below_all)
qed

text \<open>C6: What \<open>Collect\<close> reports after the observations \<open>vs\<close> is exact up to \<open>2^53\<close>
  observations: for every boundary, how many observations are not above it; the infinite
  bucket and the sample count, all of them; the sum, the running sum in order.\<close>

theorem collect_exact:
  assumes "Histogram_new bs = Inr h" and "NaN \<notin> set bs" and "length vs \<le> 2 ^ 53"
  shows "Histogram_Collect (fold Histogram_Observe vs h) =
    Some (empty_client_metric\<lparr>metric_histogram :=
      \<lparr>histogram_sample_count = of_nat (length vs),
       histogram_sample_sum = foldl dadd (Fin 0) vs,
       histogram_bucket =
         map (\<lambda>b. \<lparr>cumulative_count = of_nat (length (filter (\<lambda>v. \<not> dlt b v) vs)), upper_bound = b\<rparr>) bs @
         [\<lparr>cumulative_count = of_nat (length vs), upper_bound = PInf\<rparr>]\<rparr>\<rparr>)"
  using assms by (rule Histogram_Collect_exact)

theorem collect_exact_witness:
  "map cumulative_count (histogram_bucket (metric_histogram (the (Histogram_Collect
     (fold Histogram_Observe [Fin 2, Fin 1, Fin 5] demo_hist))))) = [1, 2, 3]"
  using collect_exact [OF demo_hist, of "[Fin 2, Fin 1, Fin 5]"] by simp

text \<open>Whatever calls were made, \<open>ObserveMultiple\<close> with arbitrary increments but NaN among
  them, the reported cumulative counts never decrease from bucket to bucket, the bounds are the
  boundaries and infinity, and the sample count is the last bucket's.\<close>

theorem collect_cumulative:
  assumes "Histogram_new bs = Inr h" and "\<forall>p\<in>set ps. hist_op_proper p"
    and "Histogram_Collect (fold hist_step ps h) = Some m"
  shows "sorted_wrt (\<le>) (map cumulative_count (histogram_bucket (metric_histogram m))) \<and>
    map upper_bound (histogram_bucket (metric_histogram m)) = bs @ [PInf] \<and>
    histogram_sample_count (metric_histogram m) =
      cumulative_count (last (histogram_bucket (metric_histogram m)))"
proof -
  let ?h = "fold hist_step ps h"
  have ok: "hist_ok ?h" and b: "bucket_boundaries ?h = bs"
    using hist_ok_run hist_ok_new Histogram_new_Inr assms(1,2) by auto
  obtain buckets w where c: "collect_buckets bs 0 0 (bucket_counts ?h) = Some (buckets, w)"
    and m: "metric_histogram m = \<lparr>histogram_sample_count = w,
      histogram_sample_sum = Gauge_Value (hist_sum ?h), histogram_bucket = buckets\<rparr>"
    using assms(3) b by (auto simp: Histogram_Collect_def)
  have mono: "sorted_wrt (\<le>) (0 # map cumulative_count buckets)"
      "w = last (0 # map cumulative_count buckets)" "length buckets = length (bucket_counts ?h)"
    using collect_buckets_mono [OF c] ok by (auto simp: hist_ok_def)
  have ne: "buckets \<noteq> []" using mono(3) ok by (auto simp: hist_ok_def)
  have "map upper_bound buckets = map (\<lambda>j. if j = length bs then PInf else bs ! j) [0..<Suc (length bs)]"
    using collect_buckets_bounds [OF c] ok b by (simp add: hist_ok_def)
  also have "\<dots> = bs @ [PInf]" by (rule nth_equalityI) (auto simp: nth_append less_Suc_eq simp del: upt_Suc)
  finally show ?thesis using m mono ne by (simp add: last_map)
qed

theorem collect_cumulative_witness:
  "\<exists>m. Histogram_Collect (fold hist_step
       [Hist_ObserveMultiple [Fin 1, Fin (-3), Fin 7] (Fin 9)] demo_hist) = Some m \<and>
     sorted_wrt (\<le>) (map cumulative_count (histogram_bucket (metric_histogram m)))"
proof -
  let ?ps = "[Hist_ObserveMultiple [Fin 1, Fin (-3), Fin 7] (Fin 9)]"
  have "dadd (Fin 0) (Fin 1) = Fin 1" "dadd (Fin 0) (Fin 7) = Fin 7" "dadd (Fin 1) (Fin 0) = Fin 1"
    "dadd (Fin 1) (Fin 7) = Fin 8"
    using dadd_small [of 0 1] dadd_small [of 0 7] dadd_small [of 1 0] dadd_small [of 1 7]
    by (simp_all del: dadd.simps)
  moreover have "double_to_u64 (Fin 1) = Some 1" "double_to_u64 (Fin 8) = Some 8"
    by (simp_all add: double_to_u64_def trunc_def)
  ultimately have "Histogram_Collect (fold hist_step ?ps demo_hist) \<noteq> None"
    by (simp add: Histogram_Collect_def Histogram_ObserveMultiple_def demo_hist_def Let_def dint_exact
        numeral_3_eq_3 del: dadd.simps)
  then obtain m where m: "Histogram_Collect (fold hist_step ?ps demo_hist) = Some m" by blast
  have "\<forall>p\<in>set ?ps. hist_op_proper p" by simp
  with collect_cumulative [OF demo_hist _ m] m show ?thesis by blast
qed

lemma Observe_fold_frame:
  "bucket_boundaries (fold Histogram_Observe vs h) = bucket_boundaries h \<and>
   Gauge_Value (hist_sum (fold Histogram_Observe vs h)) = foldl dadd (Gauge_Value (hist_sum h)) vs"
  by (induction vs arbitrary: h) (simp_all add: Histogram_Observe_def Let_def gauge_defs)

lemma ObserveMultiple_frame:
  assumes "Histogram_ObserveMultiple incs s h = Inr h'"
  shows "bucket_boundaries h' = bucket_boundaries h \<and> Gauge_Value (hist_sum h') = dadd (Gauge_Value (hist_sum h)) s"
proof -
  have "length incs = length (bucket_counts h)"
    by (rule ccontr) (use assms in \<open>simp add: Histogram_ObserveMultiple_def\<close>)
  then have "Histogram_ObserveMultiple incs s h =
      Inr (h\<lparr>hist_sum := Gauge_Increment_by s (hist_sum h), bucket_counts := map2 Counter_Increment_by incs (bucket_counts h)\<rparr>)"
    by (simp add: Histogram_ObserveMultiple_def Let_def)
  then have h': "h\<lparr>hist_sum := Gauge_Increment_by s (hist_sum h), bucket_counts := map2 Counter_Increment_by incs (bucket_counts h)\<rparr> = h'"
    unfolding assms by (rule Inr_inject [OF sym])
  show ?thesis unfolding h' [symmetric] by (simp add: gauge_defs)
qed

lemma histogram_eqI:
  assumes "bucket_boundaries h = bucket_boundaries k" and "bucket_counts h = bucket_counts k"
    and "Gauge_Value (hist_sum h) = Gauge_Value (hist_sum k)"
  shows "h = (k :: histogram)"
proof -
  have "hist_sum h = hist_sum k" using assms(3) by (simp add: Gauge_Value_def)
  with assms(1,2) show ?thesis by simp
qed

text \<open>C29: \<open>ObserveMultiple\<close> with the numbers of values per bucket gives the counters that
  observing the values one by one gives, and adds the given sum to the histogram's in one addition,
  where observing adds value by value; it leaves the very histogram that observing leaves exactly
  when these two sums agree. Any other number of increments is a \<open>length_error\<close>.\<close>

theorem observe_multiple_equiv:
  assumes "Histogram_new bs = Inr h0" and "length us + length vs \<le> 2 ^ 53"
    and "h = fold Histogram_Observe us h0"
    and "\<forall>i. n i = length (filter (\<lambda>v. bucket_index bs v = i) vs)"
  shows "(\<exists>h'. Histogram_ObserveMultiple (map (\<lambda>i. dint (int (n i))) [0..<length bs + 1]) s h = Inr h' \<and>
      bucket_counts h' = bucket_counts (fold Histogram_Observe vs h) \<and>
      Gauge_Value (hist_sum h') = dadd (Gauge_Value (hist_sum h)) s \<and>
      (h' = fold Histogram_Observe vs h \<longleftrightarrow>
        dadd (Gauge_Value (hist_sum h)) s = foldl dadd (Gauge_Value (hist_sum h)) vs)) \<and>
    (\<forall>incs. length incs \<noteq> length bs + 1 \<longrightarrow> (\<exists>msg. Histogram_ObserveMultiple incs s h = Inl (length_error msg)))"
proof -
  have rel: "hist_rel bs us h"
    using hist_rel_fold [OF hist_rel_new [OF assms(1)], of us] assms(2,3) by simp
  then have len: "length (bucket_counts h) = length bs + 1" by (simp add: hist_rel_def)
  have n: "n = (\<lambda>i. length (filter (\<lambda>v. bucket_index bs v = i) vs))" using assms(4) by blast
  have "\<exists>msg. Histogram_ObserveMultiple incs s h = Inl (length_error msg)" if "length incs \<noteq> length bs + 1" for incs
    using that len by (simp add: Histogram_ObserveMultiple_def)
  moreover obtain h' where h': "Histogram_ObserveMultiple (map (\<lambda>i. dint (int (n i))) [0..<length bs + 1]) s h = Inr h'"
    "bucket_counts h' = bucket_counts (fold Histogram_Observe vs h)"
    using ObserveMultiple_counts [OF rel assms(2), of s] unfolding n Suc_eq_plus1 by blast
  moreover note frame = ObserveMultiple_frame [OF h'(1)] and one = Observe_fold_frame [of vs h]
  have "h' = fold Histogram_Observe vs h \<longleftrightarrow> dadd (Gauge_Value (hist_sum h)) s = foldl dadd (Gauge_Value (hist_sum h)) vs"
  proof
    assume "h' = fold Histogram_Observe vs h"
    then show "dadd (Gauge_Value (hist_sum h)) s = foldl dadd (Gauge_Value (hist_sum h)) vs"
      using conjunct2 [OF frame] conjunct2 [OF one] by simp
  next
    assume "dadd (Gauge_Value (hist_sum h)) s = foldl dadd (Gauge_Value (hist_sum h)) vs"
    then show "h' = fold Histogram_Observe vs h" using frame one h'(2) by (intro histogram_eqI) simp_all
  qed
  ultimately show ?thesis using frame by blast
qed

theorem observe_multiple_equiv_witness:
  "\<exists>h'. Histogram_ObserveMultiple (map (\<lambda>i. dint (int (length (filter (\<lambda>v. bucket_index [Fin 1, Fin 2] v = i)
       [Fin 2, Fin 7])))) [0..<length [Fin 1, Fin 2 :: double] + 1]) (Fin 9) demo_hist = Inr h' \<and>
     h' = fold Histogram_Observe [Fin 2, Fin 7] demo_hist"
proof -
  have "dadd (Gauge_Value (hist_sum demo_hist)) (Fin 9) = foldl dadd (Gauge_Value (hist_sum demo_hist)) [Fin 2, Fin 7]"
    using dadd_dint [of 0 9] dadd_dint [of 0 2] dadd_dint [of 2 7]
    by (simp add: demo_hist_def gauge_defs dint_exact del: dadd.simps)
  moreover have "length ([] :: double list) + length [Fin 2, Fin 7] \<le> 2 ^ 53" and "demo_hist = fold Histogram_Observe [] demo_hist" by simp_all
  from observe_multiple_equiv [OF demo_hist this, of "\<lambda>i. length (filter (\<lambda>v. bucket_index [Fin 1, Fin 2] v = i) [Fin 2, Fin 7])" "Fin 9"]
  obtain h' where "Histogram_ObserveMultiple (map (\<lambda>i. dint (int (length (filter (\<lambda>v. bucket_index [Fin 1, Fin 2] v = i)
       [Fin 2, Fin 7])))) [0..<length [Fin 1, Fin 2 :: double] + 1]) (Fin 9) demo_hist = Inr h'"
    "h' = fold Histogram_Observe [Fin 2, Fin 7] demo_hist \<longleftrightarrow>
       dadd (Gauge_Value (hist_sum demo_hist)) (Fin 9) = foldl dadd (Gauge_Value (hist_sum demo_hist)) [Fin 2, Fin 7]"
    by blast
  ultimately show ?thesis by blast
qed

text \<open>A boundary that is NaN passes the constructor's check, which then accepts boundaries that
  are not increasing.\<close>

lemma nan_boundary_accepted:
  "\<exists>h. Histogram_new [Fin 2, NaN, Fin 1] = Inr h"
  by (simp add: Histogram_new_def Let_def)

text \<open>The running count of \<open>Collect\<close> is an integer: increments that are no whole numbers are cut off
  bucket by bucket, here two halves to nothing.\<close>

lemma fractional_counts_lost:
  "\<exists>h h' m. Histogram_new [Fin 1] = Inr h \<and>
     Histogram_ObserveMultiple [Fin (1/2), Fin (1/2)] (Fin 1) h = Inr h' \<and>
     map Counter_Value (bucket_counts h') = [Fin (1/2), Fin (1/2)] \<and>
     Histogram_Collect h' = Some m \<and> histogram_sample_count (metric_histogram m) = 0"
proof -
  have half: "rnd s (1/2) = Fin (1/2)" for s using rnd_dyadic [of "1/2" 1 1] by (simp add: power_int_minus)
  have "\<lfloor>1 / 2 :: rat\<rfloor> = 0" by (rule floor_unique) simp_all
  then have t: "trunc (1/2) = 0" by (simp add: trunc_def)
  let ?c = "Counter_Increment_by (Fin (1/2)) Counter_default"
  let ?h = "\<lparr>bucket_boundaries = [Fin 1], bucket_counts = [Counter_default, Counter_default], hist_sum = Gauge_default\<rparr>"
  let ?h' = "\<lparr>bucket_boundaries = [Fin 1], bucket_counts = [?c, ?c], hist_sum = Gauge_Increment_by (Fin 1) Gauge_default\<rparr>"
  have sum: "dadd (Fin 0) (Fin (1/2)) = Fin (1/2)" using half by simp
  then have c: "Counter_Value ?c = Fin (1/2)" by (simp add: dlt_def)
  have "double_to_u64 (dadd (dint (uint (0 :: u64))) (Counter_Value ?c)) = Some 0"
    unfolding c using sum t by (simp add: double_to_u64_def dint_exact)
  then have "\<exists>bs. collect_buckets [Fin 1] 0 0 [?c, ?c] = Some (bs, 0)" by simp
  then obtain bs where bs: "collect_buckets [Fin 1] 0 0 [?c, ?c] = Some (bs, 0)" by blast
  have "\<exists>m. Histogram_Collect ?h' = Some m \<and> histogram_sample_count (metric_histogram m) = 0"
    unfolding Histogram_Collect_def histogram.simps bs by simp
  moreover have "Histogram_new [Fin 1] = Inr ?h" by (simp add: Histogram_new_def Let_def)
  moreover have "Histogram_ObserveMultiple [Fin (1/2), Fin (1/2)] (Fin 1) ?h = Inr ?h'"
    by (simp add: Histogram_ObserveMultiple_def Let_def)
  moreover have "map Counter_Value (bucket_counts ?h') = [Fin (1/2), Fin (1/2)]" using c by simp
  ultimately show ?thesis by (elim exE conjE) (intro exI conjI; assumption)
qed

end
