(* ===== verification/TimeWindow.thy ===== *)
theory TimeWindow
  imports CKMSInvariant
begin

text \<open>
  \<open>core/src/detail/time_window_quantiles.cc\<close>: a ring of estimators that all receive every
  observation; one after the other is reset as time passes, so the current one holds the
  observations of the last window. Times and durations are the steady clock's ticks, signed
  integers of 64 bits: the arithmetic on them is checked, because its overflow is undefined
  behaviour. The readings of the clock are arguments. The loop of \<open>rotate\<close> distinguishes not ending
  (\<open>None\<close>) from undefined behaviour (\<open>Some None\<close>); for the callers both are \<open>None\<close>.
\<close>

subsection \<open>The code\<close>

record time_window =
  tw_buckets :: "ckms list"
  current_bucket :: nat
  last_rotation :: int
  rotation_interval :: int

text \<open>The representation of \<open>time_point\<close> and \<open>duration\<close>.\<close>

definition ticks :: "int \<Rightarrow> int option" where
  "ticks t = (if - (2 ^ 63) \<le> t \<and> t < 2 ^ 63 then Some t else None)"

text \<open>Division of a duration by an \<open>int\<close> truncates towards zero.\<close>

definition duration_div :: "int \<Rightarrow> int \<Rightarrow> int" where
  "duration_div a b = sgn a * sgn b * (\<bar>a\<bar> div \<bar>b\<bar>)"

text \<open>
  A negative number of buckets becomes a huge \<open>size_t\<close>, which the vector refuses; with zero
  buckets the interval is a division by zero.
\<close>

definition TimeWindow_new :: "int \<Rightarrow> int \<Rightarrow> int \<Rightarrow> (cpp_exception + time_window) option" where
  "TimeWindow_new max_age age_buckets now =
     (if age_buckets < 0 then Some (Inl (length_error ''vector''))
      else if age_buckets = 0 then None
      else Some (Inr \<lparr>tw_buckets = replicate (nat age_buckets) CKMS_new, current_bucket = 0,
             last_rotation = now, rotation_interval = duration_div max_age age_buckets\<rparr>))"

text \<open>One round of the loop: the remaining \<open>delta\<close> and the window after it.\<close>

definition rotate_once :: "int \<Rightarrow> time_window \<Rightarrow> (int \<times> time_window) option" where
  "rotate_once delta w =
     (let w = w\<lparr>tw_buckets := (tw_buckets w)[current_bucket w := ckms_reset (tw_buckets w ! current_bucket w)]\<rparr>;
          w = w\<lparr>current_bucket := (if current_bucket w + 1 \<ge> length (tw_buckets w) then 0
                                   else current_bucket w + 1)\<rparr> in
      do {
        delta \<leftarrow> ticks (delta - rotation_interval w);
        t \<leftarrow> ticks (last_rotation w + rotation_interval w);
        Some (delta, w\<lparr>last_rotation := t\<rparr>)
      })"

partial_function (option) rotate_loop :: "int \<Rightarrow> time_window \<Rightarrow> time_window option option" where
  "rotate_loop delta w =
     (if delta > rotation_interval w
      then (case rotate_once delta w of
              None \<Rightarrow> Some None
            | Some r \<Rightarrow> rotate_loop (fst r) (snd r))
      else Some (Some w))"

definition rotate_window :: "int \<Rightarrow> time_window \<Rightarrow> time_window option option" where
  "rotate_window now w =
     (case ticks (now - last_rotation w) of
        None \<Rightarrow> Some None
      | Some delta \<Rightarrow> rotate_loop delta w)"

definition TimeWindow_insert :: "quantile list \<Rightarrow> int \<Rightarrow> double \<Rightarrow> time_window \<Rightarrow> time_window option" where
  "TimeWindow_insert quantiles now value w =
     do {
       r \<leftarrow> rotate_window now w;
       w \<leftarrow> r;
       bs \<leftarrow> map_opt (ckms_insert quantiles value) (tw_buckets w);
       Some (w\<lparr>tw_buckets := bs\<rparr>)
     }"

definition TimeWindow_get :: "quantile list \<Rightarrow> int \<Rightarrow> double \<Rightarrow> time_window \<Rightarrow> (double \<times> time_window) option" where
  "TimeWindow_get quantiles now q w =
     do {
       r \<leftarrow> rotate_window now w;
       w \<leftarrow> r;
       (v, b) \<leftarrow> ckms_get quantiles q (tw_buckets w ! current_bucket w);
       Some (v, w\<lparr>tw_buckets := (tw_buckets w)[current_bucket w := b]\<rparr>)
     }"

subsection \<open>The interface of one bucket\<close>

text \<open>
  What the window needs of an estimator: a relation to the observations it has received since
  its last reset, kept by the operations. A history is admissible when its length is within
  the estimator's limit and it holds no value the estimator cannot take.
\<close>

locale quantile_stream =
  fixes ins :: "double \<Rightarrow> 'b \<Rightarrow> 'b option"
    and rst :: "'b \<Rightarrow> 'b"
    and get :: "double \<Rightarrow> 'b \<Rightarrow> (double \<times> 'b) option"
    and fresh :: 'b
    and holds :: "double list \<Rightarrow> 'b \<Rightarrow> bool"
    and admissible :: "double list \<Rightarrow> bool"
    and level :: "double \<Rightarrow> bool"
  assumes fresh_holds: "holds [] fresh"
    and rst_holds: "holds xs b \<Longrightarrow> holds [] (rst b)"
    and ins_holds: "holds xs b \<Longrightarrow> admissible (xs @ [v]) \<Longrightarrow> \<exists>b'. ins v b = Some b' \<and> holds (xs @ [v]) b'"
    and get_holds: "holds xs b \<Longrightarrow> admissible xs \<Longrightarrow> level q \<Longrightarrow>
      \<exists>v b'. get q b = Some (v, b') \<and> holds xs b' \<and> (if xs = [] then v = NaN else v \<in> set xs)"
begin

lemma insert_all:
  "list_all2 holds hs bs \<Longrightarrow> \<forall>h\<in>set hs. admissible (h @ [v]) \<Longrightarrow>
   \<exists>bs'. map_opt (ins v) bs = Some bs' \<and> list_all2 holds (map (\<lambda>h. h @ [v]) hs) bs'"
proof (induction rule: list_all2_induct)
  case (Cons h hs b bs)
  then obtain b' bs' where "ins v b = Some b'" "holds (h @ [v]) b'"
    "map_opt (ins v) bs = Some bs'" "list_all2 holds (map (\<lambda>h. h @ [v]) hs) bs'"
    using ins_holds [of h b v] by auto
  then show ?case by simp
qed simp

lemma reset_one:
  "list_all2 holds hs bs \<Longrightarrow> i < length bs \<Longrightarrow> list_all2 holds (hs[i := []]) (bs[i := rst (bs ! i)])"
  using rst_holds by (auto simp: list_all2_conv_all_nth nth_list_update)

lemma get_one:
  assumes "list_all2 holds hs bs" and "i < length bs" and "admissible (hs ! i)" and "level q"
  shows "\<exists>v b'. get q (bs ! i) = Some (v, b') \<and> list_all2 holds hs (bs[i := b']) \<and>
    (if hs ! i = [] then v = NaN else v \<in> set (hs ! i))"
proof -
  have "holds (hs ! i) (bs ! i)" using assms(1,2) by (rule list_all2_nthD2)
  then obtain v b' where "get q (bs ! i) = Some (v, b')" "holds (hs ! i) b'"
    "if hs ! i = [] then v = NaN else v \<in> set (hs ! i)"
    using get_holds assms(3,4) by blast
  moreover from this(2) have "list_all2 holds hs (bs[i := b'])"
    using list_all2_update_cong [OF assms(1), of "hs ! i" b' i] by simp
  ultimately show ?thesis by blast
qed

lemma fresh_all: "list_all2 holds (replicate n []) (replicate n fresh)"
  by (simp add: fresh_holds list_all2_conv_all_nth)

end

definition proper_quantiles :: "quantile list \<Rightarrow> bool" where
  "proper_quantiles qs \<longleftrightarrow> (\<forall>q\<in>set qs. quantile_ok q)"

definition admissible_history :: "quantile list \<Rightarrow> double list \<Rightarrow> bool" where
  "admissible_history qs xs \<longleftrightarrow> proper_quantiles qs \<and> NaN \<notin> set xs \<and> length xs \<le> ckms_limit"

definition level_ok :: "double \<Rightarrow> bool" where
  "level_ok q \<longleftrightarrow> dle (Fin 0) q \<and> dle q (Fin 1)"

text \<open>The estimator, for any list of quantiles, provides the interface.\<close>

interpretation ckms: quantile_stream "ckms_insert qs" ckms_reset "ckms_get qs" CKMS_new
    ckms_rep "admissible_history qs" level_ok for qs
proof unfold_locales
  show "ckms_rep [] CKMS_new" by simp
  show "ckms_rep xs b \<Longrightarrow> ckms_rep [] (ckms_reset b)" for xs b by (rule ckms_rep_reset)
  show "ckms_rep xs b \<Longrightarrow> admissible_history qs (xs @ [v]) \<Longrightarrow>
      \<exists>b'. ckms_insert qs v b = Some b' \<and> ckms_rep (xs @ [v]) b'" for xs b v
    using ckms_insert_rep [of xs b qs v]
    by (auto simp: proper_quantiles_def admissible_history_def)
  show "ckms_rep xs b \<Longrightarrow> admissible_history qs xs \<Longrightarrow> level_ok q \<Longrightarrow>
      \<exists>v b'. ckms_get qs q b = Some (v, b') \<and> ckms_rep xs b' \<and> (if xs = [] then v = NaN else v \<in> set xs)"
    for xs b q
    using ckms_get_rep [of xs b qs q] flushed_rep
    by (fastforce simp: proper_quantiles_def admissible_history_def level_ok_def)
qed

subsection \<open>The rotation\<close>

lemma ticks_simps [simp]:
  "ticks t = Some u \<longleftrightarrow> u = t \<and> - (2 ^ 63) \<le> t \<and> t < 2 ^ 63"
  "ticks t = None \<longleftrightarrow> \<not> (- (2 ^ 63) \<le> t \<and> t < 2 ^ 63)"
  by (auto simp: ticks_def)

text \<open>The effect of a round whose arithmetic does not overflow.\<close>

definition turn :: "time_window \<Rightarrow> time_window" where
  "turn w =
     w\<lparr>tw_buckets := (tw_buckets w)[current_bucket w := ckms_reset (tw_buckets w ! current_bucket w)],
       current_bucket := (if current_bucket w + 1 \<ge> length (tw_buckets w) then 0
                          else current_bucket w + 1),
       last_rotation := last_rotation w + rotation_interval w\<rparr>"

lemma turn_simps [simp]:
  "rotation_interval (turn w) = rotation_interval w"
  "last_rotation (turn w) = last_rotation w + rotation_interval w"
  "length (tw_buckets (turn w)) = length (tw_buckets w)"
  by (simp_all add: turn_def)

lemma rotate_once_turn:
  assumes "ticks (delta - rotation_interval w) \<noteq> None" and "ticks (last_rotation w + rotation_interval w) \<noteq> None"
  shows "rotate_once delta w = Some (delta - rotation_interval w, turn w)"
proof -
  have t: "ticks (delta - rotation_interval w) = Some (delta - rotation_interval w)"
    "ticks (last_rotation w + rotation_interval w) = Some (last_rotation w + rotation_interval w)"
    using assms by simp_all
  show ?thesis by (simp add: rotate_once_def turn_def Let_def t del: ticks_simps)
qed

lemma rotate_once_cases: "rotate_once delta w = None \<or> rotate_once delta w = Some (delta - rotation_interval w, turn w)"
  using rotate_once_turn [of delta w] by (cases "rotate_once delta w") (auto simp: rotate_once_def Let_def bind_eq_Some_conv)

lemma rotate_once_overflow: "2 ^ 63 \<le> delta - rotation_interval w \<Longrightarrow> rotate_once delta w = None"
  by (simp add: rotate_once_def Let_def bind_eq_None_conv)

lemma rotate_loop_endless:
  assumes "rotation_interval w = 0" and "0 < delta" and "delta < 2 ^ 63" and "ticks (last_rotation w) \<noteq> None"
  shows "rotate_loop delta w = None"
proof -
  let ?P = "\<lambda>delta w. rotation_interval w = 0 \<and> 0 < delta \<and> delta < 2 ^ 63 \<and> ticks (last_rotation w) \<noteq> None"
  have "\<not> ?P delta w" if "rotate_loop delta w = Some r" for r
  proof (rule rotate_loop.raw_induct [where P = "\<lambda>delta w r. \<not> ?P delta w", OF _ that])
    fix f delta w r
    assume IH: "\<And>delta w r. f delta w = Some r \<Longrightarrow> \<not> ?P delta w"
      and eq: "(if delta > rotation_interval w
        then case rotate_once delta w of None \<Rightarrow> Some None | Some r \<Rightarrow> f (fst r) (snd r)
        else Some (Some w)) = Some r"
    show "\<not> ?P delta w"
    proof
      assume P: "?P delta w"
      then have "rotate_once delta w = Some (delta, turn w)" using rotate_once_turn [of delta w] by auto
      with eq P have "f delta (turn w) = Some r" by simp
      with IH P show False by fastforce
    qed
  qed
  then show ?thesis using assms by (cases "rotate_loop delta w") auto
qed

lemma rotate_loop_undefined:
  assumes "rotation_interval w < 0" and "rotation_interval w < delta"
  shows "rotate_loop delta w = Some None"
  using assms
proof (induction "nat (2 ^ 63 - delta)" arbitrary: delta w rule: less_induct)
  case less
  let ?I = "rotation_interval w"
  show ?case
  proof (cases "rotate_once delta w = None")
    case True
    then show ?thesis using less.prems by (subst rotate_loop.simps) simp
  next
    case False
    with rotate_once_cases [of delta w] have r: "rotate_once delta w = Some (delta - ?I, turn w)" by (elim disjE) simp_all
    have "delta - ?I < 2 ^ 63" using False rotate_once_overflow [of delta w] by linarith
    then have "nat (2 ^ 63 - (delta - ?I)) < nat (2 ^ 63 - delta)" using less.prems by simp
    from less.hyps [OF this, of "turn w"] less.prems have "rotate_loop (delta - ?I) (turn w) = Some None" by simp
    then show ?thesis using less.prems(2) r by (subst rotate_loop.simps) simp
  qed
qed

lemma rotate_loop_steps:
  assumes "0 < rotation_interval w" and "delta < 2 ^ 63" and "- (2 ^ 63) \<le> last_rotation w"
    and "last_rotation w + delta < 2 ^ 63"
  shows "rotate_loop delta w = Some (Some ((turn ^^ nat ((delta - 1) div rotation_interval w)) w))"
  using assms
proof (induction "nat delta" arbitrary: delta w rule: less_induct)
  case less
  let ?I = "rotation_interval w"
  show ?case
  proof (cases "?I < delta")
    case False
    then have "(delta - 1) div ?I \<le> 0"
      using less.prems by (cases "0 < delta") (auto simp: div_pos_pos_trivial pos_imp_zdiv_nonneg_iff
          pos_imp_zdiv_neg_iff less_imp_le)
    then show ?thesis using False by (subst rotate_loop.simps) simp
  next
    case True
    have "(delta - 1) div ?I = (delta - ?I - 1) div ?I + 1"
      using less.prems div_add_self2 [of ?I "delta - ?I - 1"] by simp
    moreover have "0 \<le> (delta - ?I - 1) div ?I"
      using less.prems True by (simp add: pos_imp_zdiv_nonneg_iff)
    ultimately have "nat ((delta - 1) div ?I) = Suc (nat ((delta - ?I - 1) div ?I))" by simp
    moreover have "rotate_loop (delta - ?I) (turn w) =
        Some (Some ((turn ^^ nat ((delta - ?I - 1) div ?I)) (turn w)))"
      using less.hyps [of "delta - ?I" "turn w"] less.prems True by simp
    moreover have "rotate_once delta w = Some (delta - ?I, turn w)"
      by (rule rotate_once_turn) (use less.prems True in auto)
    ultimately show ?thesis using True
      by (subst rotate_loop.simps) (simp add: funpow_swap1)
  qed
qed

lemma rotate_window_loop:
  "rotate_window now w = (if ticks (now - last_rotation w) = None then Some None else rotate_loop (now - last_rotation w) w)"
  by (cases "ticks (now - last_rotation w)") (simp_all add: rotate_window_def del: ticks_simps, simp add: ticks_def split: if_splits)

lemma rotate_window_eq:
  assumes "ticks now \<noteq> None" and "ticks (last_rotation w) \<noteq> None"
  shows "rotate_window now w =
    (let delta = now - last_rotation w; I = rotation_interval w in
     if ticks delta = None then Some None
     else if delta \<le> I then Some (Some w)
     else if 0 < I then Some (Some ((turn ^^ nat ((delta - 1) div I)) w))
     else if I = 0 then None
     else Some None)"
proof -
  let ?d = "now - last_rotation w"
  have "rotate_loop ?d w = Some (Some w)" if "?d \<le> rotation_interval w"
    using that by (subst rotate_loop.simps) simp
  then show ?thesis
    using assms rotate_loop_steps [of w ?d] rotate_loop_endless [of w ?d] rotate_loop_undefined [of w ?d]
    by (simp add: rotate_window_loop Let_def)
qed

subsection \<open>The window of observations\<close>

text \<open>
  The observations come with the clock readings they were made at. Bucket \<open>i\<close> was reset when
  the last rotation was at \<open>since w i\<close>; values at or before the start \<open>t0\<close> mean that it has
  not been reset yet.
\<close>

definition visible :: "int \<Rightarrow> int \<Rightarrow> (int \<times> double) list \<Rightarrow> double list" where
  "visible t0 since obs = map snd (filter (\<lambda>(t, v). since \<le> t0 \<or> since < t) obs)"

definition since :: "time_window \<Rightarrow> nat \<Rightarrow> int" where
  "since w i = (let n = length (tw_buckets w) in
     last_rotation w - int (n - 1 - (i + n - current_bucket w) mod n) * rotation_interval w)"

definition tw_core :: "int \<Rightarrow> (int \<times> double) list \<Rightarrow> time_window \<Rightarrow> bool" where
  "tw_core t0 obs w \<longleftrightarrow>
     current_bucket w < length (tw_buckets w) \<and> 0 < rotation_interval w \<and> t0 \<le> last_rotation w \<and>
     list_all2 ckms_rep (map (\<lambda>i. visible t0 (since w i) obs) [0..<length (tw_buckets w)]) (tw_buckets w) \<and>
     (\<forall>(t, v)\<in>set obs. t \<le> last_rotation w + rotation_interval w)"

text \<open>\<open>m\<close> is the latest reading of the clock.\<close>

definition tw_rel :: "int \<Rightarrow> int \<Rightarrow> (int \<times> double) list \<Rightarrow> time_window \<Rightarrow> bool" where
  "tw_rel t0 m obs w \<longleftrightarrow> tw_core t0 obs w \<and> (last_rotation w = t0 \<or> last_rotation w < m) \<and>
     m \<le> last_rotation w + rotation_interval w"

lemma since_current: "current_bucket w < length (tw_buckets w) \<Longrightarrow>
  since w (current_bucket w) = last_rotation w - int (length (tw_buckets w) - 1) * rotation_interval w"
  by (simp add: since_def Let_def)

text \<open>A rotation resets the current bucket and leaves the others as old as they were.\<close>

lemma ring_position:
  fixes n c i :: nat
  assumes "c < n" and "i < n"
  defines "c' \<equiv> if c + 1 \<ge> n then 0 else c + 1"
  shows "c' < n" and "(i + n - c') mod n = (if i = c then n - 1 else (i + n - c) mod n - 1)"
    and "i \<noteq> c \<Longrightarrow> 0 < (i + n - c) mod n"
proof -
  show "c' < n" using assms by simp
  consider "i < c" | "i = c" | "c < i" by linarith
  then have "(i + n - c') mod n = (if i = c then n - 1 else (i + n - c) mod n - 1) \<and>
    (i \<noteq> c \<longrightarrow> 0 < (i + n - c) mod n)"
  proof cases
    case 1
    then have "(i + n - c) mod n = i + n - c" using assms by simp
    moreover have "(i + n - c') mod n = i + n - c - 1"
      using 1 assms by (cases "c + 1 = n") auto
    ultimately show ?thesis using 1 assms(1) by auto
  next
    case 2
    then show ?thesis using assms by (cases "c + 1 = n") auto
  next
    case 3
    have "(i + n - c) mod n = i - c"
      using 3 assms by (simp add: mod_if)
    moreover have "(i + n - c') mod n = i - c - 1"
      using 3 assms by (simp add: mod_if)
    ultimately show ?thesis using 3 by auto
  qed
  then show "(i + n - c') mod n = (if i = c then n - 1 else (i + n - c) mod n - 1)"
    and "i \<noteq> c \<Longrightarrow> 0 < (i + n - c) mod n" by auto
qed

lemma since_turn:
  assumes "current_bucket w < length (tw_buckets w)" and "i < length (tw_buckets w)"
  shows "since (turn w) i =
    (if i = current_bucket w then last_rotation w + rotation_interval w else since w i)"
proof -
  let ?n = "length (tw_buckets w)" and ?c = "current_bucket w"
  have c': "current_bucket (turn w) = (if ?c + 1 \<ge> ?n then 0 else ?c + 1)"
    by (simp add: turn_def)
  show ?thesis
  proof (cases "i = ?c")
    case True
    then show ?thesis
      using ring_position(2) [OF assms] by (simp add: since_def Let_def c' del: One_nat_def)
  next
    case False
    let ?j = "(i + ?n - ?c) mod ?n"
    have j: "0 < ?j" using ring_position(3) [OF assms False] .
    have "?j < ?n" by (rule mod_less_divisor) (use assms(2) in linarith)
    with j have "int (?n - 1 - (?j - 1)) = int (?n - 1 - ?j) + 1" by simp
    then show ?thesis
      using ring_position(2) [OF assms] False
      by (simp add: since_def Let_def c' algebra_simps del: One_nat_def)
  qed
qed


lemma visible_Nil [simp]: "visible t0 s [] = []"
  by (simp add: visible_def)

lemma visible_snoc: "visible t0 s (obs @ [(t, v)]) = visible t0 s obs @ (if s \<le> t0 \<or> s < t then [v] else [])"
  by (simp add: visible_def)

lemma visible_empty: "t0 < s \<Longrightarrow> \<forall>(t, v)\<in>set obs. t \<le> s \<Longrightarrow> visible t0 s obs = []"
  by (force simp: visible_def filter_empty_conv)

lemma visible_subset: "set (visible t0 s obs) \<subseteq> snd ` set obs"
  by (auto simp: visible_def)

lemma length_visible: "length (visible t0 s obs) \<le> length obs"
  by (simp add: visible_def)

lemma tw_core_turn:
  assumes "tw_core t0 obs w"
  shows "tw_core t0 obs (turn w)"
proof -
  let ?n = "length (tw_buckets w)" and ?c = "current_bucket w"
  let ?s' = "last_rotation w + rotation_interval w"
  have c: "?c < ?n" and I: "0 < rotation_interval w" and t0: "t0 \<le> last_rotation w"
    and all: "list_all2 ckms_rep (map (\<lambda>i. visible t0 (since w i) obs) [0..<?n]) (tw_buckets w)"
    and late: "\<forall>(t, v)\<in>set obs. t \<le> ?s'"
    using assms by (simp_all add: tw_core_def)
  have "visible t0 ?s' obs = []" using visible_empty late I t0 by simp
  then have "map (\<lambda>i. visible t0 (since (turn w) i) obs) [0..<?n] =
      (map (\<lambda>i. visible t0 (since w i) obs) [0..<?n])[?c := []]"
    by (intro nth_equalityI) (auto simp: nth_list_update since_turn c)
  then have "list_all2 ckms_rep (map (\<lambda>i. visible t0 (since (turn w) i) obs) [0..<?n])
      (tw_buckets (turn w))"
    using ckms.reset_one [OF all c] by (simp add: turn_def)
  moreover have "current_bucket (turn w) < ?n"
    using ring_position(1) [OF c c] by (simp add: turn_def)
  ultimately show ?thesis using I t0 late by (auto simp: tw_core_def)
qed

lemma funpow_turn:
  "rotation_interval ((turn ^^ k) w) = rotation_interval w \<and>
   last_rotation ((turn ^^ k) w) = last_rotation w + int k * rotation_interval w \<and>
   length (tw_buckets ((turn ^^ k) w)) = length (tw_buckets w)"
  by (induction k) (simp_all add: algebra_simps)

lemma tw_core_rotates: "tw_core t0 obs w \<Longrightarrow> tw_core t0 obs ((turn ^^ k) w)"
  by (induction k) (simp_all add: tw_core_turn)

text \<open>Two readings of the clock, the first not the later one: both are representable, and so is the
  time between them.\<close>

definition steady :: "int \<Rightarrow> int \<Rightarrow> bool" where
  "steady t0 t \<longleftrightarrow> t0 \<le> t \<and> ticks t0 \<noteq> None \<and> ticks t \<noteq> None \<and> ticks (t - t0) \<noteq> None"

lemma steady_mono: "steady t0 t \<Longrightarrow> t0 \<le> t1 \<Longrightarrow> t1 \<le> t \<Longrightarrow> steady t0 t1"
  by (auto simp: steady_def)

lemma tw_rel_rotate:
  assumes rel: "tw_rel t0 m obs w" and now: "m \<le> now" and clock: "steady t0 now"
  shows "\<exists>w'. rotate_window now w = Some (Some w') \<and> tw_rel t0 now obs w' \<and>
    length (tw_buckets w') = length (tw_buckets w) \<and> rotation_interval w' = rotation_interval w"
proof -
  let ?I = "rotation_interval w" and ?k = "nat ((now - last_rotation w - 1) div rotation_interval w)"
  let ?w = "(turn ^^ ?k) w"
  have core: "tw_core t0 obs w" and I: "0 < ?I"
    and m: "last_rotation w = t0 \<or> last_rotation w < m"
    using rel by (simp_all add: tw_rel_def tw_core_def)
  define d where "d = now - last_rotation w - 1"
  have pos: "int ?k * ?I = (if 0 \<le> d then d - d mod ?I else 0)"
    using I unfolding d_def [symmetric]
    by (auto simp: pos_imp_zdiv_nonneg_iff pos_imp_zdiv_neg_iff minus_mod_eq_div_mult intro: nat_0_iff [THEN iffD2])
  have d: "0 \<le> d mod ?I" "d mod ?I < ?I" using I by simp_all
  have "last_rotation ?w = t0 \<or> last_rotation ?w < now"
  proof (cases "0 \<le> d")
    case True
    then have "int ?k * ?I < now - last_rotation w" using pos d(1) by (simp add: d_def)
    then show ?thesis by (simp add: funpow_turn)
  next
    case False
    then have "int ?k * ?I = 0" using pos by simp
    then show ?thesis using m now by (auto simp: funpow_turn)
  qed
  moreover have "now \<le> last_rotation ?w + ?I"
  proof -
    have "d < int ?k * ?I + ?I" using pos d(2) I by (auto split: if_splits)
    then show ?thesis by (simp add: funpow_turn d_def)
  qed
  ultimately have "tw_rel t0 now obs ?w"
    using tw_core_rotates [OF core] by (simp add: tw_rel_def funpow_turn)
  moreover have "rotate_window now w = Some (Some ?w)"
  proof -
    have "t0 \<le> last_rotation w" "last_rotation w = t0 \<or> last_rotation w < now"
      using core m now by (auto simp: tw_core_def)
    then have r: "- (2 ^ 63) \<le> last_rotation w" "now - last_rotation w < 2 ^ 63" "now < 2 ^ 63"
        "- (2 ^ 63) \<le> now - last_rotation w"
      using clock by (auto simp: steady_def)
    then show ?thesis
      using rotate_loop_steps [OF I r(2,1)] by (simp add: rotate_window_loop)
  qed
  ultimately show ?thesis by (auto simp: funpow_turn)
qed

definition window_history :: "quantile list \<Rightarrow> (int \<times> double) list \<Rightarrow> bool" where
  "window_history qs obs \<longleftrightarrow> admissible_history qs (map snd obs)"

lemma window_history_visible: "window_history qs obs \<Longrightarrow> admissible_history qs (visible t0 s obs)"
  using visible_subset [of t0 s obs] length_visible [of t0 s obs]
  by (auto simp: window_history_def admissible_history_def)

lemma since_le_last:
  assumes "0 < rotation_interval w" shows "since w i \<le> last_rotation w"
  using assms by (simp add: since_def Let_def)

lemma tw_rel_insert:
  assumes rel: "tw_rel t0 m obs w" and now: "m \<le> now" and clock: "steady t0 now"
    and hist: "window_history qs (obs @ [(now, v)])"
  shows "\<exists>w'. TimeWindow_insert qs now v w = Some w' \<and> tw_rel t0 now (obs @ [(now, v)]) w' \<and>
    length (tw_buckets w') = length (tw_buckets w) \<and> rotation_interval w' = rotation_interval w"
proof -
  obtain w1 where w1: "rotate_window now w = Some (Some w1)" "tw_rel t0 now obs w1"
    "length (tw_buckets w1) = length (tw_buckets w)" "rotation_interval w1 = rotation_interval w"
    using tw_rel_rotate [OF rel now clock] by blast
  let ?n = "length (tw_buckets w1)"
  let ?hs = "map (\<lambda>i. visible t0 (since w1 i) obs) [0..<?n]"
  have core: "tw_core t0 obs w1" and fresh: "last_rotation w1 = t0 \<or> last_rotation w1 < now"
    and up: "now \<le> last_rotation w1 + rotation_interval w1"
    using w1(2) by (simp_all add: tw_rel_def)
  have seen: "visible t0 (since w1 i) (obs @ [(now, v)]) = visible t0 (since w1 i) obs @ [v]" for i
    using fresh since_le_last [of w1 i] core by (auto simp: visible_snoc tw_core_def)
  have "admissible_history qs (visible t0 (since w1 i) obs @ [v])" for i
    using window_history_visible [OF hist, of t0 "since w1 i"] by (simp add: seen)
  then obtain bs where bs: "map_opt (ckms_insert qs v) (tw_buckets w1) = Some bs"
    "list_all2 ckms_rep (map (\<lambda>h. h @ [v]) ?hs) bs"
    using ckms.insert_all [of ?hs "tw_buckets w1" qs v] core by (auto simp: tw_core_def)
  let ?w = "w1\<lparr>tw_buckets := bs\<rparr>"
  have len: "length bs = ?n" using map_opt_length [OF bs(1)] .
  then have "since ?w i = since w1 i" for i by (simp add: since_def)
  then have "tw_rel t0 now (obs @ [(now, v)]) ?w"
    using core bs(2) len fresh up
    by (simp add: tw_rel_def tw_core_def seen comp_def)
  then show ?thesis using w1(1,3,4) bs(1) len by (simp add: TimeWindow_insert_def)
qed

text \<open>What a query at time \<open>now\<close> answers.\<close>

definition window_answer :: "int \<Rightarrow> int \<Rightarrow> nat \<Rightarrow> (int \<times> double) list \<Rightarrow> double \<Rightarrow> bool" where
  "window_answer interval now n obs v \<longleftrightarrow>
     (if v = NaN then \<forall>(t, x)\<in>set obs. t < now - int (n - 1) * interval
      else \<exists>t. (t, v) \<in> set obs \<and> now - int n * interval \<le> t)"

lemma tw_rel_get:
  assumes rel: "tw_rel t0 m obs w" and now: "m \<le> now" and start: "\<forall>(t, v)\<in>set obs. t0 \<le> t"
    and clock: "steady t0 now" and hist: "window_history qs obs" and q: "level_ok q"
  shows "\<exists>v w'. TimeWindow_get qs now q w = Some (v, w') \<and> tw_rel t0 now obs w' \<and>
    length (tw_buckets w') = length (tw_buckets w) \<and> rotation_interval w' = rotation_interval w \<and>
    window_answer (rotation_interval w) now (length (tw_buckets w)) obs v"
proof -
  obtain w1 where w1: "rotate_window now w = Some (Some w1)" "tw_rel t0 now obs w1"
    "length (tw_buckets w1) = length (tw_buckets w)" "rotation_interval w1 = rotation_interval w"
    using tw_rel_rotate [OF rel now clock] by blast
  let ?n = "length (tw_buckets w1)" and ?c = "current_bucket w1" and ?I = "rotation_interval w1"
  let ?hs = "map (\<lambda>i. visible t0 (since w1 i) obs) [0..<?n]"
  let ?vis = "visible t0 (since w1 ?c) obs"
  have core: "tw_core t0 obs w1" and fresh: "last_rotation w1 = t0 \<or> last_rotation w1 < now"
    and up: "now \<le> last_rotation w1 + ?I"
    using w1(2) by (simp_all add: tw_rel_def)
  have c: "?c < ?n" and I: "0 < ?I" using core by (simp_all add: tw_core_def)
  have hs: "?hs ! ?c = ?vis" using c by simp
  obtain v b where get: "ckms_get qs q (tw_buckets w1 ! ?c) = Some (v, b)"
    "list_all2 ckms_rep ?hs ((tw_buckets w1)[?c := b])"
    "if ?vis = [] then v = NaN else v \<in> set ?vis"
    using ckms.get_one [of ?hs "tw_buckets w1" ?c qs q] core c window_history_visible [OF hist] q
    unfolding hs tw_core_def by blast
  let ?w = "w1\<lparr>tw_buckets := (tw_buckets w1)[?c := b]\<rparr>"
  have "since ?w i = since w1 i" for i by (simp add: since_def)
  then have "tw_rel t0 now obs ?w"
    using core get(2) fresh up by (simp add: tw_rel_def tw_core_def)
  moreover have "window_answer ?I now ?n obs v"
  proof -
    have s: "since w1 ?c = last_rotation w1 - int (?n - 1) * ?I" by (rule since_current [OF c])
    have n: "int ?n * ?I = int (?n - 1) * ?I + ?I" using c by (simp add: algebra_simps of_nat_diff)
    have "NaN \<notin> set ?vis"
      using window_history_visible [OF hist] by (simp add: admissible_history_def)
    show ?thesis
    proof (cases "?vis = []")
      case True
      have "t < now - int (?n - 1) * ?I" if "(t, x) \<in> set obs" for t x
      proof -
        have "\<not> (since w1 ?c \<le> t0) \<and> t \<le> since w1 ?c"
          using True that by (force simp: visible_def filter_empty_conv)
        then show ?thesis
          using fresh since_le_last [OF I, of ?c] s by auto
      qed
      then show ?thesis using get(3) True by (auto simp: window_answer_def)
    next
      case False
      then have "v \<in> set ?vis" using get(3) by simp
      then obtain t where t: "(t, v) \<in> set obs" "since w1 ?c \<le> t0 \<or> since w1 ?c < t"
        by (auto simp: visible_def)
      have "since w1 ?c \<le> t" using t start by fastforce
      then have "now - int ?n * ?I \<le> t" using up s n by linarith
      then show ?thesis
        using t(1) \<open>v \<in> set ?vis\<close> \<open>NaN \<notin> set ?vis\<close> by (auto simp: window_answer_def)
    qed
  qed
  ultimately show ?thesis using w1 get(1) by (simp add: TimeWindow_get_def)
qed

lemma tw_rel_new:
  assumes "TimeWindow_new max_age n t0 = Some (Inr w)" and "0 < rotation_interval w"
  shows "tw_rel t0 t0 [] w"
  using assms ckms_rep_new
  by (auto simp: TimeWindow_new_def tw_rel_def tw_core_def list_all2_conv_all_nth split: if_splits)

subsection \<open>Sequences of calls\<close>

datatype window_op = Insert_at int double | Get_at int double

definition window_step :: "quantile list \<Rightarrow> window_op \<Rightarrow> time_window \<Rightarrow> time_window option" where
  "window_step qs p w =
     (case p of
        Insert_at t v \<Rightarrow> TimeWindow_insert qs t v w
      | Get_at t q \<Rightarrow> map_option snd (TimeWindow_get qs t q w))"

fun op_time :: "window_op \<Rightarrow> int" where
  "op_time (Insert_at t v) = t"
| "op_time (Get_at t q) = t"

fun observations :: "window_op list \<Rightarrow> (int \<times> double) list" where
  "observations [] = []"
| "observations (Insert_at t v # ps) = (t, v) # observations ps"
| "observations (Get_at t q # ps) = observations ps"

definition ops_ok :: "int \<Rightarrow> window_op list \<Rightarrow> bool" where
  "ops_ok t0 ps \<longleftrightarrow> sorted (t0 # map op_time ps) \<and> (\<forall>p\<in>set ps. steady t0 (op_time p)) \<and>
     (\<forall>t q. Get_at t q \<in> set ps \<longrightarrow> level_ok q)"

lemma observations_append [simp]: "observations (ps @ qs) = observations ps @ observations qs"
  by (induction ps rule: observations.induct) simp_all

lemma observations_times: "set (map fst (observations ps)) \<subseteq> set (map op_time ps)"
  by (induction ps rule: observations.induct) auto

definition last_time :: "int \<Rightarrow> window_op list \<Rightarrow> int" where
  "last_time t0 ps = last (t0 # map op_time ps)"

lemma ops_ok_snoc: "ops_ok t0 (ps @ [p]) \<longleftrightarrow>
  ops_ok t0 ps \<and> last_time t0 ps \<le> op_time p \<and> steady t0 (op_time p) \<and> (\<forall>t q. p = Get_at t q \<longrightarrow> level_ok q)"
  by (cases ps rule: rev_cases)
    (auto simp: ops_ok_def last_time_def sorted_append dest: order_trans)

lemma window_history_prefix: "window_history qs (xs @ ys) \<Longrightarrow> window_history qs xs"
  by (auto simp: window_history_def admissible_history_def)

lemma window_run:
  assumes "tw_rel t0 t0 [] w" and "ops_ok t0 ps" and "window_history qs (observations ps)"
  shows "\<exists>w'. fold_opt (window_step qs) ps w = Some w' \<and>
    tw_rel t0 (last_time t0 ps) (observations ps) w' \<and>
    length (tw_buckets w') = length (tw_buckets w) \<and> rotation_interval w' = rotation_interval w"
  using assms(2,3)
proof (induction ps rule: rev_induct)
  case Nil
  then show ?case using assms(1) by (simp add: last_time_def)
next
  case (snoc p ps)
  have ok: "ops_ok t0 ps" "last_time t0 ps \<le> op_time p" "\<And>t q. p = Get_at t q \<Longrightarrow> level_ok q"
      "steady t0 (op_time p)"
    using snoc.prems(1) by (auto simp: ops_ok_snoc)
  have hist: "window_history qs (observations ps)"
    using snoc.prems(2) window_history_prefix by simp
  obtain w1 where w1: "fold_opt (window_step qs) ps w = Some w1"
    "tw_rel t0 (last_time t0 ps) (observations ps) w1"
    "length (tw_buckets w1) = length (tw_buckets w)" "rotation_interval w1 = rotation_interval w"
    using snoc.IH [OF ok(1) hist] by blast
  have "\<forall>(t, v)\<in>set (observations ps). t0 \<le> t"
    using observations_times [of ps] ok(1) by (force simp: ops_ok_def)
  then have "\<exists>w2. window_step qs p w1 = Some w2 \<and>
      tw_rel t0 (op_time p) (observations (ps @ [p])) w2 \<and>
      length (tw_buckets w2) = length (tw_buckets w1) \<and> rotation_interval w2 = rotation_interval w1"
    using tw_rel_insert [OF w1(2)] tw_rel_get [OF w1(2)] ok(2-4) snoc.prems(2)
    by (cases p) (fastforce simp: window_step_def)+
  then show ?case using w1 by (auto simp: fold_opt_append last_time_def)
qed

lemma window_answers:
  assumes "TimeWindow_new max_age n t0 = Some (Inr w)" and "0 < rotation_interval w"
    and "ops_ok t0 (ps @ [Get_at now q])" and "window_history qs (observations ps)"
  shows "\<exists>w1 v w2. fold_opt (window_step qs) ps w = Some w1 \<and> TimeWindow_get qs now q w1 = Some (v, w2) \<and>
    window_answer (rotation_interval w) now (nat n) (observations ps) v"
proof -
  have ok: "ops_ok t0 ps" "last_time t0 ps \<le> now" "level_ok q" "steady t0 now"
    using assms(3) by (auto simp: ops_ok_snoc)
  obtain w1 where w1: "fold_opt (window_step qs) ps w = Some w1"
    "tw_rel t0 (last_time t0 ps) (observations ps) w1"
    "length (tw_buckets w1) = length (tw_buckets w)" "rotation_interval w1 = rotation_interval w"
    using window_run [OF tw_rel_new [OF assms(1,2)] ok(1) assms(4)] by blast
  have "\<forall>(t, v)\<in>set (observations ps). t0 \<le> t"
    using observations_times [of ps] ok(1) by (force simp: ops_ok_def)
  moreover have "length (tw_buckets w) = nat n"
    using assms(1) by (auto simp: TimeWindow_new_def split: if_splits)
  ultimately show ?thesis
    using tw_rel_get [OF w1(2) ok(2) _ ok(4) assms(4) ok(3)] w1 by auto
qed

subsection \<open>Properties\<close>

definition demo_window :: time_window where
  "demo_window = \<lparr>tw_buckets = replicate 5 CKMS_new, current_bucket = 0, last_rotation = 100, rotation_interval = 12\<rparr>"

lemma demo_window: "TimeWindow_new 60 5 100 = Some (Inr demo_window)"
  by (simp add: TimeWindow_new_def demo_window_def duration_div_def numeral_eq_Suc)

text \<open>C34: What \<open>rotate\<close> does for every two readings of the clock and every interval, with time
  points and durations of 64 bits. It does nothing when no more than one interval has passed, and
  rotates once for every full interval before the reading when the interval is positive. With the
  interval zero it never ends; with a negative one, or when the time since the last rotation is not
  representable, its arithmetic overflows.\<close>

theorem rotate_outcomes:
  assumes "ticks now \<noteq> None" and "ticks (last_rotation w) \<noteq> None"
  shows "rotate_window now w =
    (let delta = now - last_rotation w; I = rotation_interval w in
     if ticks delta = None then Some None
     else if delta \<le> I then Some (Some w)
     else if 0 < I then Some (Some ((turn ^^ nat ((delta - 1) div I)) w))
     else if I = 0 then None
     else Some None)"
  by (rule rotate_window_eq [OF assms])

theorem rotate_outcomes_witness:
  "rotate_window 200 demo_window = Some (Some ((turn ^^ 8) demo_window)) \<and>
   current_bucket ((turn ^^ 8) demo_window) = 3 \<and> last_rotation ((turn ^^ 8) demo_window) = 196 \<and>
   rotate_window 101 (demo_window\<lparr>rotation_interval := 0\<rparr>) = None \<and>
   rotate_window 101 (demo_window\<lparr>rotation_interval := - 1\<rparr>) = Some None"
  by (simp add: rotate_outcomes demo_window_def Let_def)
    (simp add: turn_def numeral_eq_Suc)

text \<open>A maximum age below one tick per bucket gives the interval zero: the first use of the
  window after the clock has moved does not return. With a negative one it is undefined.\<close>

lemma short_age_hangs:
  "\<exists>w. TimeWindow_new 4 5 100 = Some (Inr w) \<and> rotate_window 101 w = None \<and> TimeWindow_insert qs 101 v w = None"
proof -
  let ?w = "\<lparr>tw_buckets = replicate 5 CKMS_new, current_bucket = 0, last_rotation = 100, rotation_interval = 0\<rparr>"
  have "TimeWindow_new 4 5 100 = Some (Inr ?w)"
    by (simp add: TimeWindow_new_def duration_div_def)
  moreover have "rotate_window 101 ?w = None" by (simp add: rotate_window_eq)
  ultimately show ?thesis by (auto simp: TimeWindow_insert_def)
qed

lemma negative_age_undefined:
  "\<exists>w. TimeWindow_new (- 5) 5 100 = Some (Inr w) \<and> rotate_window 101 w = Some None"
proof -
  let ?w = "\<lparr>tw_buckets = replicate 5 CKMS_new, current_bucket = 0, last_rotation = 100, rotation_interval = - 1\<rparr>"
  have "TimeWindow_new (- 5) 5 100 = Some (Inr ?w)"
    by (simp add: TimeWindow_new_def duration_div_def)
  moreover have "rotate_window 101 ?w = Some None" by (simp add: rotate_window_eq)
  ultimately show ?thesis by blast
qed

text \<open>The sliding window: whatever calls came before, with clock readings that do not go
  back and a time since the construction that is representable, a query at \<open>now\<close> never reports an observation older than the whole window, and reports
  NaN only when no observation is younger than the window less one interval.\<close>

theorem window_retention:
  assumes "TimeWindow_new max_age n t0 = Some (Inr w)" and "0 < rotation_interval w"
    and "ops_ok t0 (ps @ [Get_at now q])" and "window_history qs (observations ps)"
  shows "\<exists>w1 v w2. fold_opt (window_step qs) ps w = Some w1 \<and> TimeWindow_get qs now q w1 = Some (v, w2) \<and>
    (if v = NaN then \<forall>(t, x)\<in>set (observations ps). t < now - int (nat n - 1) * rotation_interval w
     else \<exists>t. (t, v) \<in> set (observations ps) \<and> now - int (nat n) * rotation_interval w \<le> t)"
  using window_answers [OF assms] by (simp add: window_answer_def)

theorem window_retention_witness:
  "\<exists>w1 v w2. fold_opt (window_step [demo_quantile])
       [Insert_at 101 (Fin 7), Get_at 110 (Fin (1/2)), Insert_at 130 (Fin 2)] demo_window = Some w1 \<and>
     TimeWindow_get [demo_quantile] 175 (Fin (1/2)) w1 = Some (v, w2) \<and> v = Fin 2"
proof -
  let ?ps = "[Insert_at 101 (Fin 7), Get_at 110 (Fin (1/2)), Insert_at 130 (Fin 2)]"
  have "0 < rotation_interval demo_window" "ops_ok 100 (?ps @ [Get_at 175 (Fin (1/2))])"
    "window_history [demo_quantile] (observations ?ps)"
    by (auto simp: demo_window_def ops_ok_def steady_def level_ok_def window_history_def admissible_history_def
      proper_quantiles_def ckms_limit_def)
  moreover have "rotation_interval demo_window = 12" by (simp add: demo_window_def)
  ultimately obtain w1 v w2 where
    w: "fold_opt (window_step [demo_quantile]) ?ps demo_window = Some w1"
      "TimeWindow_get [demo_quantile] 175 (Fin (1/2)) w1 = Some (v, w2)"
    and v: "if v = NaN then \<forall>(t, x)\<in>set (observations ?ps). t < 175 - int (nat 5 - 1) * 12
       else \<exists>t. (t, v) \<in> set (observations ?ps) \<and> 175 - int (nat 5) * 12 \<le> t"
    using window_retention [OF demo_window] by metis
  have "v = Fin 2" using v by (auto split: if_splits)
  with w show ?thesis by blast
qed

end
