(* ===== verification/Summary.thy ===== *)
theory Summary
  imports TimeWindow Scalars
begin

text \<open>
  \<open>core/src/summary.cc\<close>: the count and the sum of all observations and the quantiles of the
  recent ones. The mutex makes each call atomic. The clock is read once per insertion and once
  per reported quantile; the readings are arguments. The steady clock counts nanoseconds, as
  it does in the standard libraries the code is built with, in 64 bits: a maximum age that does
  not fit after the conversion from milliseconds is undefined behaviour.
\<close>

subsection \<open>The code\<close>

record summary =
  summary_quantiles :: "quantile list"
  summary_count :: u64
  summary_sum :: double
  quantile_values :: time_window

definition clock_duration :: "int \<Rightarrow> int option" where
  "clock_duration ms = ticks (ms * 1000000)"

definition Summary_new ::
    "quantile list \<Rightarrow> int \<Rightarrow> int \<Rightarrow> int \<Rightarrow> (cpp_exception + summary) option" where
  "Summary_new quantiles max_age_ms age_buckets now =
     do {
       max_age \<leftarrow> clock_duration max_age_ms;
       r \<leftarrow> TimeWindow_new max_age age_buckets now;
       Some (case r of
           Inl e \<Rightarrow> Inl e
         | Inr w \<Rightarrow> Inr \<lparr>summary_quantiles = quantiles, summary_count = 0, summary_sum = Fin 0,
                        quantile_values = w\<rparr>)
     }"

text \<open>The constructor with its default arguments: a window of 60 seconds in five buckets.\<close>

definition Summary_default :: "quantile list \<Rightarrow> int \<Rightarrow> (cpp_exception + summary) option" where
  "Summary_default quantiles now = Summary_new quantiles 60000 5 now"

definition Summary_Observe :: "int \<Rightarrow> double \<Rightarrow> summary \<Rightarrow> summary option" where
  "Summary_Observe now value s =
     (let s = s\<lparr>summary_count := summary_count s + 1\<rparr>;
          s = s\<lparr>summary_sum := dadd (summary_sum s) value\<rparr> in
      do {
        w \<leftarrow> TimeWindow_insert (summary_quantiles s) now value (quantile_values s);
        Some (s\<lparr>quantile_values := w\<rparr>)
      })"

text \<open>The loop of \<open>Collect\<close>; \<open>clock i\<close> is the reading in round \<open>i\<close>.\<close>

fun collect_quantiles :: "quantile list \<Rightarrow> (nat \<Rightarrow> int) \<Rightarrow> nat \<Rightarrow> quantile list \<Rightarrow> time_window \<Rightarrow>
    (client_quantile list \<times> time_window) option" where
  "collect_quantiles quantiles clock i [] w = Some ([], w)"
| "collect_quantiles quantiles clock i (q # qs) w =
     do {
       (v, w) \<leftarrow> TimeWindow_get quantiles (clock i) (q_quantile q) w;
       (rest, w) \<leftarrow> collect_quantiles quantiles clock (i + 1) qs w;
       Some (\<lparr>quantile_level = q_quantile q, quantile_value = v\<rparr> # rest, w)
     }"

definition Summary_Collect :: "(nat \<Rightarrow> int) \<Rightarrow> summary \<Rightarrow> (client_metric \<times> summary) option" where
  "Summary_Collect clock s =
     do {
       (qs, w) \<leftarrow> collect_quantiles (summary_quantiles s) clock 0 (summary_quantiles s) (quantile_values s);
       Some (empty_client_metric\<lparr>metric_summary :=
               \<lparr>summary_sample_count = summary_count s, summary_sample_sum = summary_sum s,
                summary_quantile = qs\<rparr>\<rparr>,
             s\<lparr>quantile_values := w\<rparr>)
     }"

subsection \<open>The observations a summary stands for\<close>

definition summary_params :: "quantile list \<Rightarrow> bool" where
  "summary_params qs \<longleftrightarrow> (\<forall>q\<in>set qs. quantile_ok q \<and> level_ok (q_quantile q))"

definition summary_rel ::
    "quantile list \<Rightarrow> nat \<Rightarrow> int \<Rightarrow> int \<Rightarrow> int \<Rightarrow> (int \<times> double) list \<Rightarrow> summary \<Rightarrow> bool" where
  "summary_rel qs n interval t0 m obs s \<longleftrightarrow>
     summary_quantiles s = qs \<and> summary_count s = of_nat (length obs) \<and>
     summary_sum s = foldl dadd (Fin 0) (map snd obs) \<and>
     tw_rel t0 m obs (quantile_values s) \<and>
     length (tw_buckets (quantile_values s)) = n \<and> rotation_interval (quantile_values s) = interval \<and>
     (\<forall>(t, v)\<in>set obs. t0 \<le> t) \<and> t0 \<le> m"

lemma Summary_new_window:
  assumes "Summary_new qs max_age n t0 = Some (Inr s)"
  shows "0 < n" and "TimeWindow_new (max_age * 1000000) n t0 = Some (Inr (quantile_values s))"
    and "s = \<lparr>summary_quantiles = qs, summary_count = 0, summary_sum = Fin 0, quantile_values = quantile_values s\<rparr>"
    and "length (tw_buckets (quantile_values s)) = nat n"
    and "rotation_interval (quantile_values s) = duration_div (max_age * 1000000) n"
proof -
  obtain r where r: "TimeWindow_new (max_age * 1000000) n t0 = Some r"
    and s: "(case r of Inl e \<Rightarrow> Inl e
         | Inr w \<Rightarrow> Inr \<lparr>summary_quantiles = qs, summary_count = 0, summary_sum = Fin 0,
                        quantile_values = w\<rparr>) = Inr s"
    using assms by (auto simp: Summary_new_def clock_duration_def Let_def bind_eq_Some_conv split: if_splits)
  from s obtain w where w: "r = Inr w"
      "s = \<lparr>summary_quantiles = qs, summary_count = 0, summary_sum = Fin 0, quantile_values = w\<rparr>"
    by (cases r) auto
  with r show "0 < n" "TimeWindow_new (max_age * 1000000) n t0 = Some (Inr (quantile_values s))"
    "s = \<lparr>summary_quantiles = qs, summary_count = 0, summary_sum = Fin 0, quantile_values = quantile_values s\<rparr>"
    "length (tw_buckets (quantile_values s)) = nat n"
    "rotation_interval (quantile_values s) = duration_div (max_age * 1000000) n"
    by (auto simp: TimeWindow_new_def split: if_splits)
qed

text \<open>The default arguments are accepted, and every bucket of the window lasts twelve seconds.\<close>

lemma Summary_default_new:
  "\<exists>s. Summary_default qs now = Some (Inr s) \<and> rotation_interval (quantile_values s) = 12000000000 \<and>
     length (tw_buckets (quantile_values s)) = 5"
  by (simp add: Summary_default_def Summary_new_def clock_duration_def ticks_def TimeWindow_new_def duration_div_def Let_def)

lemma summary_rel_new:
  assumes "Summary_new qs max_age n t0 = Some (Inr s)" and "0 < rotation_interval (quantile_values s)"
  shows "summary_rel qs (nat n) (duration_div (max_age * 1000000) n) t0 t0 [] s"
  using tw_rel_new [OF Summary_new_window(2) [OF assms(1)] assms(2)] Summary_new_window(3-5) [OF assms(1)]
  by (cases s) (simp add: summary_rel_def)

lemma summary_rel_Observe:
  assumes rel: "summary_rel qs n I t0 m obs s" and "m \<le> now" and "window_history qs (obs @ [(now, v)])"
    and "steady t0 now"
  shows "\<exists>s'. Summary_Observe now v s = Some s' \<and> summary_rel qs n I t0 now (obs @ [(now, v)]) s'"
proof -
  obtain w where "TimeWindow_insert qs now v (quantile_values s) = Some w"
      "tw_rel t0 now (obs @ [(now, v)]) w"
      "length (tw_buckets w) = n" "rotation_interval w = I"
    using tw_rel_insert [of t0 m obs "quantile_values s" now qs v] assms by (auto simp: summary_rel_def)
  then show ?thesis using rel assms(2) by (auto simp: summary_rel_def Summary_Observe_def Let_def)
qed

text \<open>Readings of a clock that does not go back, none before \<open>m\<close>.\<close>

definition clock_from :: "int \<Rightarrow> nat \<Rightarrow> (nat \<Rightarrow> int) \<Rightarrow> bool" where
  "clock_from m k clock \<longleftrightarrow> (\<forall>i<k. m \<le> clock i) \<and> (\<forall>i j. i \<le> j \<longrightarrow> j < k \<longrightarrow> clock i \<le> clock j)"

definition clock_end :: "int \<Rightarrow> nat \<Rightarrow> (nat \<Rightarrow> int) \<Rightarrow> int" where
  "clock_end m k clock = (if k = 0 then m else clock (k - 1))"

lemma clock_end_ge: "clock_from m k clock \<Longrightarrow> m \<le> clock_end m k clock"
  by (simp add: clock_from_def clock_end_def)

lemma clock_from_steady:
  assumes "clock_from m k clock" and "t0 \<le> m" and "steady t0 (clock_end m k clock)" and "i < k"
  shows "steady t0 (clock i)"
proof (rule steady_mono [OF assms(3)])
  show "t0 \<le> clock i" "clock i \<le> clock_end m k clock"
    using assms by (auto simp: clock_from_def clock_end_def)
qed

lemma collect_quantiles_rel:
  assumes "clock_from m (i + length rest) clock" and "tw_rel t0 (clock_end m i clock) obs w"
    and "\<forall>(t, v)\<in>set obs. t0 \<le> t" and "window_history qs obs" and "\<forall>q\<in>set rest. level_ok (q_quantile q)"
    and "\<forall>j<i + length rest. steady t0 (clock j)"
  shows "\<exists>cs w'. collect_quantiles qs clock i rest w = Some (cs, w') \<and>
    tw_rel t0 (clock_end m (i + length rest) clock) obs w' \<and>
    length (tw_buckets w') = length (tw_buckets w) \<and> rotation_interval w' = rotation_interval w \<and>
    map quantile_level cs = map q_quantile rest \<and>
    (\<forall>j<length cs. window_answer (rotation_interval w) (clock (i + j)) (length (tw_buckets w)) obs
       (quantile_value (cs ! j)))"
  using assms(1,2,5,6)
proof (induction rest arbitrary: i w)
  case Nil
  then show ?case by simp
next
  case (Cons q rest)
  have "clock_end m i clock \<le> clock i"
    using Cons.prems(1) by (auto simp: clock_from_def clock_end_def)
  then obtain v w1 where w1: "TimeWindow_get qs (clock i) (q_quantile q) w = Some (v, w1)"
    "tw_rel t0 (clock i) obs w1" "length (tw_buckets w1) = length (tw_buckets w)"
    "rotation_interval w1 = rotation_interval w"
    "window_answer (rotation_interval w) (clock i) (length (tw_buckets w)) obs v"
    using tw_rel_get [OF Cons.prems(2) _ assms(3) _ assms(4), of "clock i" "q_quantile q"] Cons.prems(3,4) by auto
  have "\<exists>cs w'. collect_quantiles qs clock (i + 1) rest w1 = Some (cs, w') \<and>
    tw_rel t0 (clock_end m (i + 1 + length rest) clock) obs w' \<and>
    length (tw_buckets w') = length (tw_buckets w1) \<and> rotation_interval w' = rotation_interval w1 \<and>
    map quantile_level cs = map q_quantile rest \<and>
    (\<forall>j<length cs. window_answer (rotation_interval w1) (clock (i + 1 + j)) (length (tw_buckets w1)) obs
       (quantile_value (cs ! j)))"
    using Cons.prems w1(2) by (intro Cons.IH) (simp_all add: clock_end_def)
  then obtain cs w2 where "collect_quantiles qs clock (i + 1) rest w1 = Some (cs, w2)"
    "tw_rel t0 (clock_end m (i + 1 + length rest) clock) obs w2"
    "length (tw_buckets w2) = length (tw_buckets w1)" "rotation_interval w2 = rotation_interval w1"
    "map quantile_level cs = map q_quantile rest"
    "\<forall>j<length cs. window_answer (rotation_interval w1) (clock (i + 1 + j)) (length (tw_buckets w1)) obs
       (quantile_value (cs ! j))" by blast
  with w1 show ?case by (auto simp: less_Suc_eq_0_disj)
qed

lemma summary_rel_Collect:
  assumes rel: "summary_rel qs n I t0 m obs s" and clock: "clock_from m (length qs) clock"
    and "window_history qs obs" and "summary_params qs" and steady: "steady t0 (clock_end m (length qs) clock)"
  shows "\<exists>cs s'. Summary_Collect clock s = Some (empty_client_metric\<lparr>metric_summary :=
      \<lparr>summary_sample_count = of_nat (length obs), summary_sample_sum = foldl dadd (Fin 0) (map snd obs),
       summary_quantile = cs\<rparr>\<rparr>, s') \<and>
    summary_rel qs n I t0 (clock_end m (length qs) clock) obs s' \<and>
    map quantile_level cs = map q_quantile qs \<and>
    (\<forall>j<length cs. window_answer I (clock j) n obs (quantile_value (cs ! j)))"
proof -
  have "\<exists>cs w'. collect_quantiles qs clock 0 qs (quantile_values s) = Some (cs, w') \<and>
    tw_rel t0 (clock_end m (0 + length qs) clock) obs w' \<and>
    length (tw_buckets w') = length (tw_buckets (quantile_values s)) \<and>
    rotation_interval w' = rotation_interval (quantile_values s) \<and>
    map quantile_level cs = map q_quantile qs \<and>
    (\<forall>j<length cs. window_answer (rotation_interval (quantile_values s)) (clock (0 + j))
       (length (tw_buckets (quantile_values s))) obs (quantile_value (cs ! j)))"
    using assms clock_from_steady [OF clock _ steady]
    by (intro collect_quantiles_rel) (auto simp: summary_rel_def summary_params_def clock_end_def)
  then show ?thesis
    using rel clock_end_ge [OF clock] by (auto simp: Summary_Collect_def summary_rel_def)
qed

subsection \<open>Sequences of calls\<close>

datatype summary_op = Summary_observe int double | Summary_collect "nat \<Rightarrow> int"

fun summary_step :: "summary_op \<Rightarrow> summary \<Rightarrow> summary option" where
  "summary_step (Summary_observe t v) s = Summary_Observe t v s"
| "summary_step (Summary_collect clock) s = map_option snd (Summary_Collect clock s)"

fun summary_obs :: "summary_op list \<Rightarrow> (int \<times> double) list" where
  "summary_obs [] = []"
| "summary_obs (Summary_observe t v # ps) = (t, v) # summary_obs ps"
| "summary_obs (Summary_collect clock # ps) = summary_obs ps"

text \<open>The clock readings of the calls, for \<open>k\<close> quantiles, do not go back from \<open>m\<close> on.\<close>

fun summary_times_ok :: "nat \<Rightarrow> int \<Rightarrow> summary_op list \<Rightarrow> bool" where
  "summary_times_ok k m [] = True"
| "summary_times_ok k m (Summary_observe t v # ps) = (m \<le> t \<and> summary_times_ok k t ps)"
| "summary_times_ok k m (Summary_collect clock # ps) =
     (clock_from m k clock \<and> summary_times_ok k (clock_end m k clock) ps)"

fun summary_end :: "nat \<Rightarrow> int \<Rightarrow> summary_op list \<Rightarrow> int" where
  "summary_end k m [] = m"
| "summary_end k m (Summary_observe t v # ps) = summary_end k t ps"
| "summary_end k m (Summary_collect clock # ps) = summary_end k (clock_end m k clock) ps"

lemma summary_end_ge: "summary_times_ok k m ps \<Longrightarrow> m \<le> summary_end k m ps"
proof (induction k m ps rule: summary_times_ok.induct)
  case (3 k m clock ps)
  then show ?case using clock_end_ge [of m k clock] by auto
qed auto

lemma summary_run:
  assumes "summary_params qs"
  shows "summary_rel qs n I t0 m obs s \<Longrightarrow> summary_times_ok (length qs) m ps \<Longrightarrow>
    steady t0 (summary_end (length qs) m ps) \<Longrightarrow> window_history qs (obs @ summary_obs ps) \<Longrightarrow>
    \<exists>s'. fold_opt summary_step ps s = Some s' \<and>
      summary_rel qs n I t0 (summary_end (length qs) m ps) (obs @ summary_obs ps) s'"
proof (induction ps arbitrary: obs m s)
  case Nil
  then show ?case by simp
next
  case (Cons p ps)
  show ?case
  proof (cases p)
    case (Summary_observe t v)
    have "window_history qs (obs @ [(t, v)])"
      using Cons.prems(4) Summary_observe window_history_prefix [of qs "obs @ [(t, v)]" "summary_obs ps"]
      by simp
    moreover have "steady t0 t"
      using Cons.prems(1-3) Summary_observe summary_end_ge [of "length qs" t ps]
      by (auto simp: summary_rel_def intro: steady_mono)
    ultimately obtain s1 where "Summary_Observe t v s = Some s1" "summary_rel qs n I t0 t (obs @ [(t, v)]) s1"
      using summary_rel_Observe [OF Cons.prems(1), of t v] Cons.prems(2) Summary_observe by auto
    then show ?thesis
      using Cons.IH [of t "obs @ [(t, v)]" s1] Cons.prems(2-4) Summary_observe by simp
  next
    case (Summary_collect clock)
    have "window_history qs obs" using Cons.prems(4) by (rule window_history_prefix)
    moreover have "steady t0 (clock_end m (length qs) clock)"
      using Cons.prems(1-3) Summary_collect summary_end_ge [of "length qs" "clock_end m (length qs) clock" ps]
        clock_end_ge [of m "length qs" clock]
      by (auto simp: summary_rel_def intro: steady_mono)
    ultimately obtain c s1 where "Summary_Collect clock s = Some (c, s1)"
      "summary_rel qs n I t0 (clock_end m (length qs) clock) obs s1"
      using summary_rel_Collect [OF Cons.prems(1) _ _ assms, of clock] Cons.prems(2) Summary_collect by auto
    then show ?thesis using Cons.IH [of _ obs s1] Cons.prems(2-4) Summary_collect by simp
  qed
qed

subsection \<open>A scrape after any calls\<close>

definition demo_summary :: summary where
  "demo_summary = \<lparr>summary_quantiles = [demo_quantile], summary_count = 0, summary_sum = Fin 0,
     quantile_values = \<lparr>tw_buckets = replicate 5 CKMS_new, current_bucket = 0, last_rotation = 0,
       rotation_interval = 12000000000\<rparr>\<rparr>"

lemma demo_summary: "Summary_new [demo_quantile] 60000 5 0 = Some (Inr demo_summary)"
  by (simp add: Summary_new_def clock_duration_def ticks_def TimeWindow_new_def duration_div_def demo_summary_def
      Let_def)

text \<open>A summary never runs into undefined behaviour and reports, whatever calls came before: the
  number of all observations, their running sum in order, and for each configured level, in order,
  an observation no older than the window, or NaN when none is recent.\<close>

lemma summary_scrape:
  assumes "Summary_new qs max_age n t0 = Some (Inr s0)" and "n \<le> max_age * 1000000"
    and "summary_params qs" and "window_history qs (summary_obs ps)"
    and "summary_times_ok (length qs) t0 (ps @ [Summary_collect clock])"
    and "steady t0 (summary_end (length qs) t0 (ps @ [Summary_collect clock]))"
  shows "\<exists>s cs s'. fold_opt summary_step ps s0 = Some s \<and>
    Summary_Collect clock s = Some (empty_client_metric\<lparr>metric_summary :=
      \<lparr>summary_sample_count = of_nat (length (summary_obs ps)),
       summary_sample_sum = foldl dadd (Fin 0) (map snd (summary_obs ps)),
       summary_quantile = cs\<rparr>\<rparr>, s') \<and>
    map quantile_level cs = map q_quantile qs \<and>
    (\<forall>j<length cs. window_answer (duration_div (max_age * 1000000) n) (clock j) (nat n) (summary_obs ps) (quantile_value (cs ! j)))"
proof -
  define interval where "interval = duration_div (max_age * 1000000) n"
  have n: "0 < n" by (rule Summary_new_window(1) [OF assms(1)])
  have "rotation_interval (quantile_values s0) = interval"
    using Summary_new_window(5) [OF assms(1)] by (simp add: interval_def)
  moreover have "0 < interval"
    using n assms(2) by (simp add: interval_def duration_div_def pos_imp_zdiv_pos_iff)
  ultimately have rel: "summary_rel qs (nat n) interval t0 t0 [] s0"
    using summary_rel_new [OF assms(1)] by (simp add: interval_def)
  have times: "summary_times_ok (length qs) m (xs @ [Summary_collect clock]) \<longleftrightarrow>
      summary_times_ok (length qs) m xs \<and> clock_from (summary_end (length qs) m xs) (length qs) clock" for m xs
    by (induction "length qs" m xs rule: summary_times_ok.induct) auto
  have end_at: "summary_end (length qs) m (xs @ [Summary_collect clock]) =
      clock_end (summary_end (length qs) m xs) (length qs) clock" for m xs
    by (induction "length qs" m xs rule: summary_end.induct) auto
  have from_end: "clock_from (summary_end (length qs) t0 ps) (length qs) clock" using assms(5) times by blast
  have "steady t0 (summary_end (length qs) t0 ps)"
    using assms(5,6) times [of t0 ps] end_at [of t0 ps] summary_end_ge [of "length qs" t0 ps] clock_end_ge [OF from_end]
    by (auto intro: steady_mono)
  then obtain s where s: "fold_opt summary_step ps s0 = Some s"
      "summary_rel qs (nat n) interval t0 (summary_end (length qs) t0 ps) (summary_obs ps) s"
    using summary_run [OF assms(3) rel, of ps] assms(4,5) times by auto
  from s(1) summary_rel_Collect [OF s(2) from_end assms(4,3)] assms(6) show ?thesis
    unfolding interval_def end_at by blast
qed

end
