(* ===== verification/Family.thy ===== *)
theory Family
  imports CheckNames Histogram Summary
begin

text \<open>
  \<open>core/src/family.cc\<close>: a family of metrics of one type, one metric per set of labels, and
  the hash of \<open>detail/utils.cc\<close> and \<open>detail/hash.h\<close>. The class template is one model with the
  metric type as a dictionary: its type tag and its \<open>Collect\<close>. The unordered map is the list
  of its entries in iteration order, each with the address of the metric object; where \<open>emplace\<close>
  puts the new entry, and how a rehash moves the others, is the argument \<open>place\<close>. The mutex
  makes each call atomic. An operation that may throw returns the result and the state it
  leaves behind.
\<close>

unbundle bit_operations_syntax

subsection \<open>The hash of a set of labels\<close>

text \<open>\<open>std::hash<std::string>\<close> is the argument \<open>h\<close>; \<open>size_t\<close> has 64 bits.\<close>

definition hash_combine :: "(string \<Rightarrow> u64) \<Rightarrow> string \<Rightarrow> u64 \<Rightarrow> u64" where
  "hash_combine h value seed = seed XOR (h value + 0x9e3779b9 + push_bit 6 seed + drop_bit 2 seed)"

definition LabelHasher :: "(string \<Rightarrow> u64) \<Rightarrow> label_map \<Rightarrow> u64" where
  "LabelHasher h labels = fold (\<lambda>(k, v) seed. hash_combine h v (hash_combine h k seed)) labels 0"

subsection \<open>The code\<close>

record 'm metric_class =
  class_type :: MetricType
  class_collect :: "(nat \<Rightarrow> int) \<Rightarrow> 'm \<Rightarrow> (client_metric \<times> 'm) option"

definition counter_class :: "counter metric_class" where
  "counter_class = \<lparr>class_type = Counter, class_collect = (\<lambda>clock c. Some (Counter_Collect c, c))\<rparr>"

definition gauge_class :: "gauge metric_class" where
  "gauge_class = \<lparr>class_type = Gauge, class_collect = (\<lambda>clock g. Some (Gauge_Collect g, g))\<rparr>"

definition info_class :: "info metric_class" where
  "info_class = \<lparr>class_type = Info, class_collect = (\<lambda>clock i. Some (Info_Collect i, i))\<rparr>"

definition histogram_class :: "histogram metric_class" where
  "histogram_class =
     \<lparr>class_type = Histogram, class_collect = (\<lambda>clock h. map_option (\<lambda>c. (c, h)) (Histogram_Collect h))\<rparr>"

definition summary_class :: "summary metric_class" where
  "summary_class = \<lparr>class_type = Summary, class_collect = Summary_Collect\<rparr>"

type_synonym 'm entry = "label_map \<times> nat \<times> 'm"

abbreviation entry_labels :: "'m entry \<Rightarrow> label_map" where
  "entry_labels e \<equiv> fst e"

abbreviation entry_addr :: "'m entry \<Rightarrow> nat" where
  "entry_addr e \<equiv> fst (snd e)"

abbreviation entry_object :: "'m entry \<Rightarrow> 'm" where
  "entry_object e \<equiv> snd (snd e)"

record 'm family =
  fam_metrics :: "'m entry list"
  fam_name :: string
  fam_help :: string
  fam_constant_labels :: label_map

definition Family_new ::
    "'m metric_class \<Rightarrow> string \<Rightarrow> string \<Rightarrow> label_map \<Rightarrow> cpp_exception + 'm family" where
  "Family_new cls name help constant_labels =
     (let f = \<lparr>fam_metrics = [], fam_name = name, fam_help = help, fam_constant_labels = constant_labels\<rparr>
      in if \<not> CheckMetricName (fam_name f) then Inl (invalid_argument ''Invalid metric name'')
         else if list_ex (\<lambda>(k, v). \<not> CheckLabelName k (class_type cls)) (fam_constant_labels f)
         then Inl (invalid_argument ''Invalid label name'')
         else Inr f)"

definition find_entry :: "label_map \<Rightarrow> 'm family \<Rightarrow> 'm entry option" where
  "find_entry labels f = find (\<lambda>e. entry_labels e = labels) (fam_metrics f)"

text \<open>The loop of \<open>Add\<close> over the labels: the message of the first problem.\<close>

fun add_check :: "MetricType \<Rightarrow> label_map \<Rightarrow> label_map \<Rightarrow> string option" where
  "add_check t clabels [] = None"
| "add_check t clabels ((k, v) # labels) =
     (if \<not> CheckLabelName k t then Some ''Invalid label name''
      else if labels_count clabels k \<noteq> 0 then Some ''Duplicate label name''
      else add_check t clabels labels)"

definition Family_Add_object ::
    "('m entry list \<Rightarrow> 'm entry \<Rightarrow> 'm entry list) \<Rightarrow> 'm metric_class \<Rightarrow> label_map \<Rightarrow> nat \<Rightarrow> 'm \<Rightarrow>
     'm family \<Rightarrow> (cpp_exception + nat) \<times> 'm family" where
  "Family_Add_object place cls labels addr object f =
     (case find_entry labels f of
        Some e \<Rightarrow> (Inr (entry_addr e), f)
      | None \<Rightarrow>
          (let f = f\<lparr>fam_metrics := place (fam_metrics f) (labels, addr, object)\<rparr> in
           case add_check (class_type cls) (fam_constant_labels f) labels of
             Some msg \<Rightarrow>
               (Inl (invalid_argument msg),
                f\<lparr>fam_metrics := filter (\<lambda>e. entry_labels e \<noteq> labels) (fam_metrics f)\<rparr>)
           | None \<Rightarrow> (Inr addr, f)))"

text \<open>The template: \<open>made\<close> is the result of the metric's constructor, called first.\<close>

definition Family_Add ::
    "('m entry list \<Rightarrow> 'm entry \<Rightarrow> 'm entry list) \<Rightarrow> 'm metric_class \<Rightarrow> label_map \<Rightarrow> nat \<Rightarrow>
     (cpp_exception + 'm) \<Rightarrow> 'm family \<Rightarrow> (cpp_exception + nat) \<times> 'm family" where
  "Family_Add place cls labels addr made f =
     (case made of
        Inl e \<Rightarrow> (Inl e, f)
      | Inr object \<Rightarrow> Family_Add_object place cls labels addr object f)"

fun remove_first :: "('a \<Rightarrow> bool) \<Rightarrow> 'a list \<Rightarrow> 'a list" where
  "remove_first P [] = []"
| "remove_first P (x # xs) = (if P x then xs else x # remove_first P xs)"

definition Family_Remove :: "nat \<Rightarrow> 'm family \<Rightarrow> 'm family" where
  "Family_Remove metric f = f\<lparr>fam_metrics := remove_first (\<lambda>e. entry_addr e = metric) (fam_metrics f)\<rparr>"

definition Family_Has :: "label_map \<Rightarrow> 'm family \<Rightarrow> bool" where
  "Family_Has labels f \<longleftrightarrow> find_entry labels f \<noteq> None"

definition Family_GetName :: "'m family \<Rightarrow> string" where
  "Family_GetName f = fam_name f"

definition Family_GetConstantLabels :: "'m family \<Rightarrow> label_map" where
  "Family_GetConstantLabels f = fam_constant_labels f"

definition to_labels :: "label_map \<Rightarrow> label list" where
  "to_labels ls = map (\<lambda>(k, v). \<lparr>label_name = k, label_value = v\<rparr>) ls"

definition CollectMetric :: "'m metric_class \<Rightarrow> (nat \<Rightarrow> int) \<Rightarrow> 'm family \<Rightarrow> label_map \<Rightarrow> 'm \<Rightarrow>
    (client_metric \<times> 'm) option" where
  "CollectMetric cls clock f labels metric =
     map_option (\<lambda>(c, m).
       (c\<lparr>metric_label := metric_label c @ to_labels (fam_constant_labels f) @ to_labels labels\<rparr>, m))
     (class_collect cls clock metric)"

text \<open>\<open>clock a\<close> are the readings of the clock while the metric at address \<open>a\<close> is collected.
  A summary's estimators change when they are read, hence the second result.\<close>

definition Family_Collect :: "'m metric_class \<Rightarrow> (nat \<Rightarrow> nat \<Rightarrow> int) \<Rightarrow> 'm family \<Rightarrow>
    (metric_family list \<times> 'm family) option" where
  "Family_Collect cls clock f =
     (if fam_metrics f = [] then Some ([], f)
      else do {
        cs \<leftarrow> map_opt (\<lambda>(labels, a, m). map_option (\<lambda>(c, m). (c, (labels, a, m)))
               (CollectMetric cls (clock a) f labels m)) (fam_metrics f);
        Some ([\<lparr>family_name = fam_name f, family_help = fam_help f, family_type = class_type cls,
                family_metric = map fst cs\<rparr>],
              f\<lparr>fam_metrics := map snd cs\<rparr>)
      })"

text \<open>An operation of the metric object at address \<open>a\<close>, called through its reference.\<close>

definition Family_touch :: "nat \<Rightarrow> ('m \<Rightarrow> 'm) \<Rightarrow> 'm family \<Rightarrow> 'm family" where
  "Family_touch a g f =
     f\<lparr>fam_metrics := map (\<lambda>(l, b, m). (l, b, if b = a then g m else m)) (fam_metrics f)\<rparr>"

subsection \<open>Invariant\<close>

definition labels_valid :: "MetricType \<Rightarrow> label_map \<Rightarrow> bool" where
  "labels_valid t ls \<longleftrightarrow> wf_labels ls \<and> (\<forall>k\<in>fst ` set ls. CheckLabelName k t)"

definition disjoint_keys :: "label_map \<Rightarrow> label_map \<Rightarrow> bool" where
  "disjoint_keys ls ms \<longleftrightarrow> fst ` set ls \<inter> fst ` set ms = {}"

definition family_ok :: "'m metric_class \<Rightarrow> 'm family \<Rightarrow> bool" where
  "family_ok cls f \<longleftrightarrow>
     CheckMetricName (fam_name f) \<and> labels_valid (class_type cls) (fam_constant_labels f) \<and>
     distinct (map entry_labels (fam_metrics f)) \<and> distinct (map entry_addr (fam_metrics f)) \<and>
     (\<forall>e\<in>set (fam_metrics f). labels_valid (class_type cls) (entry_labels e) \<and>
        disjoint_keys (fam_constant_labels f) (entry_labels e) \<and> entry_addr e \<noteq> 0)"

lemma family_ok_new [wf_intros]:
  "Family_new cls name help ls = Inr f \<Longrightarrow> wf_labels ls \<Longrightarrow> family_ok cls f"
  by (auto simp: Family_new_def family_ok_def labels_valid_def Let_def list_ex_iff split: if_splits)

lemma add_check_None:
  "add_check t clabels ls = None \<longleftrightarrow>
     (\<forall>k\<in>fst ` set ls. CheckLabelName k t) \<and> disjoint_keys clabels ls"
proof (induction ls)
  case (Cons p ls)
  then show ?case
    using labels_count_pos [of clabels "fst p"] by (cases p) (auto simp: disjoint_keys_def)
qed (simp add: disjoint_keys_def)

lemma find_entry_Some: "find_entry ls f = Some e \<Longrightarrow> e \<in> set (fam_metrics f) \<and> entry_labels e = ls"
  by (auto simp: find_entry_def dest: find_Some_in_set)

lemma find_entry_None: "find_entry ls f = None \<longleftrightarrow> ls \<notin> entry_labels ` set (fam_metrics f)"
  by (force simp: find_entry_def find_None_iff)

lemma set_remove_first: "set (remove_first P xs) \<subseteq> set xs"
  by (induction xs) auto

lemma distinct_remove_first: "distinct (map f xs) \<Longrightarrow> distinct (map f (remove_first P xs))"
  using set_remove_first by (induction xs) fastforce+

text \<open>What a place for a new entry must do: add it and keep the others.\<close>

definition places :: "('m entry list \<Rightarrow> 'm entry \<Rightarrow> 'm entry list) \<Rightarrow> bool" where
  "places place \<longleftrightarrow> (\<forall>es e. mset (place es e) = add_mset e (mset es))"

lemma distinct_map_mset: "mset xs = mset ys \<Longrightarrow> distinct (map g xs) \<longleftrightarrow> distinct (map g ys)"
  by (rule mset_eq_imp_distinct_iff) (simp add: mset_map)

lemma places_set: "places place \<Longrightarrow> set (place es e) = insert e (set es)"
  unfolding places_def by (metis set_mset_add_mset_insert set_mset_mset)

lemma places_distinct:
  "places place \<Longrightarrow> distinct (map g (place es e)) \<longleftrightarrow> distinct (map g (e # es))"
  by (rule distinct_map_mset) (unfold places_def mset.simps, blast)

lemma places_filter:
  assumes "places place" and "\<not> P e" and "\<forall>x\<in>set es. P x"
  shows "mset (filter P (place es e)) = mset es"
proof -
  have "mset (filter P (place es e)) = filter_mset P (mset (place es e))" by simp
  also have "mset (place es e) = add_mset e (mset es)" using assms(1) unfolding places_def by blast
  also have "filter_mset P (add_mset e (mset es)) = mset es"
    using assms(2,3) by (simp add: filter_mset_eq_conv)
  finally show ?thesis .
qed

text \<open>Two states of a family that differ in the iteration order only.\<close>

definition same_family :: "'m family \<Rightarrow> 'm family \<Rightarrow> bool" where
  "same_family f g \<longleftrightarrow> mset (fam_metrics f) = mset (fam_metrics g) \<and>
     fam_name f = fam_name g \<and> fam_help f = fam_help g \<and> fam_constant_labels f = fam_constant_labels g"

lemma same_family_refl [simp]: "same_family f f"
  by (simp add: same_family_def)

lemma family_ok_same: "same_family f g \<Longrightarrow> family_ok cls f \<Longrightarrow> family_ok cls g"
proof -
  assume s: "same_family f g" and ok: "family_ok cls f"
  have m: "mset (fam_metrics g) = mset (fam_metrics f)" using s by (simp add: same_family_def)
  have "set (fam_metrics g) = set (fam_metrics f)" using m by (metis set_mset_mset)
  then show ?thesis
    using s ok distinct_map_mset [OF m, of entry_labels] distinct_map_mset [OF m, of entry_addr]
    by (simp add: family_ok_def same_family_def)
qed

lemma fresh_not_found:
  "find_entry ls f = None \<Longrightarrow> \<forall>e\<in>set (fam_metrics f). entry_labels e \<noteq> ls"
  by (auto simp: find_entry_None)

text \<open>Every branch of \<open>Add\<close>: an existing set of labels gives its metric, a problem leaves the
  entries as they were, a new set of labels is entered.\<close>

lemma Family_Add_object_cases:
  assumes "places place" and "Family_Add_object place cls ls addr object f = (r, f')"
  shows "case find_entry ls f of
      Some e \<Rightarrow> r = Inr (entry_addr e) \<and> f' = f
    | None \<Rightarrow>
        (case add_check (class_type cls) (fam_constant_labels f) ls of
           Some msg \<Rightarrow> r = Inl (invalid_argument msg) \<and> same_family f' f
         | None \<Rightarrow> r = Inr addr \<and> f' = f\<lparr>fam_metrics := place (fam_metrics f) (ls, addr, object)\<rparr>)"
  using assms places_filter [OF assms(1), of "\<lambda>e. entry_labels e \<noteq> ls" "(ls, addr, object)" "fam_metrics f"]
  by (auto simp: Family_Add_object_def Let_def same_family_def fresh_not_found split: option.splits)

lemma family_ok_Add:
  assumes "family_ok cls f" and "places place" and "wf_labels ls"
    and "addr \<noteq> 0" and "addr \<notin> entry_addr ` set (fam_metrics f)"
    and "Family_Add place cls ls addr made f = (r, f')"
  shows "family_ok cls f'"
proof (cases made)
  case Inl
  then show ?thesis using assms(1,6) by (simp add: Family_Add_def)
next
  case (Inr object)
  then have add: "Family_Add_object place cls ls addr object f = (r, f')"
    using assms(6) by (simp add: Family_Add_def)
  note branch = Family_Add_object_cases [OF assms(2) add]
  show ?thesis
  proof (cases "find_entry ls f")
    case (Some e)
    then show ?thesis using branch assms(1) by simp
  next
    case None
    show ?thesis
    proof (cases "add_check (class_type cls) (fam_constant_labels f) ls")
      case (Some msg)
      then show ?thesis using branch None assms(1) family_ok_same [of f f' cls]
        by (simp add: same_family_def)
    next
      case ok: None
      have "distinct (map entry_labels (place (fam_metrics f) (ls, addr, object)))"
        "distinct (map entry_addr (place (fam_metrics f) (ls, addr, object)))"
        using assms(1,5) None
        by (simp_all add: places_distinct [OF assms(2)] family_ok_def find_entry_None)
      then show ?thesis
        using branch None ok assms(1,3,4) places_set [OF assms(2)]
        by (auto simp: family_ok_def labels_valid_def add_check_None)
    qed
  qed
qed

lemma family_ok_Remove: "family_ok cls f \<Longrightarrow> family_ok cls (Family_Remove p f)"
  using set_remove_first [of "\<lambda>e. entry_addr e = p" "fam_metrics f"]
  by (auto simp: family_ok_def Family_Remove_def distinct_remove_first subset_eq)

lemma family_ok_touch: "family_ok cls f \<Longrightarrow> family_ok cls (Family_touch a g f)"
proof -
  let ?t = "\<lambda>(l, b, m). (l, b, if b = a then g m else m)"
  have "entry_labels \<circ> ?t = entry_labels" "entry_addr \<circ> ?t = entry_addr" by (auto simp: fun_eq_iff)
  then show "family_ok cls f \<Longrightarrow> family_ok cls (Family_touch a g f)"
    by (auto simp: family_ok_def Family_touch_def)
qed

subsection \<open>Collecting\<close>

text \<open>
  What a serializer or a scraper may rely on in every family it is given: valid names, at least
  one metric, no label name twice in a metric, and no two metrics with the same labels.
\<close>

definition wf_metric_family :: "metric_family \<Rightarrow> bool" where
  "wf_metric_family mf \<longleftrightarrow> CheckMetricName (family_name mf) \<and> family_metric mf \<noteq> [] \<and>
     distinct (map metric_label (family_metric mf)) \<and>
     (\<forall>c\<in>set (family_metric mf). distinct (map label_name (metric_label c)) \<and>
        (\<forall>l\<in>set (metric_label c). CheckLabelName (label_name l) (family_type mf)))"

text \<open>The interface \<open>Collectable\<close>: an invariant of the object, and what \<open>Collect\<close> then returns.\<close>

locale collectable =
  fixes collect :: "'env \<Rightarrow> 's \<Rightarrow> (metric_family list \<times> 's) option"
    and inv :: "'s \<Rightarrow> bool"
  assumes collect_inv: "inv s \<Longrightarrow> collect env s = Some (fs, s') \<Longrightarrow> inv s'"
    and collect_wf: "inv s \<Longrightarrow> collect env s = Some (fs, s') \<Longrightarrow> mf \<in> set fs \<Longrightarrow> wf_metric_family mf"

text \<open>What the family needs of a metric class: its \<open>Collect\<close> sets no labels of its own.\<close>

locale exposed_metric =
  fixes cls :: "'m metric_class"
  assumes collect_plain: "class_collect cls clock m = Some (c, m') \<Longrightarrow> metric_label c = []"
begin

lemma CollectMetric_labels:
  "CollectMetric cls clock f ls m = Some (c, m') \<Longrightarrow>
   metric_label c = to_labels (fam_constant_labels f) @ to_labels ls"
  using collect_plain by (auto simp: CollectMetric_def)

lemma Family_Collect_shape:
  assumes "Family_Collect cls clock f = Some (fs, f')"
  shows "map entry_labels (fam_metrics f') = map entry_labels (fam_metrics f) \<and>
    map entry_addr (fam_metrics f') = map entry_addr (fam_metrics f) \<and>
    f' = f\<lparr>fam_metrics := fam_metrics f'\<rparr> \<and>
    (if fam_metrics f = [] then fs = []
     else \<exists>ms. fs = [\<lparr>family_name = fam_name f, family_help = fam_help f, family_type = class_type cls,
            family_metric = ms\<rparr>] \<and>
          map metric_label ms =
            map (\<lambda>e. to_labels (fam_constant_labels f) @ to_labels (entry_labels e)) (fam_metrics f))"
proof (cases "fam_metrics f = []")
  case True
  then show ?thesis using assms by (simp add: Family_Collect_def)
next
  case False
  let ?body = "\<lambda>(labels, a, m). map_option (\<lambda>(c, m). (c, (labels, a, m)))
    (CollectMetric cls (clock a) f labels m)"
  obtain cs where cs: "map_opt ?body (fam_metrics f) = Some cs"
    and fs: "fs = [\<lparr>family_name = fam_name f, family_help = fam_help f, family_type = class_type cls,
        family_metric = map fst cs\<rparr>]" and f': "f' = f\<lparr>fam_metrics := map snd cs\<rparr>"
    using assms False by (auto simp: Family_Collect_def bind_eq_Some_conv)
  have all: "list_all2 (\<lambda>e r. ?body e = Some r) (fam_metrics f) cs" using cs by (simp add: map_opt_Some)
  have "list_all2 (\<lambda>e r. entry_labels (snd r) = entry_labels e \<and> entry_addr (snd r) = entry_addr e \<and>
      metric_label (fst r) = to_labels (fam_constant_labels f) @ to_labels (entry_labels e)) (fam_metrics f) cs"
    by (rule list_all2_mono [OF all]) (auto dest: CollectMetric_labels)
  then have "map (\<lambda>r. entry_labels (snd r)) cs = map entry_labels (fam_metrics f)"
    "map (\<lambda>r. entry_addr (snd r)) cs = map entry_addr (fam_metrics f)"
    "map (\<lambda>r. metric_label (fst r)) cs =
       map (\<lambda>e. to_labels (fam_constant_labels f) @ to_labels (entry_labels e)) (fam_metrics f)"
    by (induction rule: list_all2_induct) simp_all
  then show ?thesis using False fs f' by (simp add: comp_def)
qed

end

lemma inj_to_labels: "to_labels ls = to_labels ms \<Longrightarrow> ls = ms"
proof -
  have "map (\<lambda>l. (label_name l, label_value l)) (to_labels ls) = ls" for ls
    by (simp add: to_labels_def comp_def case_prod_beta)
  then show "to_labels ls = to_labels ms \<Longrightarrow> ls = ms" by metis
qed

lemma names_to_labels: "map label_name (to_labels ls) = map fst ls"
  by (simp add: to_labels_def comp_def case_prod_beta)

lemma set_names_to_labels: "label_name ` set (to_labels ls) = fst ` set ls"
  using arg_cong [OF names_to_labels [of ls], of set] by simp

lemma wf_collected_metric:
  assumes "labels_valid t cl" and "labels_valid t ls" and "disjoint_keys cl ls"
  shows "distinct (map label_name (to_labels cl @ to_labels ls)) \<and>
    (\<forall>l\<in>set (to_labels cl @ to_labels ls). CheckLabelName (label_name l) t)"
proof
  show "distinct (map label_name (to_labels cl @ to_labels ls))"
    using assms wf_labels_distinct
    by (auto simp: names_to_labels labels_valid_def disjoint_keys_def)
  have "CheckLabelName k t" if "k \<in> label_name ` set (to_labels cl @ to_labels ls)" for k
    using that assms(1,2) by (auto simp: image_Un set_names_to_labels labels_valid_def)
  then show "\<forall>l\<in>set (to_labels cl @ to_labels ls). CheckLabelName (label_name l) t" by blast
qed

text \<open>The invariant only speaks of the names, labels and addresses.\<close>

lemma family_ok_keys:
  assumes "family_ok cls f" and l: "map entry_labels (fam_metrics f') = map entry_labels (fam_metrics f)"
    and a: "map entry_addr (fam_metrics f') = map entry_addr (fam_metrics f)"
    and rest: "f' = f\<lparr>fam_metrics := fam_metrics f'\<rparr>"
  shows "family_ok cls f'"
proof -
  have len: "length (fam_metrics f') = length (fam_metrics f)" using arg_cong [OF l, of length] by simp
  have nth: "entry_labels (fam_metrics f' ! i) = entry_labels (fam_metrics f ! i)"
    "entry_addr (fam_metrics f' ! i) = entry_addr (fam_metrics f ! i)" if "i < length (fam_metrics f)" for i
    using arg_cong [OF l, of "\<lambda>xs. xs ! i"] arg_cong [OF a, of "\<lambda>xs. xs ! i"] that len by simp_all
  have fields: "fam_name f' = fam_name f" "fam_constant_labels f' = fam_constant_labels f"
    by (subst rest, simp)+
  show ?thesis
    using assms(1) l a len nth unfolding family_ok_def fields by (simp add: all_set_conv_all_nth)
qed

lemma distinct_collected:
  "distinct (map entry_labels es) \<Longrightarrow> distinct (map (\<lambda>e. to_labels cl @ to_labels (entry_labels e)) es)"
  by (induction es) (auto dest: inj_to_labels)

text \<open>A family reported with the labels of its metrics is well formed.\<close>

lemma wf_metric_familyI:
  assumes "family_ok cls f" and "fam_metrics f \<noteq> []" and ms: "map metric_label ms =
      map (\<lambda>e. to_labels (fam_constant_labels f) @ to_labels (entry_labels e)) (fam_metrics f)"
  shows "wf_metric_family \<lparr>family_name = fam_name f, family_help = fam_help f, family_type = class_type cls, family_metric = ms\<rparr>"
proof -
  have "ms \<noteq> []" using ms assms(2) by auto
  moreover have "distinct (map metric_label ms)"
    unfolding ms using assms(1) by (intro distinct_collected) (simp add: family_ok_def)
  moreover have "distinct (map label_name (metric_label c)) \<and>
      (\<forall>l\<in>set (metric_label c). CheckLabelName (label_name l) (class_type cls))" if "c \<in> set ms" for c
  proof -
    have "metric_label c \<in> set (map metric_label ms)" using that by simp
    then obtain e where "e \<in> set (fam_metrics f)"
      "metric_label c = to_labels (fam_constant_labels f) @ to_labels (entry_labels e)"
      unfolding ms by auto
    then show ?thesis using wf_collected_metric assms(1) by (auto simp: family_ok_def simp del: map_append)
  qed
  ultimately show ?thesis using assms(1) by (simp add: wf_metric_family_def family_ok_def)
qed

context exposed_metric begin

lemma Family_Collect_ok:
  assumes "family_ok cls f" and "Family_Collect cls clock f = Some (fs, f')"
  shows "family_ok cls f'"
  using Family_Collect_shape [OF assms(2)] by (intro family_ok_keys [OF assms(1)]) blast+

lemma Family_Collect_wf:
  assumes "family_ok cls f" and "Family_Collect cls clock f = Some (fs, f')" and "mf \<in> set fs"
  shows "wf_metric_family mf"
proof (cases "fam_metrics f = []")
  case True
  then show ?thesis using Family_Collect_shape [OF assms(2)] assms(3) by simp
next
  case False
  then show ?thesis using Family_Collect_shape [OF assms(2)] assms(3) wf_metric_familyI [OF assms(1) False] by auto
qed

end

sublocale exposed_metric \<subseteq> collectable "Family_Collect cls" "family_ok cls"
  by unfold_locales (fact Family_Collect_ok, fact Family_Collect_wf)

lemma plain_collects [simp]:
  "metric_label (Counter_Collect c) = []" "metric_label (Gauge_Collect g) = []"
  "metric_label (Info_Collect i) = []"
  "Histogram_Collect h = Some hc \<Longrightarrow> metric_label hc = []"
  "Summary_Collect clock s = Some (sc, s') \<Longrightarrow> metric_label sc = []"
  by (auto simp: Counter_Collect_def Gauge_Collect_def Info_Collect_def Histogram_Collect_def
      Summary_Collect_def empty_client_metric_def bind_eq_Some_conv)

interpretation counters: exposed_metric counter_class
  by unfold_locales (auto simp: counter_class_def)

interpretation gauges: exposed_metric gauge_class
  by unfold_locales (auto simp: gauge_class_def)

interpretation infos: exposed_metric info_class
  by unfold_locales (auto simp: info_class_def)

interpretation histograms: exposed_metric histogram_class
  by unfold_locales (auto simp: histogram_class_def)

interpretation summaries: exposed_metric summary_class
  by unfold_locales (auto simp: summary_class_def)

subsection \<open>Histories of a family\<close>

inductive family_step :: "'m metric_class \<Rightarrow> 'm family \<Rightarrow> 'm family \<Rightarrow> bool"
  for cls :: "'m metric_class" where
  add: "places place \<Longrightarrow> wf_labels ls \<Longrightarrow> addr \<noteq> 0 \<Longrightarrow> addr \<notin> entry_addr ` set (fam_metrics f) \<Longrightarrow>
    Family_Add place cls ls addr made f = (r, f') \<Longrightarrow> family_step cls f f'"
| remove: "family_step cls f (Family_Remove p f)"
| touch: "family_step cls f (Family_touch a g f)"
| collect: "Family_Collect cls clock f = Some (fs, f') \<Longrightarrow> family_step cls f f'"

inductive family_reachable :: "'m metric_class \<Rightarrow> 'm family \<Rightarrow> 'm family \<Rightarrow> bool"
  for cls :: "'m metric_class" and f0 :: "'m family" where
  start: "family_reachable cls f0 f0"
| step: "family_reachable cls f0 f \<Longrightarrow> family_step cls f f' \<Longrightarrow> family_reachable cls f0 f'"

context exposed_metric begin

lemma family_ok_step: "family_step cls f f' \<Longrightarrow> family_ok cls f \<Longrightarrow> family_ok cls f'"
  by (induction rule: family_step.induct)
    (auto intro: family_ok_Add family_ok_Remove family_ok_touch Family_Collect_ok)

lemma family_reachable_ok:
  "family_reachable cls f0 f \<Longrightarrow> family_ok cls f0 \<Longrightarrow> family_ok cls f"
  by (induction rule: family_reachable.induct) (auto intro: family_ok_step)

end

lemma family_step_const:
  "family_step cls f f' \<Longrightarrow> fam_name f' = fam_name f \<and> fam_constant_labels f' = fam_constant_labels f"
  by (induction rule: family_step.induct)
    (auto simp: Family_Add_def Family_Add_object_def Let_def Family_Remove_def Family_touch_def
      Family_Collect_def bind_eq_Some_conv split: sum.splits option.splits if_splits)

subsection \<open>Properties\<close>

lemma remove_first_filter:
  "distinct (map g xs) \<Longrightarrow> remove_first (\<lambda>x. g x = p) xs = filter (\<lambda>x. g x \<noteq> p) xs"
proof (induction xs)
  case (Cons x xs)
  have "g x \<notin> g ` set xs" using Cons.prems by simp
  then have "\<forall>y\<in>set xs. g y \<noteq> g x" by (metis imageI)
  then have "filter (\<lambda>y. g y \<noteq> g x) xs = xs" by (rule filter_True)
  then show ?case using Cons by auto
qed simp

definition demo_family :: "counter family" where
  "demo_family = \<lparr>fam_metrics = [], fam_name = ''requests'', fam_help = '''',
     fam_constant_labels = [(''host'', ''a'')]\<rparr>"

lemma append_places: "places (\<lambda>es e. es @ [e])"
  by (simp add: places_def)

text \<open>C13: \<open>Add\<close> on every branch: an exception of the metric's constructor leaves the family
  alone; an existing set of labels returns the existing metric; a valid new set of labels, with
  no name of a constant label, is entered and returned; otherwise an exception says whether a
  name is invalid or duplicate, and the family is as before.\<close>

theorem family_add_spec:
  assumes "places place"
  shows "case made of
      Inl e \<Rightarrow> Family_Add place cls ls addr made f = (Inl e, f)
    | Inr object \<Rightarrow>
        (case find_entry ls f of
           Some e \<Rightarrow> Family_Add place cls ls addr made f = (Inr (entry_addr e), f)
         | None \<Rightarrow>
             (\<exists>f'. if \<forall>k\<in>fst ` set ls. CheckLabelName k (class_type cls) \<and> k \<notin> fst ` set (fam_constant_labels f)
               then Family_Add place cls ls addr made f = (Inr addr, f') \<and> Family_Has ls f' \<and>
                 mset (fam_metrics f') = add_mset (ls, addr, object) (mset (fam_metrics f))
               else (\<exists>msg\<in>{''Invalid label name'', ''Duplicate label name''}.
                 Family_Add place cls ls addr made f = (Inl (invalid_argument msg), f')) \<and> same_family f' f))"
proof (cases made)
  case Inl
  then show ?thesis by (simp add: Family_Add_def)
next
  case (Inr object)
  obtain r f' where add: "Family_Add_object place cls ls addr object f = (r, f')" by fastforce
  note branch = Family_Add_object_cases [OF assms add]
  have msgs: "add_check t cl ls = Some msg \<Longrightarrow> msg \<in> {''Invalid label name'', ''Duplicate label name''}" for t cl msg
    by (induction ls) (auto split: if_splits)
  have has: "Family_Has ls (f\<lparr>fam_metrics := place (fam_metrics f) (ls, addr, object)\<rparr>)"
    using places_set [OF assms, of "fam_metrics f" "(ls, addr, object)"]
    by (force simp: Family_Has_def find_entry_None)
  have placed: "mset (place (fam_metrics f) (ls, addr, object)) = add_mset (ls, addr, object) (mset (fam_metrics f))"
    using assms unfolding places_def by blast
  have none: "add_check (class_type cls) (fam_constant_labels f) ls = None \<longleftrightarrow>
      (\<forall>k\<in>fst ` set ls. CheckLabelName k (class_type cls) \<and> k \<notin> fst ` set (fam_constant_labels f))"
    unfolding add_check_None disjoint_keys_def by blast
  show ?thesis
  proof (cases "find_entry ls f")
    case (Some e)
    then show ?thesis using Inr add branch by (simp add: Family_Add_def)
  next
    case None
    show ?thesis
    proof (cases "add_check (class_type cls) (fam_constant_labels f) ls")
      case ok: None
      then show ?thesis using Inr None add branch has placed none by (simp add: Family_Add_def)
    next
      case (Some msg)
      then have "\<not> (\<forall>k\<in>fst ` set ls. CheckLabelName k (class_type cls) \<and> k \<notin> fst ` set (fam_constant_labels f))"
        using none by simp
      moreover have "Family_Add place cls ls addr made f = (Inl (invalid_argument msg), f')" "same_family f' f"
        using Inr None Some add branch by (simp_all add: Family_Add_def)
      ultimately show ?thesis using Inr None msgs [OF Some] by (simp only: sum.case option.case if_False) blast
    qed
  qed
qed

theorem family_add_spec_witness:
  "\<exists>f'. Family_Add (\<lambda>es e. es @ [e]) counter_class [(''path'', ''/'')] 7 (Inr Counter_default) demo_family = (Inr 7, f') \<and>
     Family_Has [(''path'', ''/'')] f'"
proof -
  have "CheckLabelName ''path'' Counter" by code_simp
  then show ?thesis
    using family_add_spec [OF append_places, where made = "Inr Counter_default" and cls = counter_class and
        ls = "[(''path'', ''/'')]" and addr = 7 and f = demo_family]
    by (auto simp: demo_family_def counter_class_def find_entry_def)
qed

text \<open>Removing the metric that a successful \<open>Add\<close> of new labels returned gives the family
  as it was before, whatever the other entries are; removing an unknown pointer changes nothing.\<close>

theorem family_add_remove:
  assumes "places place" and "family_ok cls f" and "addr \<notin> entry_addr ` set (fam_metrics f)"
    and "\<not> Family_Has ls f" and "Family_Add place cls ls addr made f = (Inr a, f')"
  shows "Family_Has ls f' \<and> same_family (Family_Remove a f') f \<and> Family_Remove addr f = f"
proof -
  obtain object where made: "made = Inr object"
    using assms(5) by (cases made) (simp_all add: Family_Add_def)
  have none: "find_entry ls f = None" using assms(4) unfolding Family_Has_def by blast
  have add: "Family_Add_object place cls ls addr object f = (Inr a, f')"
    using assms(5) made by (simp add: Family_Add_def)
  let ?g = "f\<lparr>fam_metrics := place (fam_metrics f) (ls, addr, object)\<rparr>"
  have f': "a = addr" "f' = ?g"
    using Family_Add_object_cases [OF assms(1) add] none by (auto split: option.splits)
  have "distinct (map entry_addr (place (fam_metrics f) (ls, addr, object)))"
    using assms(2,3) by (simp add: places_distinct [OF assms(1)] family_ok_def)
  then have "mset (fam_metrics (Family_Remove a f')) = mset (fam_metrics f)"
    using places_filter [OF assms(1), of "\<lambda>e. entry_addr e \<noteq> addr" "(ls, addr, object)" "fam_metrics f"] assms(3) f'
    by (auto simp: Family_Remove_def remove_first_filter)
  moreover have "Family_Has ls f'"
    using places_set [OF assms(1), of "fam_metrics f" "(ls, addr, object)"] f'
    by (force simp: Family_Has_def find_entry_None)
  moreover have "Family_Remove addr f = f"
    using assms(2,3) by (auto simp: Family_Remove_def family_ok_def remove_first_filter filter_id_conv intro!: family.equality)
  ultimately show ?thesis using f' by (simp add: same_family_def Family_Remove_def)
qed

theorem family_add_remove_witness:
  "\<exists>f'. Family_Add (\<lambda>es e. es @ [e]) counter_class [] 7 (Inr Counter_default) demo_family = (Inr 7, f') \<and>
     same_family (Family_Remove 7 f') demo_family"
proof -
  have ok: "family_ok counter_class demo_family"
  proof -
    have "CheckMetricName ''requests''" "CheckLabelName ''host'' Counter" by code_simp+
    then show ?thesis
      by (simp add: family_ok_def demo_family_def labels_valid_def wf_labels_def counter_class_def)
  qed
  let ?f = "demo_family\<lparr>fam_metrics := [([], 7, Counter_default)]\<rparr>"
  have add: "Family_Add (\<lambda>es e. es @ [e]) counter_class [] 7 (Inr Counter_default) demo_family = (Inr 7, ?f)"
    by (simp add: Family_Add_def Family_Add_object_def demo_family_def find_entry_def)
  from family_add_remove [OF append_places ok _ _ add] add show ?thesis
    by (auto simp: demo_family_def Family_Has_def find_entry_def)
qed

end
