(* ===== verification/FamilyMap.thy ===== *)
theory FamilyMap
  imports Family
begin

text \<open>
  What a family promises to its callers: it is a finite map from label sets to metrics. The
  model of \<open>Family\<close> keeps the order in which the hash table is iterated, and a new entry goes to
  any place in it; here the same calls are made on the map itself, with no order and no places,
  and every answer and every state of the code's family is shown to be that of the map.
\<close>

subsection \<open>Calls and answers\<close>

datatype 'm family_call = Call_Add label_map nat "cpp_exception + 'm" | Call_Remove nat | Call_Has label_map
  | Call_touch nat "'m \<Rightarrow> 'm" | Call_Collect "nat \<Rightarrow> nat \<Rightarrow> int"

datatype family_answer = Added "cpp_exception + nat" | Found bool | Done | Collected "metric_family list" | Undefined

fun family_do :: "'m metric_class \<Rightarrow> ('m entry list \<Rightarrow> 'm entry \<Rightarrow> 'm entry list) \<Rightarrow> 'm family_call \<Rightarrow> 'm family \<Rightarrow>
    family_answer \<times> 'm family" where
  "family_do cls place (Call_Add labels addr made) f =
     (case Family_Add place cls labels addr made f of (r, f') \<Rightarrow> (Added r, f'))"
| "family_do cls place (Call_Remove metric) f = (Done, Family_Remove metric f)"
| "family_do cls place (Call_Has labels) f = (Found (Family_Has labels f), f)"
| "family_do cls place (Call_touch a g) f = (Done, Family_touch a g f)"
| "family_do cls place (Call_Collect clock) f =
     (case Family_Collect cls clock f of None \<Rightarrow> (Undefined, f) | Some (fs, f') \<Rightarrow> (Collected fs, f'))"

fun family_run :: "'m metric_class \<Rightarrow> (('m entry list \<Rightarrow> 'm entry \<Rightarrow> 'm entry list) \<times> 'm family_call) list \<Rightarrow>
    'm family \<Rightarrow> family_answer list \<times> 'm family" where
  "family_run cls [] f = ([], f)"
| "family_run cls ((place, call) # calls) f =
     (case family_do cls place call f of (ans, f1) \<Rightarrow>
        case family_run cls calls f1 of (answers, f2) \<Rightarrow> (ans # answers, f2))"

text \<open>A new object has an address of its own.\<close>

fun call_ok :: "'m family_call \<Rightarrow> 'm family \<Rightarrow> bool" where
  "call_ok (Call_Add labels addr made) f \<longleftrightarrow> wf_labels labels \<and> addr \<noteq> 0 \<and> addr \<notin> entry_addr ` set (fam_metrics f)"
| "call_ok call f \<longleftrightarrow> True"

fun calls_ok :: "'m metric_class \<Rightarrow> (('m entry list \<Rightarrow> 'm entry \<Rightarrow> 'm entry list) \<times> 'm family_call) list \<Rightarrow>
    'm family \<Rightarrow> bool" where
  "calls_ok cls [] f \<longleftrightarrow> True"
| "calls_ok cls ((place, call) # calls) f \<longleftrightarrow>
     places place \<and> call_ok call f \<and> calls_ok cls calls (snd (family_do cls place call f))"

subsection \<open>The map\<close>

record 'm family_spec =
  spec_metrics :: "label_map \<rightharpoonup> nat \<times> 'm"
  spec_name :: string
  spec_help :: string
  spec_constant_labels :: label_map

text \<open>What a scrape shows of a family: nothing when it is empty, otherwise its name, help and type
  and its metrics in no order.\<close>

datatype spec_answer = Spec_Added "cpp_exception + nat" | Spec_Found bool | Spec_Done | Spec_Undefined
  | Spec_Collected "(string \<times> string \<times> MetricType \<times> client_metric multiset) option"

text \<open>Collecting the metric at \<open>ls\<close>.\<close>

definition spec_collect_at :: "'m metric_class \<Rightarrow> (nat \<Rightarrow> nat \<Rightarrow> int) \<Rightarrow> 'm family_spec \<Rightarrow> label_map \<Rightarrow>
    (client_metric \<times> nat \<times> 'm) option" where
  "spec_collect_at cls clock s ls =
     (case spec_metrics s ls of
        None \<Rightarrow> None
      | Some (a, m) \<Rightarrow> map_option (\<lambda>(c, m).
          (c\<lparr>metric_label := metric_label c @ to_labels (spec_constant_labels s) @ to_labels ls\<rparr>, a, m))
          (class_collect cls (clock a) m))"

fun spec_do :: "'m metric_class \<Rightarrow> 'm family_call \<Rightarrow> 'm family_spec \<Rightarrow> spec_answer \<times> 'm family_spec" where
  "spec_do cls (Call_Add labels addr made) s =
     (case made of
        Inl e \<Rightarrow> (Spec_Added (Inl e), s)
      | Inr object \<Rightarrow>
          (case spec_metrics s labels of
             Some (a, m) \<Rightarrow> (Spec_Added (Inr a), s)
           | None \<Rightarrow>
               (case add_check (class_type cls) (spec_constant_labels s) labels of
                  Some msg \<Rightarrow> (Spec_Added (Inl (invalid_argument msg)), s)
                | None \<Rightarrow> (Spec_Added (Inr addr), s\<lparr>spec_metrics := (spec_metrics s)(labels \<mapsto> (addr, object))\<rparr>))))"
| "spec_do cls (Call_Remove metric) s =
     (Spec_Done, s\<lparr>spec_metrics := (\<lambda>ls. case spec_metrics s ls of
        None \<Rightarrow> None | Some (a, m) \<Rightarrow> if a = metric then None else Some (a, m))\<rparr>)"
| "spec_do cls (Call_Has labels) s = (Spec_Found (spec_metrics s labels \<noteq> None), s)"
| "spec_do cls (Call_touch a g) s =
     (Spec_Done, s\<lparr>spec_metrics := (\<lambda>ls. case spec_metrics s ls of
        None \<Rightarrow> None | Some (b, m) \<Rightarrow> Some (b, if b = a then g m else m))\<rparr>)"
| "spec_do cls (Call_Collect clock) s =
     (let D = dom (spec_metrics s) in
      if D = {} then (Spec_Collected None, s)
      else if \<exists>ls\<in>D. spec_collect_at cls clock s ls = None then (Spec_Undefined, s)
      else (Spec_Collected (Some (spec_name s, spec_help s, class_type cls,
              image_mset (\<lambda>ls. fst (the (spec_collect_at cls clock s ls))) (mset_set D))),
            s\<lparr>spec_metrics := (\<lambda>ls. map_option snd (spec_collect_at cls clock s ls))\<rparr>))"

fun spec_run :: "'m metric_class \<Rightarrow> 'm family_call list \<Rightarrow> 'm family_spec \<Rightarrow> spec_answer list \<times> 'm family_spec" where
  "spec_run cls [] s = ([], s)"
| "spec_run cls (call # calls) s =
     (case spec_do cls call s of (ans, s1) \<Rightarrow> case spec_run cls calls s1 of (answers, s2) \<Rightarrow> (ans # answers, s2))"

subsection \<open>The map of a family\<close>

definition family_abs :: "'m family \<Rightarrow> 'm family_spec" where
  "family_abs f = \<lparr>spec_metrics = map_of (fam_metrics f), spec_name = fam_name f, spec_help = fam_help f,
     spec_constant_labels = fam_constant_labels f\<rparr>"

fun answer_abs :: "family_answer \<Rightarrow> spec_answer" where
  "answer_abs (Added r) = Spec_Added r"
| "answer_abs (Found b) = Spec_Found b"
| "answer_abs Done = Spec_Done"
| "answer_abs Undefined = Spec_Undefined"
| "answer_abs (Collected []) = Spec_Collected None"
| "answer_abs (Collected (mf # mfs)) =
     (if mfs = [] then Spec_Collected (Some (family_name mf, family_help mf, family_type mf, mset (family_metric mf)))
      else Spec_Undefined)"

lemma family_ok_distinct: "family_ok cls f \<Longrightarrow> distinct (map fst (fam_metrics f)) \<and> distinct (map entry_addr (fam_metrics f))"
  by (simp add: family_ok_def)

lemma map_of_mset_eq: "mset xs = mset ys \<Longrightarrow> distinct (map fst xs) \<Longrightarrow> map_of xs = map_of ys"
proof -
  assume m: "mset xs = mset ys" and d: "distinct (map fst xs)"
  have "distinct (map fst ys)" using d distinct_map_mset [OF m, of fst] by blast
  moreover have "set xs = set ys" using m by (rule mset_eq_setD)
  ultimately show ?thesis using d by (simp add: map_of_inject_set)
qed

lemma family_abs_same: "same_family f g \<Longrightarrow> family_ok cls f \<Longrightarrow> family_abs f = family_abs g"
  using map_of_mset_eq family_ok_distinct by (fastforce simp: same_family_def family_abs_def)

lemma find_entry_map_of:
  "find_entry labels f = map_option (Pair labels) (map_of (fam_metrics f) labels)"
proof -
  have "find (\<lambda>e. entry_labels e = labels) es = map_option (Pair labels) (map_of es labels)" for es :: "'a entry list"
    by (induction es) auto
  then show ?thesis by (simp add: find_entry_def)
qed

lemma map_of_filter_addr:
  "distinct (map fst es) \<Longrightarrow> map_of (filter (\<lambda>e. entry_addr e \<noteq> p) es) =
     (\<lambda>ls. case map_of es ls of None \<Rightarrow> None | Some (a, m) \<Rightarrow> if a = p then None else Some (a, m))"
proof (induction es)
  case (Cons e es)
  obtain l a m where e: "e = (l, a, m)" by (cases e) auto
  have "map_of es l = None" using Cons.prems e by (simp add: map_of_eq_None_iff)
  then show ?case using Cons e by (auto simp: fun_eq_iff)
qed (simp add: fun_eq_iff)

lemma map_of_touch:
  "map_of (map (\<lambda>(l, b, m). (l, b, if b = a then g m else m)) es) =
     (\<lambda>ls. case map_of es ls of None \<Rightarrow> None | Some (b, m) \<Rightarrow> Some (b, if b = a then g m else m))"
  by (induction es) (auto simp: fun_eq_iff)

subsection \<open>One call\<close>

lemma Add_refines:
  assumes "places place" and "family_ok cls f"
    and "addr \<notin> entry_addr ` set (fam_metrics f)" and "Family_Add place cls labels addr made f = (r, f')"
  shows "spec_do cls (Call_Add labels addr made) (family_abs f) = (Spec_Added r, family_abs f')"
proof (cases made)
  case Inl
  then show ?thesis using assms(4) by (simp add: Family_Add_def)
next
  case (Inr object)
  then have add: "Family_Add_object place cls labels addr object f = (r, f')" using assms(4) by (simp add: Family_Add_def)
  note branch = Family_Add_object_cases [OF assms(1) add]
  show ?thesis
  proof (cases "find_entry labels f")
    case (Some e)
    then show ?thesis using branch Inr by (auto simp: find_entry_map_of family_abs_def)
  next
    case None
    then have none: "map_of (fam_metrics f) labels = None" by (simp add: find_entry_map_of)
    show ?thesis
    proof (cases "add_check (class_type cls) (fam_constant_labels f) labels")
      case (Some msg)
      then have "r = Inl (invalid_argument msg)" "same_family f f'" using branch None by (auto simp: same_family_def)
      then show ?thesis using Inr none Some family_abs_same [OF _ assms(2)] by (simp add: family_abs_def)
    next
      case ok: None
      have "mset (place (fam_metrics f) (labels, addr, object)) = mset ((labels, addr, object) # fam_metrics f)"
        using assms(1) by (simp add: places_def)
      moreover have "distinct (map fst ((labels, addr, object) # fam_metrics f))"
        using none family_ok_distinct [OF assms(2)] by (simp add: map_of_eq_None_iff)
      ultimately have "map_of (place (fam_metrics f) (labels, addr, object)) = (map_of (fam_metrics f))(labels \<mapsto> (addr, object))"
        using map_of_mset_eq by (metis map_of.simps(2) prod.sel)
      then show ?thesis using branch None ok Inr none by (simp add: family_abs_def)
    qed
  qed
qed

text \<open>Collecting all metrics in some order is collecting each of them.\<close>

definition collect_entry :: "'m metric_class \<Rightarrow> (nat \<Rightarrow> nat \<Rightarrow> int) \<Rightarrow> 'm family \<Rightarrow> 'm entry \<Rightarrow> (client_metric \<times> 'm entry) option" where
  "collect_entry cls clock f = (\<lambda>(labels, a, m). map_option (\<lambda>(c, m). (c, (labels, a, m)))
     (CollectMetric cls (clock a) f labels m))"

lemma map_opt_None: "map_opt h xs = None \<longleftrightarrow> (\<exists>x\<in>set xs. h x = None)"
  by (induction xs) (auto split: option.splits)

lemma map_opt_the: "map_opt h xs = Some ys \<Longrightarrow> ys = map (\<lambda>x. the (h x)) xs"
  by (induction xs arbitrary: ys) (auto split: option.splits)

lemma map_of_map_entry:
  "map_of (map (\<lambda>e. (fst e, F e)) es) ls = map_option (\<lambda>v. F (ls, v)) (map_of es ls)"
  by (induction es) auto

lemma collect_entry_at:
  assumes "family_ok cls f" and "e \<in> set (fam_metrics f)"
  shows "spec_collect_at cls clock (family_abs f) (fst e) = map_option (\<lambda>r. (fst r, snd (snd r))) (collect_entry cls clock f e)"
proof -
  have "map_of (fam_metrics f) (fst e) = Some (snd e)"
    using assms family_ok_distinct [OF assms(1)] by (metis map_of_is_SomeI prod.collapse)
  then show ?thesis
    by (cases e; cases "class_collect cls (clock (entry_addr e)) (entry_object e)")
      (auto simp: spec_collect_at_def family_abs_def collect_entry_def CollectMetric_def)
qed

lemma dom_family_abs: "dom (spec_metrics (family_abs f)) = fst ` set (fam_metrics f)"
  by (simp add: family_abs_def dom_map_of_conv_image_fst)

lemma Collect_refines:
  assumes "family_ok cls f"
  shows "spec_do cls (Call_Collect clock) (family_abs f) =
    (case Family_Collect cls clock f of
       None \<Rightarrow> (Spec_Undefined, family_abs f)
     | Some (fs, f') \<Rightarrow> (answer_abs (Collected fs), family_abs f'))"
proof (cases "fam_metrics f = []")
  case True
  then show ?thesis by (simp add: Family_Collect_def family_abs_def)
next
  case False
  let ?es = "fam_metrics f" and ?at = "spec_collect_at cls clock (family_abs f)" and ?in = "collect_entry cls clock f"
  have dom: "dom (spec_metrics (family_abs f)) = fst ` set ?es" "fst ` set ?es \<noteq> {}"
    using False by (simp_all add: dom_family_abs)
  have None: "(\<exists>ls\<in>fst ` set ?es. ?at ls = None) \<longleftrightarrow> map_opt ?in ?es = None"
    by (simp add: map_opt_None collect_entry_at [OF assms] cong: bex_cong)
  have code: "Family_Collect cls clock f = Option.bind (map_opt ?in ?es) (\<lambda>cs. Some ([\<lparr>family_name = fam_name f,
      family_help = fam_help f, family_type = class_type cls, family_metric = map fst cs\<rparr>], f\<lparr>fam_metrics := map snd cs\<rparr>))"
    using False by (simp add: Family_Collect_def collect_entry_def)
  show ?thesis
  proof (cases "map_opt ?in ?es")
    case None: None
    then show ?thesis using \<open>(\<exists>ls\<in>fst ` set ?es. ?at ls = None) \<longleftrightarrow> _\<close> dom code by (simp add: Let_def)
  next
    case (Some cs)
    have defd: "\<exists>r. ?in e = Some r" if "e \<in> set ?es" for e
    proof -
      have "?in e \<noteq> None" using Some that map_opt_None [of ?in ?es] by force
      then show ?thesis by blast
    qed
    have cs: "cs = map (\<lambda>e. the (?in e)) ?es" using Some by (rule map_opt_the)
    have at: "?at (fst e) = Some (fst (the (?in e)), snd (snd (the (?in e))))" and labels: "fst (snd (the (?in e))) = fst e"
      if e: "e \<in> set ?es" for e
    proof -
      obtain r where r: "?in e = Some r" using defd [OF e] ..
      show "?at (fst e) = Some (fst (the (?in e)), snd (snd (the (?in e))))"
        unfolding collect_entry_at [OF assms e] r by simp
      show "fst (snd (the (?in e))) = fst e" using r by (cases e) (auto simp: collect_entry_def)
    qed
    have "mset (map fst cs) = mset (map (\<lambda>e. fst (the (?at (fst e)))) ?es)"
      unfolding cs by (intro arg_cong [where f = mset]) (simp add: at)
    also have "\<dots> = image_mset (\<lambda>ls. fst (the (?at ls))) (mset (map fst ?es))" by (simp add: multiset.map_comp comp_def)
    also have "mset (map fst ?es) = mset_set (fst ` set ?es)"
      using family_ok_distinct [OF assms] by (metis list.set_map mset_set_set)
    finally have bag: "mset (map fst cs) = image_mset (\<lambda>ls. fst (the (?at ls))) (mset_set (fst ` set ?es))" .
    have "map snd cs = map (\<lambda>e. (fst e, snd (snd (the (?in e))))) ?es"
      unfolding cs by (simp add: prod_eq_iff labels)
    then have "map_of (map snd cs) ls = map_option snd (?at ls)" for ls
    proof (cases "map_of ?es ls")
      case (Some v)
      then have "(ls, v) \<in> set ?es" by (rule map_of_SomeD)
      then show ?thesis using Some at [of "(ls, v)"] \<open>map snd cs = _\<close> by (simp add: map_of_map_entry)
    next
      case None
      then show ?thesis using \<open>map snd cs = _\<close> by (simp add: map_of_map_entry spec_collect_at_def family_abs_def)
    qed
    then have upd: "family_abs (f\<lparr>fam_metrics := map snd cs\<rparr>) = (family_abs f)\<lparr>spec_metrics := \<lambda>ls. map_option snd (?at ls)\<rparr>"
      by (simp add: family_abs_def fun_eq_iff)
    have "\<not> (\<exists>ls\<in>fst ` set ?es. ?at ls = None)" using None Some by simp
    then show ?thesis using dom code Some bag upd by (simp add: Let_def) (simp add: family_abs_def)
  qed
qed

lemma Collect_keeps_ok:
  assumes "family_ok cls f" and "Family_Collect cls clock f = Some (fs, f')"
  shows "family_ok cls f'"
proof (cases "fam_metrics f = []")
  case False
  let ?in = "collect_entry cls clock f"
  obtain cs where cs: "map_opt ?in (fam_metrics f) = Some cs" and f': "f' = f\<lparr>fam_metrics := map snd cs\<rparr>"
    using assms(2) False unfolding collect_entry_def by (auto simp: Family_Collect_def bind_eq_Some_conv)
  have "list_all2 (\<lambda>e r. entry_labels (snd r) = entry_labels e \<and> entry_addr (snd r) = entry_addr e) (fam_metrics f) cs"
    using cs unfolding map_opt_Some by (rule list_all2_mono) (auto simp: collect_entry_def)
  then have "map entry_labels (map snd cs) = map entry_labels (fam_metrics f)"
    "map entry_addr (map snd cs) = map entry_addr (fam_metrics f)"
    by (induction rule: list_all2_induct) simp_all
  then show ?thesis using f' by (intro family_ok_keys [OF assms(1)]) simp_all
qed (use assms in \<open>simp add: Family_Collect_def\<close>)

lemma Remove_refines:
  assumes "family_ok cls f"
  shows "spec_do cls (Call_Remove p) (family_abs f) = (Spec_Done, family_abs (Family_Remove p f))"
proof -
  have d: "distinct (map entry_addr (fam_metrics f))" "distinct (map fst (fam_metrics f))"
    using family_ok_distinct [OF assms] by auto
  show ?thesis
    unfolding family_abs_def Family_Remove_def remove_first_filter [OF d(1)] by (simp add: map_of_filter_addr [OF d(2)])
qed

lemma family_do_refines:
  assumes "family_ok cls f" and "places place" and "call_ok call f" and "family_do cls place call f = (ans, f')"
  shows "spec_do cls call (family_abs f) = (answer_abs ans, family_abs f') \<and> family_ok cls f'"
proof (cases call)
  case (Call_Add labels addr made)
  obtain r g where add: "Family_Add place cls labels addr made f = (r, g)" by fastforce
  then have "ans = Added r" "f' = g" using assms(4) Call_Add by auto
  moreover have "wf_labels labels" "addr \<noteq> 0" "addr \<notin> entry_addr ` set (fam_metrics f)" using assms(3) Call_Add by auto
  ultimately show ?thesis
    using Add_refines [OF assms(2,1) _ add] family_ok_Add [OF assms(1,2) _ _ _ add] Call_Add by simp
next
  case (Call_Remove p)
  then show ?thesis using assms(1,4) Remove_refines [OF assms(1)] family_ok_Remove [OF assms(1)] by auto
next
  case (Call_Has labels)
  then show ?thesis using assms(1,4) by (auto simp: Family_Has_def find_entry_map_of family_abs_def)
next
  case (Call_touch a g)
  then have "ans = Done" "f' = Family_touch a g f" using assms(4) by auto
  then show ?thesis
    using Call_touch family_ok_touch [OF assms(1)] map_of_touch [of a g "fam_metrics f"]
    by (simp add: family_abs_def Family_touch_def)
next
  case (Call_Collect clock)
  show ?thesis
  proof (cases "Family_Collect cls clock f")
    case None
    then show ?thesis using Call_Collect assms(1,4) Collect_refines [OF assms(1), of clock] by auto
  next
    case (Some r)
    then show ?thesis
      using Call_Collect assms(4) Collect_refines [OF assms(1), of clock] Collect_keeps_ok [OF assms(1)] by (cases r) auto
  qed
qed

lemma family_refines_map_run:
  assumes "family_ok cls f" and "calls_ok cls calls f" and "family_run cls calls f = (answers, f')"
  shows "spec_run cls (map snd calls) (family_abs f) = (map answer_abs answers, family_abs f') \<and> family_ok cls f'"
  using assms
proof (induction calls arbitrary: f f' answers)
  case (Cons pc calls)
  obtain place call where pc: "pc = (place, call)" by fastforce
  obtain ans g where one: "family_do cls place call f = (ans, g)" by fastforce
  obtain answers1 h where rest: "family_run cls calls g = (answers1, h)" by fastforce
  have "places place" "call_ok call f" "calls_ok cls calls g" using Cons.prems(2) pc one by auto
  then have step: "spec_do cls call (family_abs f) = (answer_abs ans, family_abs g)" "family_ok cls g"
    using family_do_refines [OF Cons.prems(1) _ _ one] by auto
  have "answers = ans # answers1" "f' = h" using Cons.prems(3) pc one rest by auto
  then show ?case using Cons.IH [OF step(2) \<open>calls_ok cls calls g\<close> rest] step pc by simp
qed simp

subsection \<open>Properties\<close>

text \<open>C14: A family is a finite map from label sets to metrics: whatever calls are made on a family,
  with whatever iteration order of its hash table, every answer (the metric returned by \<open>Add\<close>, its
  exceptions, \<open>Has\<close>, the metrics collected, as a multiset) and the state are those of the same
  calls on the map, in which there is no order.\<close>

theorem family_refines_map:
  assumes "family_ok cls f" and "calls_ok cls calls f" and "family_run cls calls f = (answers, f')"
  shows "spec_run cls (map snd calls) (family_abs f) = (map answer_abs answers, family_abs f') \<and> family_ok cls f'"
  using family_refines_map_run [OF assms] .

definition demo_calls :: "((counter entry list \<Rightarrow> counter entry \<Rightarrow> counter entry list) \<times> counter family_call) list" where
  "demo_calls = [(\<lambda>es e. e # es, Call_Add [(''path'', ''/'')] 7 (Inr Counter_default)),
     (\<lambda>es e. e # es, Call_Has [(''path'', ''/'')]), (\<lambda>es e. e # es, Call_Remove 7), (\<lambda>es e. e # es, Call_Has [(''path'', ''/'')])]"

theorem family_refines_map_witness:
  "fst (spec_run counter_class (map snd demo_calls) (family_abs demo_family)) =
     [Spec_Added (Inr 7), Spec_Found True, Spec_Done, Spec_Found False]"
proof -
  have 1: "family_ok counter_class demo_family" by code_simp
  have 2: "calls_ok counter_class demo_calls demo_family"
    by (simp add: demo_calls_def places_def demo_family_def Family_Add_def Family_Add_object_def find_entry_def wf_labels_def)
  obtain answers f' where run: "family_run counter_class demo_calls demo_family = (answers, f')" by fastforce
  have "fst (family_run counter_class demo_calls demo_family) = [Added (Inr 7), Found True, Done, Found False]" by code_simp
  then have "answers = [Added (Inr 7), Found True, Done, Found False]" using run by simp
  then show ?thesis using family_refines_map [OF 1 2 run] by simp
qed

end
