(* ===== verification/FamilyConcurrent.thy ===== *)
theory FamilyConcurrent
  imports Guarded FamilyMap
begin

text \<open>
  Threads that add, look up and remove metrics of one family, statement by statement. \<open>Add\<close> puts
  the new entry into the hash table before it looks at the labels, and takes it out again when it
  refuses them: only the mutex hides the entry from the other threads. The calls are shown to be
  those of \<open>Family\<close>, one after the other, hence those of the map of \<open>FamilyMap\<close>. What a program needs
  of it is that all threads that ask for the same labels get the same metric.
\<close>

subsection \<open>The statements\<close>

text \<open>The constructor of the metric has run, with the result \<open>made\<close>, when \<open>Add\<close> takes the mutex.\<close>

datatype 'm member_call = Add_metric "'m entry list \<Rightarrow> 'm entry \<Rightarrow> 'm entry list" label_map nat "cpp_exception + 'm"
  | Remove_metric nat | Has_labels label_map

text \<open>The local variables: an iterator is the address of the metric of its entry, or \<open>end()\<close>.\<close>

record family_local =
  fl_it :: "nat option"
  fl_inserted :: bool
  fl_thrown :: "cpp_exception option"
  fl_answer :: family_answer

definition family_init :: family_local where
  "family_init = \<lparr>fl_it = None, fl_inserted = False, fl_thrown = None, fl_answer = Done\<rparr>"

type_synonym 'm family_statement = "'m family \<times> family_local \<Rightarrow> 'm family \<times> family_local"

definition emplace_metric :: "('m entry list \<Rightarrow> 'm entry \<Rightarrow> 'm entry list) \<Rightarrow> label_map \<Rightarrow> nat \<Rightarrow> 'm \<Rightarrow> 'm family_statement" where
  "emplace_metric place labels addr object = (\<lambda>(f, l).
     case find_entry labels f of
       Some e \<Rightarrow> (f, l\<lparr>fl_it := Some (entry_addr e), fl_inserted := False\<rparr>)
     | None \<Rightarrow> (f\<lparr>fam_metrics := place (fam_metrics f) (labels, addr, object)\<rparr>,
         l\<lparr>fl_it := Some addr, fl_inserted := True\<rparr>))"

definition erase_entry :: "label_map \<Rightarrow> 'm family \<Rightarrow> 'm family" where
  "erase_entry labels f = f\<lparr>fam_metrics := filter (\<lambda>e. entry_labels e \<noteq> labels) (fam_metrics f)\<rparr>"

text \<open>One round of the loop over the labels.\<close>

definition check_label :: "'m metric_class \<Rightarrow> label_map \<Rightarrow> string \<times> string \<Rightarrow> 'm family_statement" where
  "check_label cls labels lab = (\<lambda>(f, l).
     if \<not> fl_inserted l \<or> fl_thrown l \<noteq> None then (f, l)
     else if \<not> CheckLabelName (fst lab) (class_type cls)
     then (erase_entry labels f, l\<lparr>fl_thrown := Some (invalid_argument ''Invalid label name'')\<rparr>)
     else if labels_count (fam_constant_labels f) (fst lab) \<noteq> 0
     then (erase_entry labels f, l\<lparr>fl_thrown := Some (invalid_argument ''Duplicate label name'')\<rparr>)
     else (f, l))"

definition return_metric :: "'m family_statement" where
  "return_metric = (\<lambda>(f, l). (f, l\<lparr>fl_answer := Added (case fl_thrown l of Some e \<Rightarrow> Inl e | None \<Rightarrow> Inr (the (fl_it l)))\<rparr>))"

definition find_metric :: "nat \<Rightarrow> 'm family_statement" where
  "find_metric metric = (\<lambda>(f, l). (f, l\<lparr>fl_it := map_option entry_addr (find (\<lambda>e. entry_addr e = metric) (fam_metrics f))\<rparr>))"

definition erase_found :: "'m family_statement" where
  "erase_found = (\<lambda>(f, l). case fl_it l of None \<Rightarrow> (f, l)
     | Some p \<Rightarrow> (f\<lparr>fam_metrics := remove_first (\<lambda>e. entry_addr e = p) (fam_metrics f)\<rparr>, l))"

definition count_labels :: "label_map \<Rightarrow> 'm family_statement" where
  "count_labels labels = (\<lambda>(f, l). (f, l\<lparr>fl_answer := Found (find_entry labels f \<noteq> None)\<rparr>))"

fun family_code :: "'m metric_class \<Rightarrow> 'm member_call \<Rightarrow> family_local + 'm family_statement list" where
  "family_code cls (Add_metric place labels addr made) =
     (case made of
        Inl e \<Rightarrow> Inl (family_init\<lparr>fl_answer := Added (Inl e)\<rparr>)
      | Inr object \<Rightarrow> Inr (emplace_metric place labels addr object # map (check_label cls labels) labels @ [return_metric]))"
| "family_code cls (Remove_metric metric) = Inr [find_metric metric, erase_found]"
| "family_code cls (Has_labels labels) = Inr [count_labels labels]"

text \<open>The operations of the sequential model.\<close>

fun as_call :: "'m member_call \<Rightarrow> ('m entry list \<Rightarrow> 'm entry \<Rightarrow> 'm entry list) \<times> 'm family_call" where
  "as_call (Add_metric place labels addr made) = (place, Call_Add labels addr made)"
| "as_call (Remove_metric metric) = (\<lambda>es e. e # es, Call_Remove metric)"
| "as_call (Has_labels labels) = (\<lambda>es e. e # es, Call_Has labels)"

definition member_spec :: "'m metric_class \<Rightarrow> 'm member_call \<Rightarrow> 'm family \<Rightarrow> 'm family \<times> family_answer" where
  "member_spec cls c f = prod.swap (family_do cls (fst (as_call c)) (snd (as_call c)) f)"

subsection \<open>The statements do what the operations do\<close>

lemma check_labels_skip:
  "\<not> fl_inserted l \<or> fl_thrown l \<noteq> None \<Longrightarrow> run_statements (map (check_label cls labels) ls) (f, l) = (f, l)"
  by (induction ls) (auto simp: check_label_def)

lemma check_labels_run:
  "fl_inserted l \<Longrightarrow> fl_thrown l = None \<Longrightarrow>
   run_statements (map (check_label cls labels) ls) (f, l) =
     (case add_check (class_type cls) (fam_constant_labels f) ls of
        None \<Rightarrow> (f, l)
      | Some msg \<Rightarrow> (erase_entry labels f, l\<lparr>fl_thrown := Some (invalid_argument msg)\<rparr>))"
proof (induction ls)
  case (Cons lab ls)
  have skip: "run_statements (map (check_label cls labels) ls) (g, l\<lparr>fl_thrown := Some e\<rparr>) = (g, l\<lparr>fl_thrown := Some e\<rparr>)" for g e
    by (rule check_labels_skip) simp
  have step: "check_label cls labels (k, v) (f, l) =
      (if \<not> CheckLabelName k (class_type cls)
       then (erase_entry labels f, l\<lparr>fl_thrown := Some (invalid_argument ''Invalid label name'')\<rparr>)
       else if labels_count (fam_constant_labels f) k \<noteq> 0
       then (erase_entry labels f, l\<lparr>fl_thrown := Some (invalid_argument ''Duplicate label name'')\<rparr>)
       else (f, l))" for k v
    using Cons.prems by (simp add: check_label_def)
  show ?case using Cons.IH [OF Cons.prems] by (cases lab) (simp add: step skip)
qed simp

lemma add_statements:
  "\<exists>l'. run_statements (emplace_metric place labels addr object # map (check_label cls labels) labels @ [return_metric]) (f, family_init) =
     (fst (member_spec cls (Add_metric place labels addr (Inr object)) f), l') \<and>
   fl_answer l' = snd (member_spec cls (Add_metric place labels addr (Inr object)) f)"
proof (cases "find_entry labels f")
  case (Some e)
  then show ?thesis
    by (simp add: emplace_metric_def check_labels_skip return_metric_def family_init_def member_spec_def
        Family_Add_def Family_Add_object_def)
next
  case None
  then show ?thesis
    by (cases "add_check (class_type cls) (fam_constant_labels f) labels")
      (simp_all add: emplace_metric_def check_labels_run return_metric_def family_init_def member_spec_def
        Family_Add_def Family_Add_object_def erase_entry_def)
qed

lemma remove_first_absent: "find P xs = None \<Longrightarrow> remove_first P xs = xs"
  by (induction xs) (auto split: if_splits)

lemma remove_statements:
  "\<exists>l'. run_statements [find_metric p, erase_found] (f, family_init) = (fst (member_spec cls (Remove_metric p) f), l') \<and>
   fl_answer l' = snd (member_spec cls (Remove_metric p) f)"
proof (cases "find (\<lambda>e. entry_addr e = p) (fam_metrics f)")
  case None
  then show ?thesis
    by (simp add: find_metric_def erase_found_def member_spec_def Family_Remove_def remove_first_absent family_init_def)
next
  case (Some e)
  then have "entry_addr e = p" by (auto dest: find_Some_in_set)
  then show ?thesis
    using Some by (simp add: find_metric_def erase_found_def member_spec_def Family_Remove_def family_init_def)
qed

lemma member_run_spec:
  assumes "family_code cls c = Inr ms"
  shows "member_spec cls c f = apsnd fl_answer (run_statements ms (f, family_init))"
proof (cases c)
  case (Add_metric place labels addr made)
  then obtain object where "made = Inr object" "ms = emplace_metric place labels addr object # map (check_label cls labels) labels @ [return_metric]"
    using assms by (auto split: sum.splits)
  then show ?thesis using add_statements [of place labels addr object cls f] Add_metric
    by (metis apsnd_conv prod.collapse)
next
  case (Remove_metric p)
  then have "ms = [find_metric p, erase_found]" using assms by simp
  then show ?thesis using remove_statements [of p f cls] Remove_metric by (metis apsnd_conv prod.collapse)
next
  case (Has_labels labels)
  then show ?thesis using assms by (auto simp: count_labels_def member_spec_def Family_Has_def)
qed

lemma member_early_spec: "family_code cls c = Inl l \<Longrightarrow> member_spec cls c f = (f, fl_answer l)"
  by (cases c) (auto simp: member_spec_def Family_Add_def split: sum.splits)

interpretation members: guarded_object "family_code cls" family_init "member_spec cls" fl_answer "\<lambda>f. True"
  for cls :: "'m metric_class"
  by unfold_locales (simp_all add: member_early_spec member_run_spec)

subsection \<open>The calls that are over, on the map\<close>

text \<open>New metrics have addresses of their own, and the hash table keeps what it is given.\<close>

fun added_addrs :: "'m member_call \<Rightarrow> nat list" where
  "added_addrs (Add_metric place labels addr made) = [addr]"
| "added_addrs (Remove_metric p) = []"
| "added_addrs (Has_labels labels) = []"

fun proper_call :: "'m family \<Rightarrow> 'm member_call \<Rightarrow> bool" where
  "proper_call f (Add_metric place labels addr made) \<longleftrightarrow>
     places place \<and> wf_labels labels \<and> addr \<noteq> 0 \<and> addr \<notin> entry_addr ` set (fam_metrics f)"
| "proper_call f (Remove_metric p) \<longleftrightarrow> True"
| "proper_call f (Has_labels labels) \<longleftrightarrow> True"

lemma member_addrs:
  assumes "proper_call f0 c"
  shows "entry_addr ` set (fam_metrics (fst (member_spec cls c f))) \<subseteq> entry_addr ` set (fam_metrics f) \<union> set (added_addrs c)"
proof (cases c)
  case (Add_metric place labels addr made)
  then have "places place" using assms(1) by simp
  then show ?thesis
    using places_set [of place] Add_metric
    by (auto simp: member_spec_def Family_Add_def Family_Add_object_def Let_def split: sum.splits option.splits)
next
  case (Remove_metric p)
  then show ?thesis
    using set_remove_first [of "\<lambda>e. entry_addr e = p" "fam_metrics f"]
    by (auto simp: member_spec_def Family_Remove_def)
qed (simp add: member_spec_def)

lemma history_ok:
  "list_all (\<lambda>c. \<exists>f0. proper_call f0 c) cs \<Longrightarrow> distinct (concat (map added_addrs cs)) \<Longrightarrow>
   set (concat (map added_addrs cs)) \<inter> entry_addr ` set (fam_metrics f) = {} \<Longrightarrow> calls_ok cls (map as_call cs) f"
proof (induction cs arbitrary: f)
  case (Cons c cs)
  obtain f0 where c: "proper_call f0 c" using Cons.prems(1) by auto
  let ?f = "fst (member_spec cls c f)"
  have "set (concat (map added_addrs cs)) \<inter> entry_addr ` set (fam_metrics ?f) = {}"
  proof -
    have "set (added_addrs c) \<inter> set (concat (map added_addrs cs)) = {}"
      "set (concat (map added_addrs cs)) \<inter> entry_addr ` set (fam_metrics f) = {}"
      using Cons.prems(2,3) by auto
    then show ?thesis using member_addrs [OF c, of cls f] by blast
  qed
  then have "calls_ok cls (map as_call cs) ?f" using Cons.IH Cons.prems(1,2) by simp
  moreover have "places (fst (as_call c)) \<and> call_ok (snd (as_call c)) f"
    using c Cons.prems(3) by (cases c) (simp_all add: places_def)
  ultimately show ?case by (cases "as_call c") (simp add: member_spec_def)
qed simp

lemma replays_family_run:
  "replays (member_spec cls) f (answers_of fl_answer calls) y \<Longrightarrow>
   family_run cls (map as_call (calls_of calls)) f = (map (\<lambda>(i, c, l). fl_answer l) calls, y)"
proof (induction calls arbitrary: f)
  case (Cons p calls)
  obtain i c l where p: "p = (i, c, l)" by (cases p)
  obtain ans g where d: "family_do cls (fst (as_call c)) (snd (as_call c)) f = (ans, g)" by fastforce
  have m: "member_spec cls c f = (g, ans)" using d by (simp add: member_spec_def)
  have "ans = fl_answer l" "replays (member_spec cls) g (answers_of fl_answer calls) y"
    using Cons.prems p m by auto
  then show ?case using Cons.IH [of g] p d by (cases "as_call c") simp
qed simp

text \<open>On the map: a metric stays until it is removed, and until then \<open>Add\<close> returns it.\<close>

abbreviation metric_at :: "label_map \<Rightarrow> 'm family_spec \<Rightarrow> nat option" where
  "metric_at ls s \<equiv> map_option fst (spec_metrics s ls)"

lemma spec_do_keeps:
  "metric_at ls s = Some a \<Longrightarrow> call \<noteq> Call_Remove a \<Longrightarrow> metric_at ls (snd (spec_do cls call s)) = Some a"
proof (cases call)
  case (Call_Collect clock)
  moreover assume "metric_at ls s = Some a"
  then obtain m where m: "spec_metrics s ls = Some (a, m)" by auto
  then have "spec_collect_at cls clock s ls = Some r \<Longrightarrow> fst (snd r) = a" for r
    by (auto simp: spec_collect_at_def)
  moreover have dom: "ls \<in> dom (spec_metrics s)" using m by blast
  ultimately show ?thesis
  proof (cases "\<exists>ls\<in>dom (spec_metrics s). spec_collect_at cls clock s ls = None")
    case False
    then obtain r where r: "spec_collect_at cls clock s ls = Some r" using dom by (metis not_None_eq)
    then have "fst (snd r) = a" using m by (auto simp: spec_collect_at_def)
    moreover have "snd (spec_do cls call s) = s\<lparr>spec_metrics := \<lambda>ls. map_option snd (spec_collect_at cls clock s ls)\<rparr>"
      using Call_Collect False dom by (auto simp only: spec_do.simps Let_def if_False snd_conv split: if_splits)
    ultimately show ?thesis using r by simp
  qed (use Call_Collect m in \<open>auto simp: Let_def\<close>)
qed (auto split: sum.splits option.splits prod.splits)

lemma spec_run_keeps:
  "metric_at ls s = Some a \<Longrightarrow> Call_Remove a \<notin> set calls \<Longrightarrow> metric_at ls (snd (spec_run cls calls s)) = Some a"
proof (induction calls arbitrary: s)
  case (Cons call calls)
  then have "metric_at ls (snd (spec_do cls call s)) = Some a" by (intro spec_do_keeps) auto
  from Cons.IH [OF this] Cons.prems(2) show ?case by (simp add: case_prod_beta)
qed simp

lemma spec_run_append: "spec_run cls (xs @ ys) s =
    (fst (spec_run cls xs s) @ fst (spec_run cls ys (snd (spec_run cls xs s))), snd (spec_run cls ys (snd (spec_run cls xs s))))"
  by (induction xs arbitrary: s) (simp_all add: case_prod_beta)

lemma length_spec_run: "length (fst (spec_run cls calls s)) = length calls"
  by (induction calls arbitrary: s) (simp_all add: case_prod_beta)

lemma spec_add_enters:
  "fst (spec_do cls (Call_Add ls addr made) s) = Spec_Added (Inr a) \<Longrightarrow>
     metric_at ls (snd (spec_do cls (Call_Add ls addr made) s)) = Some a"
  by (auto split: sum.splits option.splits prod.splits)

lemma spec_metric_stays:
  assumes "spec_run cls (xs @ Call_Add ls addr made # ys) s = (answers, s')"
    and "answers ! length xs = Spec_Added (Inr a)" and "Call_Remove a \<notin> set ys"
  shows "metric_at ls s' = Some a"
proof -
  let ?d = "spec_do cls (Call_Add ls addr made) (snd (spec_run cls xs s))"
  have all: "answers = fst (spec_run cls xs s) @ fst ?d # fst (spec_run cls ys (snd ?d))" "s' = snd (spec_run cls ys (snd ?d))"
    using arg_cong [OF assms(1), of fst] arg_cong [OF assms(1), of snd]
    by (simp_all add: spec_run_append case_prod_beta del: spec_do.simps)
  have "fst ?d = Spec_Added (Inr a)"
    using assms(2) unfolding all by (simp add: nth_append length_spec_run del: spec_do.simps)
  then show ?thesis unfolding all(2) by (intro spec_run_keeps [OF spec_add_enters assms(3)])
qed

subsection \<open>Properties\<close>

lemma fresh_history:
  assumes "owned_once (proper_call f0) added_addrs prog" and "\<forall>i. made_by i calls @ in_section (phase i) @ rest i = prog i"
  shows "calls_ok cls (map as_call (calls_of calls)) f0"
proof -
  have "\<forall>i. \<exists>rest. made_by i calls @ rest = prog i" using assms(2) by blast
  note once = owned_once_history [OF assms(1) this]
  show ?thesis
  proof (rule history_ok)
    show "list_all (\<lambda>c. \<exists>f0. proper_call f0 c) (calls_of calls)" using once by (auto simp: list_all_iff)
    show "distinct (concat (map added_addrs (calls_of calls)))" using once by blast
    have "set (added_addrs c) \<inter> entry_addr ` set (fam_metrics f0) = {}" if "c \<in> set (calls_of calls)" for c
    proof -
      have "proper_call f0 c" using once that by (simp add: list_all_iff)
      then show ?thesis by (cases c) simp_all
    qed
    then show "set (concat (map added_addrs (calls_of calls))) \<inter> entry_addr ` set (fam_metrics f0) = {}" by auto
  qed
qed

lemma as_call_Remove: "snd (as_call c) = Call_Remove a \<longleftrightarrow> c = Remove_metric a"
  by (cases c) auto

lemma added_metric_stays:
  assumes "spec_run cls (map snd (map as_call (calls_of calls))) s = (map answer_abs (map (\<lambda>(i, c, l). fl_answer l) calls), s')"
    and "(i, Add_metric place ls addr made, l) \<in> set calls" and "fl_answer l = Added (Inr a)"
    and "Remove_metric a \<notin> set (calls_of calls)"
  shows "metric_at ls s' = Some a"
proof -
  obtain us vs where split: "calls = us @ (i, Add_metric place ls addr made, l) # vs" using split_list [OF assms(2)] by blast
  show ?thesis
  proof (rule spec_metric_stays)
    show "spec_run cls (map snd (map as_call (calls_of us)) @ Call_Add ls addr made # map snd (map as_call (calls_of vs))) s =
        (map answer_abs (map (\<lambda>(i, c, l). fl_answer l) calls), s')"
      using assms(1) unfolding split by simp
    show "map answer_abs (map (\<lambda>(i, c, l). fl_answer l) calls) ! length (map snd (map as_call (calls_of us))) = Spec_Added (Inr a)"
      by (simp add: split assms(3) nth_append calls_of_def)
    show "Call_Remove a \<notin> set (map snd (map as_call (calls_of vs)))"
      using assms(4) unfolding split by (auto simp: as_call_Remove dest: sym)
  qed
qed

text \<open>C10: Any number of threads that add, look up and remove metrics of one family, their statements
  interleaved in any way the mutex allows: every answer and the state are those of the same calls
  on the map from label sets to metrics, made one after the other in the order in which they
  ended; nobody sees the entry that a refused \<open>Add\<close> has put in and taken out; each thread makes its
  calls in its order and no two are inside at once; and two calls of \<open>Add\<close> with the same labels
  that return give the same metric, unless a thread has removed it. When the threads are finitely
  many, no schedule goes on forever or stops before every call has returned.\<close>

theorem family_concurrent:
  assumes "family_ok cls f0" and "owned_once (proper_call f0) added_addrs prog"
    and "(guarded_step (family_code cls) family_init)\<^sup>*\<^sup>* (guarded_start f0 prog) st"
  shows "(\<forall>i. made_by i (g_done st) @ in_section (g_phase st i) @ g_calls st i = prog i) \<and>
    (\<forall>i j. g_phase st i \<noteq> Outside \<and> g_phase st j \<noteq> Outside \<longrightarrow> i = j) \<and>
    (\<exists>f. family_ok cls f \<and> (\<not> g_locked st \<longrightarrow> g_object st = f) \<and>
       spec_run cls (map snd (map as_call (calls_of (g_done st)))) (family_abs f0) =
         (map answer_abs (map (\<lambda>(i, c, l). fl_answer l) (g_done st)), family_abs f)) \<and>
    (\<forall>i p1 ls a1 m1 l1 a j p2 a2 m2 l2 b.
       (i, Add_metric p1 ls a1 m1, l1) \<in> set (g_done st) \<and> fl_answer l1 = Added (Inr a) \<and>
       (j, Add_metric p2 ls a2 m2, l2) \<in> set (g_done st) \<and> fl_answer l2 = Added (Inr b) \<and>
       Remove_metric a \<notin> set (calls_of (g_done st)) \<and> Remove_metric b \<notin> set (calls_of (g_done st)) \<longrightarrow> a = b) \<and>
    (\<forall>threads. (\<forall>i\<ge>threads. prog i = []) \<longrightarrow> surely_return (family_code cls) family_init threads st)"
proof -
  note lin = members.linearizable [OF assms(3) TrueI]
  obtain f where f: "replays (member_spec cls) f0 (answers_of fl_answer (g_done st)) f" "\<not> g_locked st \<longrightarrow> g_object st = f"
    using lin by blast
  have ok: "calls_ok cls (map as_call (calls_of (g_done st))) f0"
    by (rule fresh_history [OF assms(2), where phase = "g_phase st" and rest = "g_calls st"]) (use lin in blast)
  from family_refines_map_run [OF assms(1) ok replays_family_run [OF f(1)]]
  have spec: "spec_run cls (map snd (map as_call (calls_of (g_done st)))) (family_abs f0) =
      (map answer_abs (map (\<lambda>(i, c, l). fl_answer l) (g_done st)), family_abs f)" "family_ok cls f"
    by simp_all
  have "a = b" if x: "(i, Add_metric p1 ls a1 m1, l1) \<in> set (g_done st)" "fl_answer l1 = Added (Inr a)"
    and y: "(j, Add_metric p2 ls a2 m2, l2) \<in> set (g_done st)" "fl_answer l2 = Added (Inr b)"
    and stay: "Remove_metric a \<notin> set (calls_of (g_done st))" "Remove_metric b \<notin> set (calls_of (g_done st))"
    for i p1 ls a1 m1 l1 a j p2 a2 m2 l2 b
    using added_metric_stays [OF spec(1) x stay(1)] added_metric_stays [OF spec(1) y stay(2)] by simp
  then show ?thesis using lin spec f(2) members.returns [OF assms(3) TrueI] by blast
qed

lemma answer_abs_Added: "answer_abs ans = Spec_Added r \<longleftrightarrow> ans = Added r"
  by (cases ans rule: answer_abs.cases) auto

text \<open>Two threads ask for the counter of the same labels, each with a new object of its own.\<close>

definition add_race :: "nat \<Rightarrow> counter member_call list" where
  "add_race i = (if i = 0 then [Add_metric (\<lambda>es e. es @ [e]) [(''path'', ''/'')] 7 (Inr Counter_default)]
     else if i = 1 then [Add_metric (\<lambda>es e. e # es) [(''path'', ''/'')] 8 (Inr Counter_default)] else [])"

lemma add_race_run:
  "\<exists>st l1 l2. (guarded_step (family_code counter_class) family_init)\<^sup>*\<^sup>* (guarded_start demo_family add_race) st \<and>
     g_done st = [(0, Add_metric (\<lambda>es e. es @ [e]) [(''path'', ''/'')] 7 (Inr Counter_default), l1),
       (1, Add_metric (\<lambda>es e. e # es) [(''path'', ''/'')] 8 (Inr Counter_default), l2)]"
proof -
  let ?ms = "\<lambda>place a. emplace_metric place [(''path'', ''/'')] a Counter_default #
    map (check_label counter_class [(''path'', ''/'')]) [(''path'', ''/'')] @ [return_metric]"
  obtain f l where "run_statements (?ms (\<lambda>es e. es @ [e]) 7) (demo_family, family_init) = (f, l)" by fastforce
  from two_calls_in_turn [OF _ _ _ _ this, of add_race _ _ "family_code counter_class" "?ms (\<lambda>es e. e # es) 8"]
  show ?thesis by (fastforce simp: add_race_def)
qed

theorem family_concurrent_witness:
  "\<exists>st l1 l2. (guarded_step (family_code counter_class) family_init)\<^sup>*\<^sup>* (guarded_start demo_family add_race) st \<and>
     g_done st = [(0, Add_metric (\<lambda>es e. es @ [e]) [(''path'', ''/'')] 7 (Inr Counter_default), l1),
       (1, Add_metric (\<lambda>es e. e # es) [(''path'', ''/'')] 8 (Inr Counter_default), l2)] \<and>
     fl_answer l1 = Added (Inr 7) \<and> fl_answer l2 = Added (Inr 7)"
proof -
  obtain st l1 l2 where st: "(guarded_step (family_code counter_class) family_init)\<^sup>*\<^sup>* (guarded_start demo_family add_race) st"
    "g_done st = [(0, Add_metric (\<lambda>es e. es @ [e]) [(''path'', ''/'')] 7 (Inr Counter_default), l1),
       (1, Add_metric (\<lambda>es e. e # es) [(''path'', ''/'')] 8 (Inr Counter_default), l2)]"
    using add_race_run by blast
  have ok: "family_ok counter_class demo_family" by code_simp
  have "places (\<lambda>es (e :: counter entry). e # es)" by (simp add: places_def)
  then have fresh: "owned_once (proper_call demo_family) added_addrs add_race"
    by (simp add: owned_once_def add_race_def append_places wf_labels_def demo_family_def)
  have name: "CheckLabelName ''path'' Counter" by code_simp
  have run: "fst (spec_run counter_class (map snd (map as_call (calls_of (g_done st)))) (family_abs demo_family)) =
      [Spec_Added (Inr 7), Spec_Added (Inr 7)]"
    using name by (simp add: st(2) family_abs_def demo_family_def counter_class_def labels_count_def)
  from family_concurrent [OF ok fresh st(1)] obtain f where
    "spec_run counter_class (map snd (map as_call (calls_of (g_done st)))) (family_abs demo_family) =
       (map answer_abs (map (\<lambda>(i, c, l). fl_answer l) (g_done st)), family_abs f)"
    by blast
  then have "map answer_abs (map (\<lambda>(i, c, l). fl_answer l) (g_done st)) = [Spec_Added (Inr 7), Spec_Added (Inr 7)]"
    using run by (simp only: fst_conv)
  then have "answer_abs (fl_answer l1) = Spec_Added (Inr 7) \<and> answer_abs (fl_answer l2) = Spec_Added (Inr 7)"
    by (simp add: st(2))
  then show ?thesis using st unfolding answer_abs_Added by blast
qed

end
