(* ===== verification/Registry.thy ===== *)
theory Registry
  imports Family "HOL-Library.Sublist"
begin

text \<open>
  \<open>core/src/registry.cc\<close> and \<open>core/src/detail/builder.cc\<close>: the registry owns one list of
  families per metric type and collects them all. The template parameter of its operations is
  a value of \<open>metric_kind\<close>; a pointer to a family is its address. The mutex makes each call
  atomic.
\<close>

subsection \<open>The code\<close>

datatype metric_kind = Counter_T | Gauge_T | Histogram_T | Info_T | Summary_T

datatype InsertBehavior = Merge | Throw

type_synonym 'm families = "(nat \<times> 'm family) list"

record registry =
  insert_behavior :: InsertBehavior
  reg_counters :: "counter families"
  reg_gauges :: "gauge families"
  reg_histograms :: "histogram families"
  reg_infos :: "info families"
  reg_summaries :: "summary families"

definition Registry_new :: "InsertBehavior \<Rightarrow> registry" where
  "Registry_new behavior = \<lparr>insert_behavior = behavior, reg_counters = [], reg_gauges = [],
     reg_histograms = [], reg_infos = [], reg_summaries = []\<rparr>"

definition Registry_default :: registry where
  "Registry_default = Registry_new Merge"

fun CollectAll :: "('env \<Rightarrow> 's \<Rightarrow> (metric_family list \<times> 's) option) \<Rightarrow> 'env \<Rightarrow> (nat \<times> 's) list \<Rightarrow>
    (metric_family list \<times> (nat \<times> 's) list) option" where
  "CollectAll collect env [] = Some ([], [])"
| "CollectAll collect env ((a, s) # families) =
     do {
       (metrics, s) \<leftarrow> collect env s;
       (results, families) \<leftarrow> CollectAll collect env families;
       Some (metrics @ results, (a, s) # families)
     }"

definition Registry_Collect :: "(nat \<Rightarrow> nat \<Rightarrow> int) \<Rightarrow> registry \<Rightarrow> (metric_family list \<times> registry) option" where
  "Registry_Collect clock r =
     do {
       (cs, counters) \<leftarrow> CollectAll (Family_Collect counter_class) clock (reg_counters r);
       (gs, gauges) \<leftarrow> CollectAll (Family_Collect gauge_class) clock (reg_gauges r);
       (hs, histograms) \<leftarrow> CollectAll (Family_Collect histogram_class) clock (reg_histograms r);
       (is, infos) \<leftarrow> CollectAll (Family_Collect info_class) clock (reg_infos r);
       (ss, summaries) \<leftarrow> CollectAll (Family_Collect summary_class) clock (reg_summaries r);
       Some (cs @ gs @ hs @ is @ ss,
         r\<lparr>reg_counters := counters, reg_gauges := gauges, reg_histograms := histograms,
           reg_infos := infos, reg_summaries := summaries\<rparr>)
     }"

text \<open>One step of the variadic \<open>FamilyNameExists\<close>; the arguments after the first list are the
  disjunction in \<open>NameExistsInOtherType\<close>.\<close>

definition FamilyNameExists :: "string \<Rightarrow> 'm families \<Rightarrow> bool" where
  "FamilyNameExists name families \<longleftrightarrow> find (\<lambda>(a, f). name = Family_GetName f) families \<noteq> None"

definition NameExistsInOtherType :: "metric_kind \<Rightarrow> string \<Rightarrow> registry \<Rightarrow> bool" where
  "NameExistsInOtherType T name r \<longleftrightarrow>
     (case T of
        Counter_T \<Rightarrow> FamilyNameExists name (reg_gauges r) \<or> FamilyNameExists name (reg_histograms r) \<or>
          FamilyNameExists name (reg_infos r) \<or> FamilyNameExists name (reg_summaries r)
      | Gauge_T \<Rightarrow> FamilyNameExists name (reg_counters r) \<or> FamilyNameExists name (reg_histograms r) \<or>
          FamilyNameExists name (reg_infos r) \<or> FamilyNameExists name (reg_summaries r)
      | Histogram_T \<Rightarrow> FamilyNameExists name (reg_counters r) \<or> FamilyNameExists name (reg_gauges r) \<or>
          FamilyNameExists name (reg_infos r) \<or> FamilyNameExists name (reg_summaries r)
      | Info_T \<Rightarrow> FamilyNameExists name (reg_counters r) \<or> FamilyNameExists name (reg_gauges r) \<or>
          FamilyNameExists name (reg_histograms r) \<or> FamilyNameExists name (reg_summaries r)
      | Summary_T \<Rightarrow> FamilyNameExists name (reg_counters r) \<or> FamilyNameExists name (reg_gauges r) \<or>
          FamilyNameExists name (reg_histograms r) \<or> FamilyNameExists name (reg_infos r))"

text \<open>\<open>Add\<close> after the check of the other types, on the list \<open>GetFamilies\<close> returns; \<open>addr\<close> is
  the address of the new family.\<close>

definition add_to_families :: "'m metric_class \<Rightarrow> InsertBehavior \<Rightarrow> nat \<Rightarrow> string \<Rightarrow> string \<Rightarrow> label_map \<Rightarrow>
    'm families \<Rightarrow> (cpp_exception + nat) \<times> 'm families" where
  "add_to_families cls behavior addr name help labels families =
     (case find (\<lambda>(a, f). name = Family_GetName f) families of
        Some (a, f) \<Rightarrow>
          if behavior = Merge then
            (if Family_GetConstantLabels f = labels then (Inr a, families)
             else (Inl (invalid_argument ''Family name already exists with different constant labels''), families))
          else (Inl (invalid_argument ''Family name already exists''), families)
      | None \<Rightarrow>
          (case Family_new cls name help labels of
             Inl e \<Rightarrow> (Inl e, families)
           | Inr family \<Rightarrow> (Inr addr, families @ [(addr, family)])))"

definition Registry_Add :: "metric_kind \<Rightarrow> nat \<Rightarrow> string \<Rightarrow> string \<Rightarrow> label_map \<Rightarrow> registry \<Rightarrow>
    (cpp_exception + nat) \<times> registry" where
  "Registry_Add T addr name help labels r =
     (if NameExistsInOtherType T name r
      then (Inl (invalid_argument ''Family name already exists with different type''), r)
      else case T of
        Counter_T \<Rightarrow> apsnd (\<lambda>fs. r\<lparr>reg_counters := fs\<rparr>)
          (add_to_families counter_class (insert_behavior r) addr name help labels (reg_counters r))
      | Gauge_T \<Rightarrow> apsnd (\<lambda>fs. r\<lparr>reg_gauges := fs\<rparr>)
          (add_to_families gauge_class (insert_behavior r) addr name help labels (reg_gauges r))
      | Histogram_T \<Rightarrow> apsnd (\<lambda>fs. r\<lparr>reg_histograms := fs\<rparr>)
          (add_to_families histogram_class (insert_behavior r) addr name help labels (reg_histograms r))
      | Info_T \<Rightarrow> apsnd (\<lambda>fs. r\<lparr>reg_infos := fs\<rparr>)
          (add_to_families info_class (insert_behavior r) addr name help labels (reg_infos r))
      | Summary_T \<Rightarrow> apsnd (\<lambda>fs. r\<lparr>reg_summaries := fs\<rparr>)
          (add_to_families summary_class (insert_behavior r) addr name help labels (reg_summaries r)))"

definition remove_from_families :: "nat \<Rightarrow> 'm families \<Rightarrow> bool \<times> 'm families" where
  "remove_from_families family families =
     (case find (\<lambda>(a, f). family = a) families of
        None \<Rightarrow> (False, families)
      | Some e \<Rightarrow> (True, remove_first (\<lambda>(a, f). family = a) families))"

definition Registry_Remove :: "metric_kind \<Rightarrow> nat \<Rightarrow> registry \<Rightarrow> bool \<times> registry" where
  "Registry_Remove T family r =
     (case T of
        Counter_T \<Rightarrow> apsnd (\<lambda>fs. r\<lparr>reg_counters := fs\<rparr>) (remove_from_families family (reg_counters r))
      | Gauge_T \<Rightarrow> apsnd (\<lambda>fs. r\<lparr>reg_gauges := fs\<rparr>) (remove_from_families family (reg_gauges r))
      | Histogram_T \<Rightarrow> apsnd (\<lambda>fs. r\<lparr>reg_histograms := fs\<rparr>) (remove_from_families family (reg_histograms r))
      | Info_T \<Rightarrow> apsnd (\<lambda>fs. r\<lparr>reg_infos := fs\<rparr>) (remove_from_families family (reg_infos r))
      | Summary_T \<Rightarrow> apsnd (\<lambda>fs. r\<lparr>reg_summaries := fs\<rparr>) (remove_from_families family (reg_summaries r)))"

record builder =
  builder_labels :: label_map
  builder_name :: string
  builder_help :: string

definition Builder_new :: builder where
  "Builder_new = \<lparr>builder_labels = [], builder_name = '''', builder_help = ''''\<rparr>"

definition Builder_Labels :: "label_map \<Rightarrow> builder \<Rightarrow> builder" where
  "Builder_Labels labels b = b\<lparr>builder_labels := labels\<rparr>"

definition Builder_Name :: "string \<Rightarrow> builder \<Rightarrow> builder" where
  "Builder_Name name b = b\<lparr>builder_name := name\<rparr>"

definition Builder_Help :: "string \<Rightarrow> builder \<Rightarrow> builder" where
  "Builder_Help help b = b\<lparr>builder_help := help\<rparr>"

definition Builder_Register :: "metric_kind \<Rightarrow> nat \<Rightarrow> builder \<Rightarrow> registry \<Rightarrow>
    (cpp_exception + nat) \<times> registry" where
  "Builder_Register T addr b r = Registry_Add T addr (builder_name b) (builder_help b) (builder_labels b) r"

subsection \<open>Collecting lists of collectables\<close>

text \<open>A collectable with a name reports at most one family, under that name.\<close>

locale named_collectable = collectable collect inv
  for collect :: "'env \<Rightarrow> 's \<Rightarrow> (metric_family list \<times> 's) option" and inv :: "'s \<Rightarrow> bool" +
  fixes name_of :: "'s \<Rightarrow> string"
  assumes collect_name: "collect env s = Some (fs, s') \<Longrightarrow>
    name_of s' = name_of s \<and> (fs = [] \<or> map family_name fs = [name_of s])"
begin

lemma CollectAll_inv:
  "CollectAll collect env xs = Some (ms, ys) \<Longrightarrow> \<forall>x\<in>set xs. inv (snd x) \<Longrightarrow>
   (\<forall>y\<in>set ys. inv (snd y)) \<and> (\<forall>mf\<in>set ms. wf_metric_family mf)"
proof (induction xs arbitrary: ms ys)
  case (Cons x xs)
  obtain a s where x: "x = (a, s)" by fastforce
  obtain m1 s1 m2 ys2 where c: "collect env s = Some (m1, s1)" "CollectAll collect env xs = Some (m2, ys2)"
    "ms = m1 @ m2" "ys = (a, s1) # ys2"
    using Cons.prems(1) x by (auto simp: bind_eq_Some_conv)
  have s: "inv s" using Cons.prems(2) x by simp
  have "(\<forall>y\<in>set ys2. inv (snd y)) \<and> (\<forall>mf\<in>set m2. wf_metric_family mf)"
    using Cons.IH [OF c(2)] Cons.prems(2) by simp
  moreover have "inv s1" using collect_inv [OF s c(1)] .
  moreover have "\<forall>mf\<in>set m1. wf_metric_family mf" using collect_wf [OF s c(1)] by blast
  ultimately show ?case by (auto simp: c(3,4))
qed simp

lemma CollectAll_names:
  "CollectAll collect env xs = Some (ms, ys) \<Longrightarrow>
   map fst ys = map fst xs \<and> map (\<lambda>x. name_of (snd x)) ys = map (\<lambda>x. name_of (snd x)) xs \<and>
   subseq (map family_name ms) (map (\<lambda>x. name_of (snd x)) xs)"
proof (induction xs arbitrary: ms ys)
  case (Cons x xs)
  obtain a s where x: "x = (a, s)" by fastforce
  obtain m1 s1 m2 ys2 where c: "collect env s = Some (m1, s1)" "CollectAll collect env xs = Some (m2, ys2)"
    "ms = m1 @ m2" "ys = (a, s1) # ys2"
    using Cons.prems x by (auto simp: bind_eq_Some_conv)
  have IH: "map fst ys2 = map fst xs" "map (\<lambda>x. name_of (snd x)) ys2 = map (\<lambda>x. name_of (snd x)) xs"
    "subseq (map family_name m2) (map (\<lambda>x. name_of (snd x)) xs)"
    using Cons.IH [OF c(2)] by blast+
  from collect_name [OF c(1)] IH show ?case by (auto simp: x c(3,4))
qed simp

end


lemma subseq_distinct: "subseq xs ys \<Longrightarrow> distinct ys \<Longrightarrow> distinct xs"
proof (induction rule: list_emb.induct)
  case (list_emb_Cons2 x y xs ys)
  then show ?case using list_emb_set [of "(=)" xs ys x] by auto
qed auto

context exposed_metric begin

lemma Family_Collect_name:
  assumes "Family_Collect cls clock f = Some (fs, f')"
  shows "fam_name f' = fam_name f \<and> (fs = [] \<or> map family_name fs = [fam_name f])"
proof -
  note shape = Family_Collect_shape [OF assms]
  then have "f' = f\<lparr>fam_metrics := fam_metrics f'\<rparr>" by blast
  then have "fam_name f' = fam_name (f\<lparr>fam_metrics := fam_metrics f'\<rparr>)" by (rule arg_cong)
  then have "fam_name f' = fam_name f" by simp
  moreover have "fs = [] \<or> map family_name fs = [fam_name f]" using shape by (auto split: if_splits)
  ultimately show ?thesis ..
qed

end

sublocale exposed_metric \<subseteq> named_collectable "Family_Collect cls" "family_ok cls" fam_name
  by unfold_locales (fact Family_Collect_name)


subsection \<open>Invariant\<close>

lemma all_kinds: "(\<forall>T. P T) \<longleftrightarrow> P Counter_T \<and> P Gauge_T \<and> P Histogram_T \<and> P Info_T \<and> P Summary_T"
  by (metis metric_kind.exhaust)

lemma ex_kinds: "(\<exists>T. P T) \<longleftrightarrow> P Counter_T \<or> P Gauge_T \<or> P Histogram_T \<or> P Info_T \<or> P Summary_T"
  by (metis metric_kind.exhaust)

text \<open>The metric types can be enumerated, so a statement about all of them can be evaluated.\<close>

instantiation metric_kind :: enum
begin

definition enum_metric_kind :: "metric_kind list" where
  "enum_metric_kind = [Counter_T, Gauge_T, Histogram_T, Info_T, Summary_T]"

definition enum_all_metric_kind :: "(metric_kind \<Rightarrow> bool) \<Rightarrow> bool" where
  "enum_all_metric_kind P \<longleftrightarrow> P Counter_T \<and> P Gauge_T \<and> P Histogram_T \<and> P Info_T \<and> P Summary_T"

definition enum_ex_metric_kind :: "(metric_kind \<Rightarrow> bool) \<Rightarrow> bool" where
  "enum_ex_metric_kind P \<longleftrightarrow> P Counter_T \<or> P Gauge_T \<or> P Histogram_T \<or> P Info_T \<or> P Summary_T"

instance
proof
  have cover: "T \<in> {Counter_T, Gauge_T, Histogram_T, Info_T, Summary_T}" for T by (cases T) simp_all
  then show "(UNIV :: metric_kind set) = set enum_class.enum" by (auto simp: enum_metric_kind_def)
  show "distinct (enum_class.enum :: metric_kind list)" by (simp add: enum_metric_kind_def)
  show "enum_class.enum_all P \<longleftrightarrow> Ball UNIV P" for P :: "metric_kind \<Rightarrow> bool"
    by (simp add: enum_all_metric_kind_def all_kinds)
  show "enum_class.enum_ex P \<longleftrightarrow> Bex UNIV P" for P :: "metric_kind \<Rightarrow> bool"
    by (simp add: enum_ex_metric_kind_def ex_kinds)
qed

end

abbreviation names_in :: "'m families \<Rightarrow> string list" where
  "names_in fs \<equiv> map (\<lambda>x. fam_name (snd x)) fs"

definition families_ok :: "'m metric_class \<Rightarrow> 'm families \<Rightarrow> bool" where
  "families_ok cls fs \<longleftrightarrow> distinct (map fst fs) \<and> (\<forall>x\<in>set fs. family_ok cls (snd x))"

definition kind_names :: "metric_kind \<Rightarrow> registry \<Rightarrow> string list" where
  "kind_names T r = (case T of
     Counter_T \<Rightarrow> names_in (reg_counters r) | Gauge_T \<Rightarrow> names_in (reg_gauges r)
   | Histogram_T \<Rightarrow> names_in (reg_histograms r) | Info_T \<Rightarrow> names_in (reg_infos r)
   | Summary_T \<Rightarrow> names_in (reg_summaries r))"

definition kind_addrs :: "metric_kind \<Rightarrow> registry \<Rightarrow> nat list" where
  "kind_addrs T r = (case T of
     Counter_T \<Rightarrow> map fst (reg_counters r) | Gauge_T \<Rightarrow> map fst (reg_gauges r)
   | Histogram_T \<Rightarrow> map fst (reg_histograms r) | Info_T \<Rightarrow> map fst (reg_infos r)
   | Summary_T \<Rightarrow> map fst (reg_summaries r))"

definition kind_ok :: "metric_kind \<Rightarrow> registry \<Rightarrow> bool" where
  "kind_ok T r = (case T of
     Counter_T \<Rightarrow> families_ok counter_class (reg_counters r)
   | Gauge_T \<Rightarrow> families_ok gauge_class (reg_gauges r)
   | Histogram_T \<Rightarrow> families_ok histogram_class (reg_histograms r)
   | Info_T \<Rightarrow> families_ok info_class (reg_infos r)
   | Summary_T \<Rightarrow> families_ok summary_class (reg_summaries r))"

lemmas kind_simps = kind_names_def kind_addrs_def kind_ok_def

definition registry_names :: "registry \<Rightarrow> string list" where
  "registry_names r = kind_names Counter_T r @ kind_names Gauge_T r @ kind_names Histogram_T r @
     kind_names Info_T r @ kind_names Summary_T r"

definition registry_ok :: "registry \<Rightarrow> bool" where
  "registry_ok r \<longleftrightarrow> distinct (registry_names r) \<and> (\<forall>T. kind_ok T r)"


lemma kind_names_subset: "set (kind_names T r) \<subseteq> set (registry_names r)"
  by (cases T) (auto simp: registry_names_def)

lemma distinct_replace:
  assumes "distinct (as @ ns @ bs)"
    and "ns' = ns @ [x] \<and> x \<notin> set (as @ ns @ bs) \<or> subseq ns' ns"
  shows "distinct (as @ ns' @ bs)"
  using assms(2)
proof
  assume "subseq ns' ns"
  then have "subseq (as @ ns' @ bs) (as @ ns @ bs)" by (simp add: list_emb_append_mono)
  then show ?thesis using assms(1) by (rule subseq_distinct)
qed (use assms(1) in auto)

text \<open>An operation that changes the families of one type keeps the invariant when it adds a
  name that is new to the whole registry, or drops names.\<close>

lemma registry_ok_replace:
  assumes "registry_ok r" and "\<And>U. U \<noteq> T \<Longrightarrow> kind_names U r' = kind_names U r \<and> kind_ok U r' = kind_ok U r"
    and "kind_ok T r'"
    and "kind_names T r' = kind_names T r @ [x] \<and> x \<notin> set (registry_names r) \<or>
      subseq (kind_names T r') (kind_names T r)"
  shows "registry_ok r'"
proof -
  let ?N = "\<lambda>U. kind_names U r"
  have d: "distinct (registry_names r)" using assms(1) by (simp add: registry_ok_def)
  have "distinct (registry_names r')"
  proof (cases T)
    case Counter_T
    then show ?thesis using distinct_replace [of "[]" "?N Counter_T" "?N Gauge_T @ ?N Histogram_T @ ?N Info_T @ ?N Summary_T" "kind_names T r'" x]
        d assms(2,4) by (simp add: registry_names_def)
  next
    case Gauge_T
    then show ?thesis using distinct_replace [of "?N Counter_T" "?N Gauge_T" "?N Histogram_T @ ?N Info_T @ ?N Summary_T" "kind_names T r'" x]
        d assms(2,4) by (simp add: registry_names_def)
  next
    case Histogram_T
    then show ?thesis using distinct_replace [of "?N Counter_T @ ?N Gauge_T" "?N Histogram_T" "?N Info_T @ ?N Summary_T" "kind_names T r'" x]
        d assms(2,4) by (simp add: registry_names_def)
  next
    case Info_T
    then show ?thesis using distinct_replace [of "?N Counter_T @ ?N Gauge_T @ ?N Histogram_T" "?N Info_T" "?N Summary_T" "kind_names T r'" x]
        d assms(2,4) by (simp add: registry_names_def)
  next
    case Summary_T
    then show ?thesis using distinct_replace [of "?N Counter_T @ ?N Gauge_T @ ?N Histogram_T @ ?N Info_T" "?N Summary_T" "[]" "kind_names T r'" x]
        d assms(2,4) by (simp add: registry_names_def)
  qed
  moreover have "kind_ok U r'" for U
    using assms(1-3) by (cases "U = T") (auto simp: registry_ok_def)
  ultimately show ?thesis by (simp add: registry_ok_def)
qed

lemma registry_ok_new [simp]: "registry_ok (Registry_new b)"
  by (simp add: registry_ok_def registry_names_def Registry_new_def families_ok_def kind_simps all_kinds)

lemma FamilyNameExists_iff: "FamilyNameExists name fs \<longleftrightarrow> name \<in> set (names_in fs)"
  by (force simp: FamilyNameExists_def Family_GetName_def find_None_iff)

text \<open>Every branch of \<open>Add\<close> on the list of one type.\<close>

lemma add_to_families_cases:
  assumes "add_to_families cls b addr name help labels fs = (x, fs')"
  shows "(case x of
      Inl e \<Rightarrow> fs' = fs
    | Inr a \<Rightarrow> (b = Merge \<and> fs' = fs \<and> (\<exists>f. (a, f) \<in> set fs \<and> fam_name f = name \<and> fam_constant_labels f = labels)) \<or>
        (a = addr \<and> name \<notin> set (names_in fs) \<and>
         (\<exists>f. Family_new cls name help labels = Inr f \<and> fs' = fs @ [(addr, f)])))"
proof (cases "find (\<lambda>(a, f). name = Family_GetName f) fs")
  case None
  then have "name \<notin> set (names_in fs)"
    by (force simp: find_None_iff Family_GetName_def)
  then show ?thesis using assms None by (auto simp: add_to_families_def split: sum.splits)
next
  case (Some af)
  then have "af \<in> set fs \<and> name = fam_name (snd af)"
    by (auto dest!: find_Some_in_set simp: Family_GetName_def)
  then show ?thesis
    using assms Some
    by (cases af) (auto simp: add_to_families_def Family_GetConstantLabels_def split: if_splits)
qed

lemma Family_new_name: "Family_new cls name help ls = Inr f \<Longrightarrow> fam_name f = name \<and> fam_constant_labels f = ls \<and> fam_metrics f = [] \<and> fam_help f = help"
  by (auto simp: Family_new_def Let_def split: if_splits)

lemma families_ok_add:
  assumes "families_ok cls fs" and "addr \<notin> fst ` set fs" and "wf_labels labels"
    and "add_to_families cls b addr name help labels fs = (x, fs')"
  shows "families_ok cls fs' \<and> (names_in fs' = names_in fs \<or>
    (name \<notin> set (names_in fs) \<and> names_in fs' = names_in fs @ [name]))"
proof -
  from add_to_families_cases [OF assms(4)] consider "fs' = fs"
    | f where "name \<notin> set (names_in fs)" "Family_new cls name help labels = Inr f" "fs' = fs @ [(addr, f)]"
    by (auto split: sum.splits)
  then show ?thesis
  proof cases
    case 1
    then show ?thesis using assms(1) by simp
  next
    case 2
    then show ?thesis
      using assms(1,2) family_ok_new [OF 2(2) assms(3)] by (simp add: families_ok_def Family_new_name ball_Un)
  qed
qed

lemma families_ok_remove:
  assumes "families_ok cls fs" and "remove_from_families p fs = (b, fs')"
  shows "families_ok cls fs' \<and> subseq (names_in fs') (names_in fs)"
proof -
  let ?P = "\<lambda>x. p = fst x"
  have P: "(\<lambda>(a, f). p = a) = ?P" by (auto simp: fun_eq_iff)
  have sub: "subseq (map g (remove_first P xs)) (map g xs)" for g :: "'x \<Rightarrow> 'y" and P xs
    by (induction xs) auto
  have "fs' = fs \<or> fs' = remove_first ?P fs"
    using assms(2) unfolding remove_from_families_def P by (auto split: option.splits)
  then show ?thesis
    using assms(1) sub [of "\<lambda>x. fam_name (snd x)"] set_remove_first [of ?P fs] distinct_remove_first [of fst fs]
    by (auto simp: families_ok_def subset_eq)
qed

lemma NameExistsInOtherType_iff:
  "NameExistsInOtherType T name r \<longleftrightarrow> (\<exists>U. U \<noteq> T \<and> name \<in> set (kind_names U r))"
  by (cases T) (simp_all add: NameExistsInOtherType_def FamilyNameExists_iff ex_kinds kind_names_def)

lemma Registry_Add_frame:
  "Registry_Add T addr name help labels r = (x, r') \<Longrightarrow> U \<noteq> T \<Longrightarrow>
   kind_names U r' = kind_names U r \<and> kind_ok U r' = kind_ok U r \<and> kind_addrs U r' = kind_addrs U r"
  by (cases T; cases U)
    (auto simp: Registry_Add_def kind_simps apsnd_def map_prod_def split: prod.splits if_splits)

lemma Registry_Add_own:
  assumes "Registry_Add T addr name help labels r = (x, r')" and "kind_ok T r" and "addr \<notin> set (kind_addrs T r)"
    and "wf_labels labels"
  shows "kind_ok T r' \<and> (kind_names T r' = kind_names T r \<or>
    name \<notin> set (registry_names r) \<and> kind_names T r' = kind_names T r @ [name])"
proof (cases "NameExistsInOtherType T name r")
  case True
  then show ?thesis using assms(1,2) by (simp add: Registry_Add_def)
next
  case False
  have "kind_ok T r' \<and> (kind_names T r' = kind_names T r \<or>
    name \<notin> set (kind_names T r) \<and> kind_names T r' = kind_names T r @ [name])"
    using assms False
    by (cases T; auto simp: Registry_Add_def kind_simps apsnd_def map_prod_def split: prod.splits
        dest!: families_ok_add [rotated 3]; force)
  moreover have "name \<notin> set (kind_names T r) \<Longrightarrow> name \<notin> set (registry_names r)"
    using False unfolding NameExistsInOtherType_iff by (cases T) (auto simp: registry_names_def)
  ultimately show ?thesis by blast
qed

lemma registry_ok_Add:
  assumes "registry_ok r" and "wf_labels labels" and "addr \<notin> set (kind_addrs T r)"
    and "Registry_Add T addr name help labels r = (x, r')"
  shows "registry_ok r'"
  using assms Registry_Add_own [OF assms(4)] Registry_Add_frame [OF assms(4)]
  by (intro registry_ok_replace [of r T r' name]) (auto simp: registry_ok_def)

lemma Registry_Remove_frame:
  "Registry_Remove T p r = (b, r') \<Longrightarrow> U \<noteq> T \<Longrightarrow>
   kind_names U r' = kind_names U r \<and> kind_ok U r' = kind_ok U r \<and> kind_addrs U r' = kind_addrs U r"
  by (cases T; cases U) (auto simp: Registry_Remove_def kind_simps apsnd_def map_prod_def split: prod.splits)

lemma Registry_Remove_own:
  "Registry_Remove T p r = (b, r') \<Longrightarrow> kind_ok T r \<Longrightarrow>
   kind_ok T r' \<and> subseq (kind_names T r') (kind_names T r)"
  by (cases T) (auto simp: Registry_Remove_def kind_simps apsnd_def map_prod_def split: prod.splits
      dest: families_ok_remove)

lemma registry_ok_Remove: "Registry_Remove T p r = (b, r') \<Longrightarrow> registry_ok r \<Longrightarrow> registry_ok r'"
  using Registry_Remove_own [of T p r b r'] Registry_Remove_frame [of T p r b r']
  by (intro registry_ok_replace [of r T r']) (auto simp: registry_ok_def)

subsection \<open>Collecting the registry\<close>

context exposed_metric begin

lemma CollectAll_families:
  assumes "families_ok cls fs" and "CollectAll (Family_Collect cls) clock fs = Some (ms, fs')"
  shows "families_ok cls fs' \<and> names_in fs' = names_in fs \<and> map fst fs' = map fst fs \<and>
    (\<forall>mf\<in>set ms. wf_metric_family mf) \<and> subseq (map family_name ms) (names_in fs)"
  using CollectAll_inv [OF assms(2)] CollectAll_names [OF assms(2)] assms(1)
  by (auto simp: families_ok_def)

end

lemma Registry_Collect_kinds:
  assumes "registry_ok r" and "Registry_Collect clock r = Some (fs, r')"
  shows "(\<forall>T. kind_ok T r' \<and> kind_names T r' = kind_names T r \<and> kind_addrs T r' = kind_addrs T r) \<and>
    (\<forall>mf\<in>set fs. wf_metric_family mf) \<and> subseq (map family_name fs) (registry_names r)"
proof -
  obtain cs gs hs ins ss cs' gs' hs' ins' ss' where
    c: "CollectAll (Family_Collect counter_class) clock (reg_counters r) = Some (cs, cs')" and
    g: "CollectAll (Family_Collect gauge_class) clock (reg_gauges r) = Some (gs, gs')" and
    h: "CollectAll (Family_Collect histogram_class) clock (reg_histograms r) = Some (hs, hs')" and
    i: "CollectAll (Family_Collect info_class) clock (reg_infos r) = Some (ins, ins')" and
    s: "CollectAll (Family_Collect summary_class) clock (reg_summaries r) = Some (ss, ss')" and
    fs: "fs = cs @ gs @ hs @ ins @ ss" and
    r': "r' = r\<lparr>reg_counters := cs', reg_gauges := gs', reg_histograms := hs', reg_infos := ins', reg_summaries := ss'\<rparr>"
    using assms(2) by (auto simp: Registry_Collect_def bind_eq_Some_conv)
  have ok: "families_ok counter_class (reg_counters r)" "families_ok gauge_class (reg_gauges r)"
    "families_ok histogram_class (reg_histograms r)" "families_ok info_class (reg_infos r)"
    "families_ok summary_class (reg_summaries r)"
    using assms(1) unfolding registry_ok_def all_kinds by (simp_all add: kind_ok_def)
  note all = counters.CollectAll_families [OF ok(1) c] gauges.CollectAll_families [OF ok(2) g]
    histograms.CollectAll_families [OF ok(3) h] infos.CollectAll_families [OF ok(4) i]
    summaries.CollectAll_families [OF ok(5) s]
  have "subseq (map family_name fs) (registry_names r)"
    unfolding fs registry_names_def map_append
    using all by (auto simp: kind_names_def intro!: list_emb_append_mono)
  moreover have "\<forall>mf\<in>set fs. wf_metric_family mf" using all unfolding fs by auto
  moreover have "\<forall>T. kind_ok T r' \<and> kind_names T r' = kind_names T r \<and> kind_addrs T r' = kind_addrs T r"
    unfolding all_kinds r' using all by (simp add: kind_simps)
  ultimately show ?thesis by blast
qed

lemma registry_ok_Collect: "registry_ok r \<Longrightarrow> Registry_Collect clock r = Some (fs, r') \<Longrightarrow> registry_ok r'"
  using Registry_Collect_kinds [of r clock fs r'] by (simp add: registry_ok_def registry_names_def)

text \<open>The registry is itself a collectable.\<close>

interpretation registry: collectable Registry_Collect registry_ok
  by unfold_locales (fact registry_ok_Collect, use Registry_Collect_kinds in blast)

subsection \<open>Histories of a registry\<close>

definition update_family :: "nat \<Rightarrow> 'm family \<Rightarrow> 'm families \<Rightarrow> 'm families" where
  "update_family a f fs = map (\<lambda>x. if fst x = a then (a, f) else x) fs"

lemma update_family_ok:
  assumes "families_ok cls fs" and "(a, f) \<in> set fs" and "family_ok cls f'" and "fam_name f' = fam_name f"
  shows "families_ok cls (update_family a f' fs) \<and> names_in (update_family a f' fs) = names_in fs"
proof -
  have keys: "fst \<circ> (\<lambda>x. if fst x = a then (a, f') else x) = fst" by (auto simp: fun_eq_iff)
  have "fam_name (snd x) = fam_name f" if "x \<in> set fs" "fst x = a" for x
    using that assms(1,2) by (metis eq_key_imp_eq_value families_ok_def prod.collapse)
  then have "names_in (update_family a f' fs) = names_in fs" using assms(4) by (simp add: update_family_def)
  moreover have "families_ok cls (update_family a f' fs)"
    using assms(1,3) by (auto simp: families_ok_def update_family_def keys)
  ultimately show ?thesis by simp
qed

text \<open>The calls of a program: on the registry, and on the families it owns through references.
  New families and metrics get addresses that are not in use.\<close>

inductive registry_step :: "registry \<Rightarrow> registry \<Rightarrow> bool" where
  add: "wf_labels labels \<Longrightarrow> addr \<notin> set (kind_addrs T r) \<Longrightarrow>
    Registry_Add T addr name help labels r = (x, r') \<Longrightarrow> registry_step r r'"
| remove: "Registry_Remove T p r = (b, r') \<Longrightarrow> registry_step r r'"
| collect: "Registry_Collect clock r = Some (fs, r') \<Longrightarrow> registry_step r r'"
| counter: "(a, f) \<in> set (reg_counters r) \<Longrightarrow> family_step counter_class f f' \<Longrightarrow>
    registry_step r (r\<lparr>reg_counters := update_family a f' (reg_counters r)\<rparr>)"
| gauge: "(a, f) \<in> set (reg_gauges r) \<Longrightarrow> family_step gauge_class f f' \<Longrightarrow>
    registry_step r (r\<lparr>reg_gauges := update_family a f' (reg_gauges r)\<rparr>)"
| histogram: "(a, f) \<in> set (reg_histograms r) \<Longrightarrow> family_step histogram_class f f' \<Longrightarrow>
    registry_step r (r\<lparr>reg_histograms := update_family a f' (reg_histograms r)\<rparr>)"
| info: "(a, f) \<in> set (reg_infos r) \<Longrightarrow> family_step info_class f f' \<Longrightarrow>
    registry_step r (r\<lparr>reg_infos := update_family a f' (reg_infos r)\<rparr>)"
| summary: "(a, f) \<in> set (reg_summaries r) \<Longrightarrow> family_step summary_class f f' \<Longrightarrow>
    registry_step r (r\<lparr>reg_summaries := update_family a f' (reg_summaries r)\<rparr>)"

inductive registry_reachable :: "InsertBehavior \<Rightarrow> registry \<Rightarrow> bool" for behavior :: InsertBehavior where
  start: "registry_reachable behavior (Registry_new behavior)"
| step: "registry_reachable behavior r \<Longrightarrow> registry_step r r' \<Longrightarrow> registry_reachable behavior r'"


context exposed_metric begin

lemma update_family_step:
  assumes "families_ok cls fs" and "(a, f) \<in> set fs" and "family_step cls f f'"
  shows "families_ok cls (update_family a f' fs) \<and> names_in (update_family a f' fs) = names_in fs"
  using assms family_ok_step [OF assms(3)] family_step_const [OF assms(3)]
  by (intro update_family_ok) (auto simp: families_ok_def)

end

lemma registry_ok_step: "registry_step r r' \<Longrightarrow> registry_ok r \<Longrightarrow> registry_ok r'"
proof (induction rule: registry_step.induct)
  case (counter a f r f')
  then show ?case using counters.update_family_step [of "reg_counters r" a f f']
    by (auto simp: registry_ok_def registry_names_def kind_simps all_kinds)
next
  case (gauge a f r f')
  then show ?case using gauges.update_family_step [of "reg_gauges r" a f f']
    by (auto simp: registry_ok_def registry_names_def kind_simps all_kinds)
next
  case (histogram a f r f')
  then show ?case using histograms.update_family_step [of "reg_histograms r" a f f']
    by (auto simp: registry_ok_def registry_names_def kind_simps all_kinds)
next
  case (info a f r f')
  then show ?case using infos.update_family_step [of "reg_infos r" a f f']
    by (auto simp: registry_ok_def registry_names_def kind_simps all_kinds)
next
  case (summary a f r f')
  then show ?case using summaries.update_family_step [of "reg_summaries r" a f f']
    by (auto simp: registry_ok_def registry_names_def kind_simps all_kinds)
qed (auto intro: registry_ok_Add registry_ok_Remove registry_ok_Collect)

lemma registry_reachable_ok: "registry_reachable b r \<Longrightarrow> registry_ok r"
  by (induction rule: registry_reachable.induct) (auto intro: registry_ok_step)

subsection \<open>Properties\<close>

definition kind_type :: "metric_kind \<Rightarrow> MetricType" where
  "kind_type T = (case T of Counter_T \<Rightarrow> Counter | Gauge_T \<Rightarrow> Gauge | Histogram_T \<Rightarrow> Histogram
     | Info_T \<Rightarrow> Info | Summary_T \<Rightarrow> Summary)"

text \<open>The family of a name among those of one type: its address and its constant labels.\<close>

definition entry_in :: "string \<Rightarrow> 'm families \<Rightarrow> (nat \<times> label_map) option" where
  "entry_in name fs = map_option (\<lambda>(a, f). (a, fam_constant_labels f)) (find (\<lambda>(a, f). name = fam_name f) fs)"

definition kind_entry :: "metric_kind \<Rightarrow> string \<Rightarrow> registry \<Rightarrow> (nat \<times> label_map) option" where
  "kind_entry T name r = (case T of
     Counter_T \<Rightarrow> entry_in name (reg_counters r) | Gauge_T \<Rightarrow> entry_in name (reg_gauges r)
   | Histogram_T \<Rightarrow> entry_in name (reg_histograms r) | Info_T \<Rightarrow> entry_in name (reg_infos r)
   | Summary_T \<Rightarrow> entry_in name (reg_summaries r))"

definition names_valid :: "string \<Rightarrow> label_map \<Rightarrow> MetricType \<Rightarrow> bool" where
  "names_valid name labels t \<longleftrightarrow> CheckMetricName name \<and> (\<forall>k\<in>fst ` set labels. CheckLabelName k t)"

lemma class_types [simp]:
  "class_type counter_class = Counter" "class_type gauge_class = Gauge" "class_type histogram_class = Histogram"
  "class_type info_class = Info" "class_type summary_class = Summary"
  by (simp_all add: counter_class_def gauge_class_def histogram_class_def info_class_def summary_class_def)

lemma add_to_families_spec:
  "case add_to_families cls b addr name h labels fs of (x, fs') \<Rightarrow>
     (case entry_in name fs of
        Some (a, cl) \<Rightarrow> fs' = fs \<and>
          x = (if b = Throw then Inl (invalid_argument ''Family name already exists'')
               else if cl = labels then Inr a
               else Inl (invalid_argument ''Family name already exists with different constant labels''))
      | None \<Rightarrow>
          if names_valid name labels (class_type cls)
          then x = Inr addr \<and> names_in fs' = names_in fs @ [name] \<and> map fst fs' = map fst fs @ [addr]
          else (\<exists>msg. x = Inl (invalid_argument msg)) \<and> fs' = fs)"
  by (cases b) (auto simp: add_to_families_def entry_in_def Family_GetName_def Family_GetConstantLabels_def
      Family_new_def names_valid_def list_ex_iff Let_def case_prod_beta split: option.splits)

lemmas kind_defs = kind_entry_def kind_type_def kind_names_def kind_addrs_def

text \<open>C12: Registering a family through a builder, on every branch: a name of another type is
  refused; a name of the same type gives the existing family if merging and the constant
  labels agree, and is refused otherwise; a new name is entered if it and the labels are
  valid. A refusal is an exception that leaves the registry as it was, and families of other
  types are never touched.\<close>

theorem registry_add_spec:
  "case Builder_Register T addr (Builder_Labels labels (Builder_Help help (Builder_Name name Builder_new))) r of
     (x, r') \<Rightarrow>
       (\<forall>U. U \<noteq> T \<longrightarrow> kind_names U r' = kind_names U r \<and> kind_addrs U r' = kind_addrs U r) \<and>
       (if \<exists>U. U \<noteq> T \<and> name \<in> set (kind_names U r)
        then x = Inl (invalid_argument ''Family name already exists with different type'') \<and> r' = r
        else case kind_entry T name r of
          Some (a, cl) \<Rightarrow> r' = r \<and>
            x = (if insert_behavior r = Throw then Inl (invalid_argument ''Family name already exists'')
                 else if cl = labels then Inr a
                 else Inl (invalid_argument ''Family name already exists with different constant labels''))
        | None \<Rightarrow>
            if names_valid name labels (kind_type T)
            then x = Inr addr \<and> kind_names T r' = kind_names T r @ [name] \<and> kind_addrs T r' = kind_addrs T r @ [addr]
            else (\<exists>msg. x = Inl (invalid_argument msg)) \<and> r' = r)"
proof -
  obtain x r' where add: "Registry_Add T addr name help labels r = (x, r')" by fastforce
  note frame = Registry_Add_frame [OF add]
  let ?spec = "case kind_entry T name r of
       Some (a, cl) \<Rightarrow> r' = r \<and>
         x = (if insert_behavior r = Throw then Inl (invalid_argument ''Family name already exists'')
              else if cl = labels then Inr a
              else Inl (invalid_argument ''Family name already exists with different constant labels''))
     | None \<Rightarrow>
         if names_valid name labels (kind_type T)
         then x = Inr addr \<and> kind_names T r' = kind_names T r @ [name] \<and> kind_addrs T r' = kind_addrs T r @ [addr]
         else (\<exists>msg. x = Inl (invalid_argument msg)) \<and> r' = r"
  have new: ?spec if other: "\<not> NameExistsInOtherType T name r"
  proof (cases T)
    case Counter_T
    obtain fs where fs: "add_to_families counter_class (insert_behavior r) addr name help labels (reg_counters r) = (x, fs)"
      "r' = r\<lparr>reg_counters := fs\<rparr>"
      using add other Counter_T by (cases "add_to_families counter_class (insert_behavior r) addr name help labels (reg_counters r)")
        (auto simp: Registry_Add_def)
    then show ?spec using Counter_T add_to_families_spec [where cls = counter_class and b = "insert_behavior r"
          and addr = addr and name = name and h = "help" and labels = labels and fs = "reg_counters r"]
      by (cases "entry_in name (reg_counters r)") (simp_all add: kind_defs split: prod.splits if_splits)
  next
    case Gauge_T
    obtain fs where fs: "add_to_families gauge_class (insert_behavior r) addr name help labels (reg_gauges r) = (x, fs)"
      "r' = r\<lparr>reg_gauges := fs\<rparr>"
      using add other Gauge_T by (cases "add_to_families gauge_class (insert_behavior r) addr name help labels (reg_gauges r)")
        (auto simp: Registry_Add_def)
    then show ?spec using Gauge_T add_to_families_spec [where cls = gauge_class and b = "insert_behavior r"
          and addr = addr and name = name and h = "help" and labels = labels and fs = "reg_gauges r"]
      by (cases "entry_in name (reg_gauges r)") (simp_all add: kind_defs split: prod.splits if_splits)
  next
    case Histogram_T
    obtain fs where fs: "add_to_families histogram_class (insert_behavior r) addr name help labels (reg_histograms r) = (x, fs)"
      "r' = r\<lparr>reg_histograms := fs\<rparr>"
      using add other Histogram_T by (cases "add_to_families histogram_class (insert_behavior r) addr name help labels (reg_histograms r)")
        (auto simp: Registry_Add_def)
    then show ?spec using Histogram_T add_to_families_spec [where cls = histogram_class and b = "insert_behavior r"
          and addr = addr and name = name and h = "help" and labels = labels and fs = "reg_histograms r"]
      by (cases "entry_in name (reg_histograms r)") (simp_all add: kind_defs split: prod.splits if_splits)
  next
    case Info_T
    obtain fs where fs: "add_to_families info_class (insert_behavior r) addr name help labels (reg_infos r) = (x, fs)"
      "r' = r\<lparr>reg_infos := fs\<rparr>"
      using add other Info_T by (cases "add_to_families info_class (insert_behavior r) addr name help labels (reg_infos r)")
        (auto simp: Registry_Add_def)
    then show ?spec using Info_T add_to_families_spec [where cls = info_class and b = "insert_behavior r"
          and addr = addr and name = name and h = "help" and labels = labels and fs = "reg_infos r"]
      by (cases "entry_in name (reg_infos r)") (simp_all add: kind_defs split: prod.splits if_splits)
  next
    case Summary_T
    obtain fs where fs: "add_to_families summary_class (insert_behavior r) addr name help labels (reg_summaries r) = (x, fs)"
      "r' = r\<lparr>reg_summaries := fs\<rparr>"
      using add other Summary_T by (cases "add_to_families summary_class (insert_behavior r) addr name help labels (reg_summaries r)")
        (auto simp: Registry_Add_def)
    then show ?spec using Summary_T add_to_families_spec [where cls = summary_class and b = "insert_behavior r"
          and addr = addr and name = name and h = "help" and labels = labels and fs = "reg_summaries r"]
      by (cases "entry_in name (reg_summaries r)") (simp_all add: kind_defs split: prod.splits if_splits)
  qed
  have old: "x = Inl (invalid_argument ''Family name already exists with different type'') \<and> r' = r"
    if "NameExistsInOtherType T name r"
    using add that by (simp add: Registry_Add_def)
  have "if \<exists>U. U \<noteq> T \<and> name \<in> set (kind_names U r)
    then x = Inl (invalid_argument ''Family name already exists with different type'') \<and> r' = r else ?spec"
  proof (cases "\<exists>U. U \<noteq> T \<and> name \<in> set (kind_names U r)")
    case True
    show ?thesis unfolding if_P [OF True] by (rule old) (unfold NameExistsInOtherType_iff, rule True)
  next
    case False
    show ?thesis unfolding if_not_P [OF False] by (rule new) (unfold NameExistsInOtherType_iff, rule False)
  qed
  with add frame show ?thesis
    by (simp add: Builder_Register_def Builder_Labels_def Builder_Help_def Builder_Name_def Builder_new_def)
qed

theorem registry_add_spec_witness:
  "fst (Builder_Register Gauge_T 9 (Builder_Labels [] (Builder_Help '''' (Builder_Name ''up'' Builder_new)))
     (Registry_new Throw)) = Inr 9"
proof -
  have "kind_names U (Registry_new Throw) = []" for U
    by (cases U) (simp_all add: Registry_new_def kind_names_def)
  moreover have "kind_entry Gauge_T ''up'' (Registry_new Throw) = None"
    by (simp add: Registry_new_def kind_entry_def entry_in_def)
  moreover have "names_valid ''up'' [] (kind_type Gauge_T)"
    by (simp add: names_valid_def) code_simp
  ultimately show ?thesis
    using registry_add_spec [where T = Gauge_T and addr = 9 and labels = "[]" and name = "''up''"
        and r = "Registry_new Throw"]
    by (simp add: case_prod_beta)
qed

text \<open>C1: No family and no metric is reported twice: after any calls on the registry and its families,
  what \<open>Collect\<close> returns has no two families of one name, no two metrics of a family with the
  same labels, only valid names, and no label name twice in a metric.\<close>

theorem registry_series_unique:
  assumes "registry_reachable behavior r" and "Registry_Collect clock r = Some (fs, r')"
  shows "distinct (map family_name fs) \<and>
    (\<forall>mf\<in>set fs. CheckMetricName (family_name mf) \<and> family_metric mf \<noteq> [] \<and>
       distinct (map metric_label (family_metric mf)) \<and>
       (\<forall>c\<in>set (family_metric mf). distinct (map label_name (metric_label c)) \<and>
          (\<forall>l\<in>set (metric_label c). CheckLabelName (label_name l) (family_type mf))))"
proof -
  have ok: "registry_ok r" using assms(1) by (rule registry_reachable_ok)
  then have "distinct (map family_name fs)"
    using Registry_Collect_kinds [OF ok assms(2)] by (auto simp: registry_ok_def intro: subseq_distinct)
  then show ?thesis
    using registry.collect_wf [OF ok assms(2)] by (simp add: wf_metric_family_def)
qed

definition demo_registry :: registry where
  "demo_registry = (Registry_new Merge)\<lparr>reg_counters :=
     [(1, demo_family\<lparr>fam_metrics := [([(''path'', ''/'')], 7, Counter_default)]\<rparr>)]\<rparr>"

lemma demo_registry_reachable: "registry_reachable Merge demo_registry"
proof -
  have names: "CheckMetricName ''requests''" "CheckLabelName ''host'' Counter" "CheckLabelName ''path'' Counter"
    by code_simp+
  let ?r1 = "(Registry_new Merge)\<lparr>reg_counters := [(1, demo_family)]\<rparr>"
  let ?f = "demo_family\<lparr>fam_metrics := [([(''path'', ''/'')], 7, Counter_default)]\<rparr>"
  have "Registry_Add Counter_T 1 ''requests'' '''' [(''host'', ''a'')] (Registry_new Merge) = (Inr 1, ?r1)"
    using names by (simp add: Registry_Add_def NameExistsInOtherType_def FamilyNameExists_iff Registry_new_def
        add_to_families_def Family_new_def demo_family_def)
  then have r1: "registry_reachable Merge ?r1"
    by (rule registry_reachable.step [OF registry_reachable.start registry_step.add, rotated 2])
      (simp_all add: wf_labels_def kind_simps Registry_new_def)
  have "Family_Add (\<lambda>es e. es @ [e]) counter_class [(''path'', ''/'')] 7 (Inr Counter_default) demo_family = (Inr 7, ?f)"
    using names by (simp add: Family_Add_def Family_Add_object_def demo_family_def find_entry_def labels_count_def)
  then have "family_step counter_class demo_family ?f"
    by (rule family_step.add [OF append_places, rotated 3]) (simp_all add: wf_labels_def demo_family_def)
  then have "registry_step ?r1 (?r1\<lparr>reg_counters := update_family 1 ?f (reg_counters ?r1)\<rparr>)"
    by (rule registry_step.counter [rotated]) simp
  then show ?thesis
    using r1 by (auto simp: demo_registry_def update_family_def intro: registry_reachable.step)
qed

lemma demo_registry_ok: "registry_ok demo_registry"
  by code_simp

lemma demo_registry_collect:
  "\<exists>fs r'. Registry_Collect clock demo_registry = Some (fs, r') \<and> map family_name fs = [''requests'']"
  by (simp add: Registry_Collect_def demo_registry_def Registry_new_def demo_family_def Family_Collect_def
      CollectMetric_def counter_class_def)

theorem registry_series_unique_witness:
  "\<exists>fs r'. Registry_Collect (\<lambda>a i. 0) demo_registry = Some (fs, r') \<and> map family_name fs = [''requests''] \<and>
     (\<forall>mf\<in>set fs. CheckMetricName (family_name mf))"
proof -
  obtain fs r' where c: "Registry_Collect (\<lambda>a i. 0) demo_registry = Some (fs, r')" "map family_name fs = [''requests'']"
    using demo_registry_collect [of "\<lambda>a i. 0"] by (elim exE conjE) (rule that)
  from registry_series_unique [OF demo_registry_reachable c(1)] c show ?thesis
    by (intro exI [of _ fs] exI [of _ r']) simp
qed

lemma remove_from_families_spec:
  assumes "remove_from_families family fs = (b, fs')" and "distinct (map fst fs)" and "distinct (names_in fs)"
  shows "b = (family \<in> fst ` set fs) \<and> fst ` set fs' = fst ` set fs - {family} \<and>
      (\<forall>i<length fs. fst (fs ! i) = family \<longrightarrow> fam_name (snd (fs ! i)) \<notin> set (names_in fs'))"
proof -
  have P: "(\<lambda>(a, f). family = a) = (\<lambda>x. fst x = family)" by (auto simp: fun_eq_iff)
  have fs': "fs' = filter (\<lambda>x. fst x \<noteq> family) fs" and b: "b = (family \<in> fst ` set fs)"
  proof (atomize (full), cases "find (\<lambda>x. fst x = family) fs")
    case None
    then have "\<forall>x\<in>set fs. fst x \<noteq> family" unfolding find_None_iff by blast
    then have "filter (\<lambda>x. fst x \<noteq> family) fs = fs" by (rule filter_True)
    then show "fs' = filter (\<lambda>x. fst x \<noteq> family) fs \<and> b = (family \<in> fst ` set fs)"
      using assms(1) None by (auto simp: remove_from_families_def P find_None_iff)
  next
    case (Some x)
    then have "family \<in> fst ` set fs" using find_Some_in_set [of "\<lambda>x. fst x = family" fs x] by force
    then show "fs' = filter (\<lambda>x. fst x \<noteq> family) fs \<and> b = (family \<in> fst ` set fs)"
      using assms(1) Some remove_first_filter [OF assms(2), of family]
      by (simp add: remove_from_families_def P)
  qed
  have "fam_name (snd (fs ! i)) \<notin> set (names_in fs')" if i: "i < length fs" "fst (fs ! i) = family" for i
  proof
    assume "fam_name (snd (fs ! i)) \<in> set (names_in fs')"
    then obtain x where "x \<in> set fs" "fst x \<noteq> family" "fam_name (snd x) = fam_name (snd (fs ! i))"
      unfolding fs' by auto
    then obtain j where j: "j < length fs" "fst (fs ! j) \<noteq> family" "fam_name (snd (fs ! j)) = fam_name (snd (fs ! i))"
      by (auto simp: in_set_conv_nth)
    then have "j = i" using nth_eq_iff_index_eq [OF assms(3), of j i] i(1) by simp
    then show False using j(2) i(2) by simp
  qed
  then show ?thesis using fs' b by auto
qed

text \<open>\<open>Remove\<close> tells whether the registry holds the family, and afterwards it does not: its
  address and its name are gone, all others of its type stay, and the name can be registered
  again, by any type.\<close>

theorem registry_remove_spec:
  assumes "registry_reachable behavior r" and "Registry_Remove T family r = (b, r')"
  shows "b = (family \<in> set (kind_addrs T r)) \<and> set (kind_addrs T r') = set (kind_addrs T r) - {family} \<and>
    (\<forall>U. U \<noteq> T \<longrightarrow> kind_addrs U r' = kind_addrs U r \<and> kind_names U r' = kind_names U r) \<and>
    (\<forall>i<length (kind_addrs T r). kind_addrs T r ! i = family \<longrightarrow>
       kind_names T r ! i \<notin> set (registry_names r'))"
proof -
  have ok: "registry_ok r" using assms(1) by (rule registry_reachable_ok)
  have d: "distinct (kind_names T r)" "kind_ok T r"
    using ok by (cases T; auto simp: registry_ok_def registry_names_def)+
  have own: "b = (family \<in> set (kind_addrs T r)) \<and> set (kind_addrs T r') = set (kind_addrs T r) - {family} \<and>
    (\<forall>i<length (kind_addrs T r). kind_addrs T r ! i = family \<longrightarrow> kind_names T r ! i \<notin> set (kind_names T r'))"
  proof (cases T)
    case Counter_T
    then obtain fs where "remove_from_families family (reg_counters r) = (b, fs)" "r' = r\<lparr>reg_counters := fs\<rparr>"
      using assms(2) by (auto simp: Registry_Remove_def apsnd_def map_prod_def split: prod.splits)
    with remove_from_families_spec [of family "reg_counters r" b fs] d Counter_T show ?thesis
      by (simp add: kind_simps families_ok_def)
  next
    case Gauge_T
    then obtain fs where "remove_from_families family (reg_gauges r) = (b, fs)" "r' = r\<lparr>reg_gauges := fs\<rparr>"
      using assms(2) by (auto simp: Registry_Remove_def apsnd_def map_prod_def split: prod.splits)
    with remove_from_families_spec [of family "reg_gauges r" b fs] d Gauge_T show ?thesis
      by (simp add: kind_simps families_ok_def)
  next
    case Histogram_T
    then obtain fs where "remove_from_families family (reg_histograms r) = (b, fs)" "r' = r\<lparr>reg_histograms := fs\<rparr>"
      using assms(2) by (auto simp: Registry_Remove_def apsnd_def map_prod_def split: prod.splits)
    with remove_from_families_spec [of family "reg_histograms r" b fs] d Histogram_T show ?thesis
      by (simp add: kind_simps families_ok_def)
  next
    case Info_T
    then obtain fs where "remove_from_families family (reg_infos r) = (b, fs)" "r' = r\<lparr>reg_infos := fs\<rparr>"
      using assms(2) by (auto simp: Registry_Remove_def apsnd_def map_prod_def split: prod.splits)
    with remove_from_families_spec [of family "reg_infos r" b fs] d Info_T show ?thesis
      by (simp add: kind_simps families_ok_def)
  next
    case Summary_T
    then obtain fs where "remove_from_families family (reg_summaries r) = (b, fs)" "r' = r\<lparr>reg_summaries := fs\<rparr>"
      using assms(2) by (auto simp: Registry_Remove_def apsnd_def map_prod_def split: prod.splits)
    with remove_from_families_spec [of family "reg_summaries r" b fs] d Summary_T show ?thesis
      by (simp add: kind_simps families_ok_def)
  qed
  have others: "kind_names T r ! i \<notin> set (kind_names U r')" if "i < length (kind_addrs T r)" "U \<noteq> T" for i U
  proof -
    have "length (kind_addrs T r) = length (kind_names T r)" by (cases T) (simp_all add: kind_simps)
    then have "kind_names T r ! i \<in> set (kind_names T r)" using that(1) by simp
    moreover have "set (kind_names T r) \<inter> set (kind_names U r) = {}"
      using ok that(2) unfolding registry_ok_def registry_names_def by (cases T; cases U; auto)
    ultimately show ?thesis using Registry_Remove_frame [OF assms(2) that(2)] by auto
  qed
  have "kind_names T r ! i \<notin> set (registry_names r')" if "i < length (kind_addrs T r)" "kind_addrs T r ! i = family" for i
  proof
    assume "kind_names T r ! i \<in> set (registry_names r')"
    then obtain U where "kind_names T r ! i \<in> set (kind_names U r')" by (auto simp: registry_names_def)
    then show False using own others [OF that(1), of U] that by (cases "U = T") auto
  qed
  then show ?thesis using own Registry_Remove_frame [OF assms(2)] by blast
qed

theorem registry_remove_spec_witness:
  "\<exists>r'. Registry_Remove Counter_T 1 demo_registry = (True, r') \<and> ''requests'' \<notin> set (registry_names r')"
proof -
  obtain b r' where rm: "Registry_Remove Counter_T 1 demo_registry = (b, r')" by fastforce
  from registry_remove_spec [OF demo_registry_reachable rm] rm show ?thesis
    by (auto simp: kind_simps demo_registry_def demo_family_def Registry_new_def)
qed

end
