(* ===== verification/RegistryConcurrent.thy ===== *)
theory RegistryConcurrent
  imports Guarded Registry
begin

text \<open>
  Threads that register and remove families at one registry, statement by statement. \<open>Add\<close> looks
  through the lists of all types, then decides, then appends: between these the mutex keeps every
  other registration out, so that no name is entered twice. The calls are shown to be those of
  \<open>Registry\<close>, one after the other. What the threads do with the families meanwhile does not touch
  what these calls read: names, constant labels and addresses never change.
\<close>

subsection \<open>The statements\<close>

datatype registration_call = Register_family metric_kind nat string string label_map | Unregister_family metric_kind nat

datatype registration_answer = Registered "cpp_exception + nat" | Unregistered bool

text \<open>The local variables: the family \<open>it\<close> points to, by its address and constant labels, if any;
  and what the call has returned or thrown, when it has.\<close>

record registry_local =
  rl_it :: "(nat \<times> label_map) option"
  rl_answer :: "registration_answer option"

definition registry_init :: registry_local where
  "registry_init = \<lparr>rl_it = None, rl_answer = None\<rparr>"

type_synonym registry_statement = "registry \<times> registry_local \<Rightarrow> registry \<times> registry_local"

definition check_other_types :: "metric_kind \<Rightarrow> string \<Rightarrow> registry_statement" where
  "check_other_types T name = (\<lambda>(r, l).
     if NameExistsInOtherType T name r
     then (r, l\<lparr>rl_answer := Some (Registered (Inl (invalid_argument ''Family name already exists with different type'')))\<rparr>)
     else (r, l))"

definition find_same_name :: "metric_kind \<Rightarrow> string \<Rightarrow> registry_statement" where
  "find_same_name T name = (\<lambda>(r, l). if rl_answer l \<noteq> None then (r, l) else (r, l\<lparr>rl_it := kind_entry T name r\<rparr>))"

definition merge_or_throw :: "label_map \<Rightarrow> registry_statement" where
  "merge_or_throw labels = (\<lambda>(r, l). if rl_answer l \<noteq> None then (r, l) else
     case rl_it l of
       None \<Rightarrow> (r, l)
     | Some (a, clabels) \<Rightarrow>
         (r, l\<lparr>rl_answer := Some (Registered
            (if insert_behavior r = Merge then
               (if clabels = labels then Inr a
                else Inl (invalid_argument ''Family name already exists with different constant labels''))
             else Inl (invalid_argument ''Family name already exists'')))\<rparr>))"

definition push_back_family :: "'m metric_class \<Rightarrow> nat \<Rightarrow> string \<Rightarrow> string \<Rightarrow> label_map \<Rightarrow> 'm families \<Rightarrow>
    (cpp_exception + nat) \<times> 'm families" where
  "push_back_family cls addr name h labels families =
     (case Family_new cls name h labels of
        Inl e \<Rightarrow> (Inl e, families)
      | Inr family \<Rightarrow> (Inr addr, families @ [(addr, family)]))"

definition create_family :: "metric_kind \<Rightarrow> nat \<Rightarrow> string \<Rightarrow> string \<Rightarrow> label_map \<Rightarrow> registry_statement" where
  "create_family T addr name h labels = (\<lambda>(r, l). if rl_answer l \<noteq> None then (r, l) else
     (case (case T of
          Counter_T \<Rightarrow> apsnd (\<lambda>fs. r\<lparr>reg_counters := fs\<rparr>) (push_back_family counter_class addr name h labels (reg_counters r))
        | Gauge_T \<Rightarrow> apsnd (\<lambda>fs. r\<lparr>reg_gauges := fs\<rparr>) (push_back_family gauge_class addr name h labels (reg_gauges r))
        | Histogram_T \<Rightarrow> apsnd (\<lambda>fs. r\<lparr>reg_histograms := fs\<rparr>) (push_back_family histogram_class addr name h labels (reg_histograms r))
        | Info_T \<Rightarrow> apsnd (\<lambda>fs. r\<lparr>reg_infos := fs\<rparr>) (push_back_family info_class addr name h labels (reg_infos r))
        | Summary_T \<Rightarrow> apsnd (\<lambda>fs. r\<lparr>reg_summaries := fs\<rparr>) (push_back_family summary_class addr name h labels (reg_summaries r)))
      of (x, r') \<Rightarrow> (r', l\<lparr>rl_answer := Some (Registered x)\<rparr>)))"

definition find_same_family :: "metric_kind \<Rightarrow> nat \<Rightarrow> registry_statement" where
  "find_same_family T family = (\<lambda>(r, l).
     (r, l\<lparr>rl_it := map_option (\<lambda>a. (a, [])) (find (\<lambda>a. family = a) (kind_addrs T r))\<rparr>))"

definition return_unknown :: registry_statement where
  "return_unknown = (\<lambda>(r, l). if rl_it l = None then (r, l\<lparr>rl_answer := Some (Unregistered False)\<rparr>) else (r, l))"

definition erase_family :: "metric_kind \<Rightarrow> registry_statement" where
  "erase_family T = (\<lambda>(r, l). if rl_answer l \<noteq> None then (r, l) else
     let p = fst (the (rl_it l)) in
     (case T of
          Counter_T \<Rightarrow> r\<lparr>reg_counters := remove_first (\<lambda>(a, f). p = a) (reg_counters r)\<rparr>
        | Gauge_T \<Rightarrow> r\<lparr>reg_gauges := remove_first (\<lambda>(a, f). p = a) (reg_gauges r)\<rparr>
        | Histogram_T \<Rightarrow> r\<lparr>reg_histograms := remove_first (\<lambda>(a, f). p = a) (reg_histograms r)\<rparr>
        | Info_T \<Rightarrow> r\<lparr>reg_infos := remove_first (\<lambda>(a, f). p = a) (reg_infos r)\<rparr>
        | Summary_T \<Rightarrow> r\<lparr>reg_summaries := remove_first (\<lambda>(a, f). p = a) (reg_summaries r)\<rparr>,
      l\<lparr>rl_answer := Some (Unregistered True)\<rparr>))"

fun registry_code :: "registration_call \<Rightarrow> registry_local + registry_statement list" where
  "registry_code (Register_family T addr name h labels) =
     Inr [check_other_types T name, find_same_name T name, merge_or_throw labels, create_family T addr name h labels]"
| "registry_code (Unregister_family T family) = Inr [find_same_family T family, return_unknown, erase_family T]"

text \<open>The operations of the sequential model.\<close>

fun registration_spec :: "registration_call \<Rightarrow> registry \<Rightarrow> registry \<times> registration_answer option" where
  "registration_spec (Register_family T addr name h labels) r =
     (case Registry_Add T addr name h labels r of (x, r') \<Rightarrow> (r', Some (Registered x)))"
| "registration_spec (Unregister_family T family) r =
     (case Registry_Remove T family r of (b, r') \<Rightarrow> (r', Some (Unregistered b)))"

subsection \<open>The statements do what the operations do\<close>

lemma add_to_families_split:
  "add_to_families cls b addr name h labels fs =
     (case entry_in name fs of
        Some (a, clabels) \<Rightarrow>
          (if b = Merge then
             (if clabels = labels then Inr a
              else Inl (invalid_argument ''Family name already exists with different constant labels''))
           else Inl (invalid_argument ''Family name already exists''), fs)
      | None \<Rightarrow> push_back_family cls addr name h labels fs)"
  by (auto simp: add_to_families_def entry_in_def push_back_family_def Family_GetName_def Family_GetConstantLabels_def
      case_prod_beta split: option.splits)

lemma register_statements:
  "apsnd rl_answer (run_statements [check_other_types T name, find_same_name T name, merge_or_throw labels,
     create_family T addr name h labels] (r, registry_init)) = registration_spec (Register_family T addr name h labels) r"
proof (cases "NameExistsInOtherType T name r")
  case True
  then show ?thesis
    by (simp add: check_other_types_def find_same_name_def merge_or_throw_def create_family_def Registry_Add_def)
next
  case False
  then show ?thesis
    by (cases T; cases "kind_entry T name r")
      (auto simp: check_other_types_def find_same_name_def merge_or_throw_def create_family_def Registry_Add_def
        add_to_families_split registry_init_def kind_entry_def split: prod.splits)
qed

lemma find_key: "find (\<lambda>a. p = a) (map fst fs) = (if p \<in> fst ` set fs then Some p else None)"
  by (induction fs) auto

lemma remove_from_families_split:
  "remove_from_families p fs =
     (if p \<in> fst ` set fs then (True, remove_first (\<lambda>(a, f). p = a) fs) else (False, fs))"
proof -
  have "find (\<lambda>(a, f). p = a) fs = None \<longleftrightarrow> p \<notin> fst ` set fs" by (force simp: find_None_iff)
  then show ?thesis by (auto simp: remove_from_families_def split: option.splits)
qed

lemma unregister_statements:
  "apsnd rl_answer (run_statements [find_same_family T p, return_unknown, erase_family T] (r, registry_init)) =
     registration_spec (Unregister_family T p) r"
  by (cases T) (auto simp: find_same_family_def return_unknown_def erase_family_def Registry_Remove_def kind_addrs_def
      find_key remove_from_families_split registry_init_def Let_def simp del: set_map)

lemma registry_run_spec:
  "registry_code c = Inr ms \<Longrightarrow> registration_spec c r = apsnd rl_answer (run_statements ms (r, registry_init))"
  using register_statements unregister_statements by (cases c) (auto simp del: registration_spec.simps run_statements_simps)

lemma registry_never_early: "registry_code c \<noteq> Inl l"
  by (cases c) simp_all

interpretation registrations: guarded_object registry_code registry_init registration_spec rl_answer "\<lambda>r. True"
  by unfold_locales (simp_all add: registry_run_spec registry_never_early)

subsection \<open>What is registered\<close>

text \<open>The families of one type: address, name, constant labels.\<close>

definition keys_in :: "'m families \<Rightarrow> (nat \<times> string \<times> label_map) list" where
  "keys_in fs = map (\<lambda>(a, f). (a, fam_name f, fam_constant_labels f)) fs"

definition kind_keys :: "metric_kind \<Rightarrow> registry \<Rightarrow> (nat \<times> string \<times> label_map) list" where
  "kind_keys T r = (case T of
     Counter_T \<Rightarrow> keys_in (reg_counters r) | Gauge_T \<Rightarrow> keys_in (reg_gauges r)
   | Histogram_T \<Rightarrow> keys_in (reg_histograms r) | Info_T \<Rightarrow> keys_in (reg_infos r)
   | Summary_T \<Rightarrow> keys_in (reg_summaries r))"

lemma keys_in_maps: "map fst (keys_in fs) = map fst fs" "map (\<lambda>k. fst (snd k)) (keys_in fs) = names_in fs"
  by (induction fs) (auto simp: keys_in_def)

lemma kind_keys_maps: "kind_addrs T r = map fst (kind_keys T r)" "kind_names T r = map (\<lambda>k. fst (snd k)) (kind_keys T r)"
  by (cases T; simp add: kind_keys_def kind_addrs_def kind_names_def keys_in_maps)+

lemma add_keys:
  "add_to_families cls b addr name h labels fs = (x, fs') \<Longrightarrow>
   (keys_in fs' = keys_in fs \<or> keys_in fs' = keys_in fs @ [(addr, name, labels)]) \<and>
   (\<forall>a. x = Inr a \<longrightarrow> (a, name, labels) \<in> set (keys_in fs'))"
  using add_to_families_cases [of cls b addr name h labels fs x fs']
  by (auto simp: keys_in_def Family_new_name image_iff split: sum.splits) force+

lemma Registry_Add_keys:
  assumes "Registry_Add T addr name h labels r = (x, r')"
  shows "(kind_keys U r' = kind_keys U r \<or> U = T \<and> kind_keys U r' = kind_keys U r @ [(addr, name, labels)]) \<and>
    (\<forall>a. x = Inr a \<longrightarrow> (a, name, labels) \<in> set (kind_keys T r'))"
  using assms
  by (cases T; cases U) (auto simp: Registry_Add_def kind_keys_def apsnd_def map_prod_def split: prod.splits if_splits dest!: add_keys)

lemma remove_keys:
  "keys_in (snd (remove_from_families p fs)) = remove_first (\<lambda>k. fst k = p) (keys_in fs)"
proof -
  have "keys_in (remove_first (\<lambda>(a, f). p = a) fs) = remove_first (\<lambda>k. fst k = p) (keys_in fs)"
    by (induction fs) (auto simp: keys_in_def)
  moreover have "p \<notin> fst ` set fs \<Longrightarrow> remove_first (\<lambda>k. fst k = p) (keys_in fs) = keys_in fs"
    by (induction fs) (auto simp: keys_in_def)
  ultimately show ?thesis by (simp add: remove_from_families_split)
qed

lemma Registry_Remove_keys:
  "Registry_Remove T p r = (b, r') \<Longrightarrow>
   kind_keys U r' = (if U = T then remove_first (\<lambda>k. fst k = p) (kind_keys U r) else kind_keys U r)"
  using remove_keys [of p "reg_counters r"] remove_keys [of p "reg_gauges r"] remove_keys [of p "reg_histograms r"]
    remove_keys [of p "reg_infos r"] remove_keys [of p "reg_summaries r"]
  by (cases T; cases U) (auto simp: Registry_Remove_def kind_keys_def apsnd_def map_prod_def split: prod.splits)

lemma remove_first_keeps: "x \<in> set xs \<Longrightarrow> \<not> P x \<Longrightarrow> x \<in> set (remove_first P xs)"
  by (induction xs) auto

lemma registry_keys_unique:
  assumes "registry_ok r" and "(a, name, labels) \<in> set (kind_keys T r)" and "(b, name, labels') \<in> set (kind_keys U r)"
  shows "T = U \<and> a = b \<and> labels = labels'"
proof -
  have in_names: "name \<in> set (kind_names T r)" "name \<in> set (kind_names U r)"
    using assms(2,3) by (force simp: kind_keys_maps)+
  have d: "distinct (kind_names Counter_T r @ kind_names Gauge_T r @ kind_names Histogram_T r @ kind_names Info_T r @ kind_names Summary_T r)"
    using assms(1) by (simp add: registry_ok_def registry_names_def)
  then have "set (kind_names V r) \<inter> set (kind_names W r) = {}" if "V \<noteq> W" for V W
    using that by (cases V; cases W; auto)
  then have T: "T = U" using in_names by blast
  have "distinct (kind_names T r)" using d by (cases T) auto
  then have inj: "inj_on (\<lambda>k. fst (snd k)) (set (kind_keys T r))" by (simp add: kind_keys_maps distinct_map)
  have "(a, name, labels) = (b, name, labels')" by (rule inj_onD [OF inj]) (use assms(2,3) T in simp_all)
  then show ?thesis using T by simp
qed

fun registered_addrs :: "registration_call \<Rightarrow> nat list" where
  "registered_addrs (Register_family T addr name h labels) = [addr]"
| "registered_addrs (Unregister_family T p) = []"

fun proper_registration :: "registry \<Rightarrow> registration_call \<Rightarrow> bool" where
  "proper_registration r (Register_family T addr name h labels) \<longleftrightarrow> wf_labels labels \<and> (\<forall>U. addr \<notin> set (kind_addrs U r))"
| "proper_registration r (Unregister_family T p) \<longleftrightarrow> True"

lemma registration_keeps:
  assumes "registry_ok r" and "proper_registration r c"
  shows "registry_ok (fst (registration_spec c r)) \<and>
    set (kind_addrs U (fst (registration_spec c r))) \<subseteq> set (kind_addrs U r) \<union> set (registered_addrs c)"
proof (cases c)
  case (Register_family T addr name h labels)
  obtain x r' where "Registry_Add T addr name h labels r = (x, r')" by fastforce
  then show ?thesis using assms Register_family registry_ok_Add [of r labels addr T name h x r'] Registry_Add_keys [of T addr name h labels r x r' U]
    by (auto simp: kind_keys_maps)
next
  case (Unregister_family T p)
  obtain b r' where "Registry_Remove T p r = (b, r')" by fastforce
  then show ?thesis using assms(1) Unregister_family registry_ok_Remove [of T p r b r'] Registry_Remove_keys [of T p r b r' U]
      set_remove_first [of "\<lambda>k. fst k = p" "kind_keys U r"]
    by (auto simp: kind_keys_maps)
qed

lemma registrations_ok:
  "replays registration_spec r (answers_of rl_answer calls) y \<Longrightarrow> registry_ok r \<Longrightarrow>
   list_all (proper_registration r) (calls_of calls) \<Longrightarrow> distinct (concat (map registered_addrs (calls_of calls))) \<Longrightarrow> registry_ok y"
proof (induction calls arbitrary: r)
  case (Cons p calls)
  obtain i c l where p: "p = (i, c, l)" by (cases p)
  let ?r = "fst (registration_spec c r)"
  have c: "registry_ok ?r" "set (kind_addrs U ?r) \<subseteq> set (kind_addrs U r) \<union> set (registered_addrs c)" for U
    using registration_keeps [OF Cons.prems(2), of c] Cons.prems(3) p by auto
  have apart: "set (registered_addrs c) \<inter> set (concat (map registered_addrs (calls_of calls))) = {}"
    using Cons.prems(4) p by auto
  have "proper_registration ?r d" if d: "d \<in> set (calls_of calls)" for d
  proof -
    have "proper_registration r d" using Cons.prems(3) p d by (auto simp: list_all_iff)
    moreover have "set (registered_addrs d) \<inter> set (registered_addrs c) = {}" using apart d by auto
    ultimately show ?thesis using c(2) by (cases d) auto
  qed
  then show ?case using Cons.IH [of ?r] Cons.prems(1,4) c(1) p by (auto simp: list_all_iff simp del: registration_spec.simps)
qed simp

lemma registered_stays:
  "replays registration_spec r (answers_of rl_answer calls) y \<Longrightarrow> k \<in> set (kind_keys T r) \<Longrightarrow>
   Unregister_family T (fst k) \<notin> set (calls_of calls) \<Longrightarrow> k \<in> set (kind_keys T y)"
proof (induction calls arbitrary: r)
  case (Cons p calls)
  obtain i c l where p: "p = (i, c, l)" by (cases p)
  have "k \<in> set (kind_keys T (fst (registration_spec c r)))"
  proof (cases c)
    case (Register_family U addr name h labels)
    obtain x r' where "Registry_Add U addr name h labels r = (x, r')" by fastforce
    then show ?thesis using Cons.prems(2) Register_family Registry_Add_keys [of U addr name h labels r x r' T] by auto
  next
    case (Unregister_family U q)
    obtain b r' where "Registry_Remove U q r = (b, r')" by fastforce
    moreover have "U = T \<Longrightarrow> fst k \<noteq> q" using Cons.prems(3) Unregister_family p by auto
    ultimately show ?thesis
      using Cons.prems(2) Unregister_family Registry_Remove_keys [of U q r b r' T] remove_first_keeps [of k "kind_keys T r"] by auto
  qed
  then show ?case using Cons.IH Cons.prems(1,3) p by (auto simp del: registration_spec.simps)
qed simp

lemma registered_entered:
  assumes "replays registration_spec r (answers_of rl_answer calls) y" and "(i, Register_family T addr name h labels, l) \<in> set calls"
    and "rl_answer l = Some (Registered (Inr a))" and "Unregister_family T a \<notin> set (calls_of calls)"
  shows "(a, name, labels) \<in> set (kind_keys T y)"
proof -
  obtain us vs where split: "calls = us @ (i, Register_family T addr name h labels, l) # vs" using split_list [OF assms(2)] by blast
  obtain r1 where r1: "snd (registration_spec (Register_family T addr name h labels) r1) = rl_answer l"
    "replays registration_spec (fst (registration_spec (Register_family T addr name h labels) r1)) (answers_of rl_answer vs) y"
    using assms(1) unfolding split by (auto simp: replays_append simp del: registration_spec.simps)
  obtain x r2 where r2: "Registry_Add T addr name h labels r1 = (x, r2)" by fastforce
  then have "x = Inr a" using r1(1) assms(3) by simp
  then have "(a, name, labels) \<in> set (kind_keys T r2)" using Registry_Add_keys [OF r2] by blast
  then show ?thesis using r1(2) r2 assms(4) registered_stays [of r2 vs y "(a, name, labels)" T] split by simp
qed

subsection \<open>Properties\<close>

text \<open>C11: Any number of threads that register and remove families at one registry, their statements
  interleaved in any way the mutex allows: every answer, exceptions included, is that of \<open>Registry\<close>
  when the calls are made one after the other in the order in which they ended; the registry
  always has valid names and no name twice; each thread makes its calls in its order and no two are
  inside at once; and any two registrations of one name that return, in whatever threads, are of
  one type and one set of constant labels and give the same family, unless a thread has removed
  it. When the threads are finitely many, no schedule goes on forever or stops before every call
  has returned.\<close>

theorem registry_concurrent:
  assumes "registry_reachable behavior r0" and "owned_once (proper_registration r0) registered_addrs prog"
    and "(guarded_step registry_code registry_init)\<^sup>*\<^sup>* (guarded_start r0 prog) st"
  shows "(\<forall>i. made_by i (g_done st) @ in_section (g_phase st i) @ g_calls st i = prog i) \<and>
    (\<forall>i j. g_phase st i \<noteq> Outside \<and> g_phase st j \<noteq> Outside \<longrightarrow> i = j) \<and>
    (\<exists>r. registry_ok r \<and> (\<not> g_locked st \<longrightarrow> g_object st = r) \<and>
       replays registration_spec r0 (answers_of rl_answer (g_done st)) r) \<and>
    (\<forall>i T a1 h1 labels1 l1 a j U a2 h2 labels2 l2 b name.
       (i, Register_family T a1 name h1 labels1, l1) \<in> set (g_done st) \<and> rl_answer l1 = Some (Registered (Inr a)) \<and>
       (j, Register_family U a2 name h2 labels2, l2) \<in> set (g_done st) \<and> rl_answer l2 = Some (Registered (Inr b)) \<and>
       Unregister_family T a \<notin> set (calls_of (g_done st)) \<and> Unregister_family U b \<notin> set (calls_of (g_done st)) \<longrightarrow>
       T = U \<and> labels1 = labels2 \<and> a = b) \<and>
    (\<forall>threads. (\<forall>i\<ge>threads. prog i = []) \<longrightarrow> surely_return registry_code registry_init threads st)"
proof -
  note lin = registrations.linearizable [OF assms(3) TrueI]
  obtain r where r: "replays registration_spec r0 (answers_of rl_answer (g_done st)) r" "\<not> g_locked st \<longrightarrow> g_object st = r"
    using lin by blast
  have "\<forall>i. \<exists>rest. made_by i (g_done st) @ rest = prog i" using lin by blast
  note once = owned_once_history [OF assms(2) this]
  have ok: "registry_ok r"
    using registrations_ok [OF r(1) registry_reachable_ok [OF assms(1)]] once by blast
  have "T = U \<and> labels1 = labels2 \<and> a = b"
    if x: "(i, Register_family T a1 name h1 labels1, l1) \<in> set (g_done st)" "rl_answer l1 = Some (Registered (Inr a))"
    and y: "(j, Register_family U a2 name h2 labels2, l2) \<in> set (g_done st)" "rl_answer l2 = Some (Registered (Inr b))"
    and stay: "Unregister_family T a \<notin> set (calls_of (g_done st))" "Unregister_family U b \<notin> set (calls_of (g_done st))"
    for i T a1 h1 labels1 l1 a j U a2 h2 labels2 l2 b name
    using registry_keys_unique [OF ok registered_entered [OF r(1) x stay(1)] registered_entered [OF r(1) y stay(2)]] by blast
  then show ?thesis using lin r ok registrations.returns [OF assms(3) TrueI] by blast
qed

text \<open>Two threads register the same name with different types: the second is refused.\<close>

definition registration_race :: "nat \<Rightarrow> registration_call list" where
  "registration_race i = (if i = 0 then [Register_family Counter_T 1 ''up'' '''' []]
     else if i = 1 then [Register_family Gauge_T 2 ''up'' '''' []] else [])"

lemma registration_race_run:
  "\<exists>st l1 l2. (guarded_step registry_code registry_init)\<^sup>*\<^sup>* (guarded_start (Registry_new Merge) registration_race) st \<and>
     g_done st = [(0, Register_family Counter_T 1 ''up'' '''' [], l1), (1, Register_family Gauge_T 2 ''up'' '''' [], l2)]"
proof -
  let ?ms = "\<lambda>T a. [check_other_types T ''up'', find_same_name T ''up'', merge_or_throw [], create_family T a ''up'' '''' []]"
  obtain r l where "run_statements (?ms Counter_T 1) (Registry_new Merge, registry_init) = (r, l)" by fastforce
  from two_calls_in_turn [OF _ _ _ _ this, of registration_race _ _ registry_code "?ms Gauge_T 2"]
  show ?thesis by (fastforce simp: registration_race_def)
qed

theorem registry_concurrent_witness:
  "\<exists>st l1 l2. (guarded_step registry_code registry_init)\<^sup>*\<^sup>* (guarded_start (Registry_new Merge) registration_race) st \<and>
     g_done st = [(0, Register_family Counter_T 1 ''up'' '''' [], l1), (1, Register_family Gauge_T 2 ''up'' '''' [], l2)] \<and>
     rl_answer l1 = Some (Registered (Inr 1)) \<and>
     rl_answer l2 = Some (Registered (Inl (invalid_argument ''Family name already exists with different type'')))"
proof -
  obtain st l1 l2 where st: "(guarded_step registry_code registry_init)\<^sup>*\<^sup>* (guarded_start (Registry_new Merge) registration_race) st"
    "g_done st = [(0, Register_family Counter_T 1 ''up'' '''' [], l1), (1, Register_family Gauge_T 2 ''up'' '''' [], l2)]"
    using registration_race_run by blast
  have fresh: "owned_once (proper_registration (Registry_new Merge)) registered_addrs registration_race"
    by (simp add: owned_once_def registration_race_def wf_labels_def all_kinds kind_addrs_def Registry_new_def)
  have name: "CheckMetricName ''up''" by code_simp
  from registry_concurrent [OF registry_reachable.start fresh st(1)] obtain r where
    "replays registration_spec (Registry_new Merge) (answers_of rl_answer (g_done st)) r" by blast
  then have "rl_answer l1 = Some (Registered (Inr 1)) \<and>
      rl_answer l2 = Some (Registered (Inl (invalid_argument ''Family name already exists with different type'')))"
    using name by (auto simp: st(2) Registry_Add_def NameExistsInOtherType_def FamilyNameExists_iff Registry_new_def
        add_to_families_def Family_new_def)
  then show ?thesis using st by blast
qed

end
