(* ===== verification/SharedCounter.thy ===== *)
theory SharedCounter
  imports Registry
begin

text \<open>
  How programs use the library from several threads: each registers the family of one name through
  a builder, adds the counter of one set of labels, and increments it, while the rest of the program
  does anything but remove or write that series. The calls are one step each, which
  \<open>RegistryConcurrent\<close>, \<open>FamilyConcurrent\<close> and \<open>GaugeAtomic\<close> justify. All threads come to hold the same
  counter, and no increment is lost.
\<close>

subsection \<open>Threads that share a series\<close>

text \<open>What a thread has a reference to: nothing yet, the family, the family and the counter.\<close>

datatype client = Starting | Has_family nat | Has_counter nat nat

text \<open>\<open>us_total\<close> counts the increments that threads have made.\<close>

record usage =
  us_registry :: registry
  us_client :: "nat \<Rightarrow> client"
  us_total :: nat

definition families_named :: "string \<Rightarrow> registry \<Rightarrow> nat set" where
  "families_named name r = {a. \<exists>f. (a, f) \<in> set (reg_counters r) \<and> fam_name f = name}"

definition series_of :: "string \<Rightarrow> label_map \<Rightarrow> registry \<Rightarrow> (nat \<times> nat \<times> counter) set" where
  "series_of name ls r = {(a, p, c). \<exists>f. (a, f) \<in> set (reg_counters r) \<and> fam_name f = name \<and> (ls, p, c) \<in> set (fam_metrics f)}"

inductive usage_step :: "string \<Rightarrow> label_map \<Rightarrow> usage \<Rightarrow> usage \<Rightarrow> bool" for name :: string and ls :: label_map where
  register: "us_client u i = Starting \<Longrightarrow> wf_labels labels \<Longrightarrow> addr \<notin> set (kind_addrs Counter_T (us_registry u)) \<Longrightarrow>
    Builder_Register Counter_T addr (Builder_Labels labels (Builder_Help h (Builder_Name name Builder_new))) (us_registry u) = (Inr a, r') \<Longrightarrow>
    usage_step name ls u (u\<lparr>us_registry := r', us_client := (us_client u)(i := Has_family a)\<rparr>)"
| add: "us_client u i = Has_family a \<Longrightarrow> (a, f) \<in> set (reg_counters (us_registry u)) \<Longrightarrow> places place \<Longrightarrow> wf_labels ls \<Longrightarrow>
    addr \<noteq> 0 \<Longrightarrow> addr \<notin> entry_addr ` set (fam_metrics f) \<Longrightarrow>
    Family_Add place counter_class ls addr (Inr Counter_default) f = (Inr p, f') \<Longrightarrow>
    usage_step name ls u (u\<lparr>us_registry := (us_registry u)\<lparr>reg_counters := update_family a f' (reg_counters (us_registry u))\<rparr>,
      us_client := (us_client u)(i := Has_counter a p)\<rparr>)"
| increment: "us_client u i = Has_counter a p \<Longrightarrow> (a, f) \<in> set (reg_counters (us_registry u)) \<Longrightarrow>
    usage_step name ls u (u\<lparr>us_registry := (us_registry u)\<lparr>reg_counters :=
        update_family a (Family_touch p Counter_Increment f) (reg_counters (us_registry u))\<rparr>,
      us_total := us_total u + 1\<rparr>)"
| others: "registry_step (us_registry u) r' \<Longrightarrow> series_of name ls r' = series_of name ls (us_registry u) \<Longrightarrow>
    families_named name (us_registry u) \<subseteq> families_named name r' \<Longrightarrow>
    usage_step name ls u (u\<lparr>us_registry := r'\<rparr>)"

definition usage_start :: "registry \<Rightarrow> usage" where
  "usage_start r = \<lparr>us_registry = r, us_client = (\<lambda>i. Starting), us_total = 0\<rparr>"

fun family_held :: "client \<Rightarrow> nat option" where
  "family_held Starting = None"
| "family_held (Has_family a) = Some a"
| "family_held (Has_counter a p) = Some a"

subsection \<open>Invariant\<close>

text \<open>There is at most one family of a name and one metric of a set of labels in it.\<close>

lemma reg_counters_unique:
  assumes "registry_ok r" and "(a, f) \<in> set (reg_counters r)" and "(b, g) \<in> set (reg_counters r)"
    and "a = b \<or> fam_name f = fam_name g"
  shows "a = b \<and> f = g"
proof -
  have d: "distinct (map fst (reg_counters r))" "distinct (names_in (reg_counters r))"
    using assms(1) unfolding registry_ok_def registry_names_def by (auto simp: all_kinds kind_simps families_ok_def)
  show ?thesis
    using assms(4)
  proof
    assume "a = b"
    then show ?thesis using d(1) assms(2,3) by (auto dest: eq_key_imp_eq_value)
  next
    assume n: "fam_name f = fam_name g"
    have "inj_on (\<lambda>x. fam_name (snd x)) (set (reg_counters r))" using d(2) by (simp add: distinct_map)
    then have "(a, f) = (b, g)" by (rule inj_onD) (use n assms(2,3) in simp_all)
    then show ?thesis by simp
  qed
qed

lemma reg_counters_ok: "registry_ok r \<Longrightarrow> (a, f) \<in> set (reg_counters r) \<Longrightarrow> family_ok counter_class f"
  unfolding registry_ok_def all_kinds by (auto simp: kind_simps families_ok_def)

lemma entries_unique:
  assumes "family_ok cls f" and "(l1, p, m) \<in> set (fam_metrics f)" and "(l2, q, n) \<in> set (fam_metrics f)"
    and "l1 = l2 \<or> p = q"
  shows "l1 = l2 \<and> p = q \<and> m = n"
proof -
  have d: "distinct (map entry_labels (fam_metrics f))" "distinct (map entry_addr (fam_metrics f))"
    using assms(1) by (simp_all add: family_ok_def)
  have "(l1, p, m) = (l2, q, n)"
    using assms(4)
  proof
    assume "l1 = l2"
    then show ?thesis by (intro inj_onD [of entry_labels "set (fam_metrics f)"]) (use d(1) assms(2,3) in \<open>simp_all add: distinct_map\<close>)
  next
    assume "p = q"
    then show ?thesis by (intro inj_onD [of entry_addr "set (fam_metrics f)"]) (use d(2) assms(2,3) in \<open>simp_all add: distinct_map\<close>)
  qed
  then show ?thesis by simp
qed

lemma series_unique:
  assumes "registry_ok r" and "(a, p, c) \<in> series_of name ls r" and "(b, q, d) \<in> series_of name ls r"
  shows "a = b \<and> p = q \<and> c = d"
proof -
  obtain f g where f: "(a, f) \<in> set (reg_counters r)" "fam_name f = name" "(ls, p, c) \<in> set (fam_metrics f)"
    and g: "(b, g) \<in> set (reg_counters r)" "fam_name g = name" "(ls, q, d) \<in> set (fam_metrics g)"
    using assms(2,3) by (auto simp: series_of_def)
  have "a = b \<and> f = g" using reg_counters_unique [OF assms(1) f(1) g(1)] f(2) g(2) by simp
  then show ?thesis using entries_unique [OF reg_counters_ok [OF assms(1) f(1)] f(3)] g(3) by blast
qed

text \<open>One family changed: the others keep their series.\<close>

lemma set_update_family:
  assumes "registry_ok r" and "(a, f) \<in> set (reg_counters r)"
  shows "(b, g) \<in> set (update_family a f' (reg_counters r)) \<longleftrightarrow>
    (if b = a then g = f' else (b, g) \<in> set (reg_counters r))"
  using assms(2) by (force simp: update_family_def)

lemma series_update:
  assumes "registry_ok r" and "(a, f) \<in> set (reg_counters r)" and "fam_name f' = fam_name f"
  shows "(b, p, c) \<in> series_of name ls (r\<lparr>reg_counters := update_family a f' (reg_counters r)\<rparr>) \<longleftrightarrow>
    (if b = a then fam_name f = name \<and> (ls, p, c) \<in> set (fam_metrics f') else (b, p, c) \<in> series_of name ls r)"
  using assms(3) by (auto simp: series_of_def set_update_family [OF assms(1,2)])

lemma families_named_update:
  assumes "registry_ok r" and "(a, f) \<in> set (reg_counters r)" and "fam_name f' = fam_name f"
  shows "families_named name (r\<lparr>reg_counters := update_family a f' (reg_counters r)\<rparr>) = families_named name r"
proof (rule set_eqI)
  fix x
  show "x \<in> families_named name (r\<lparr>reg_counters := update_family a f' (reg_counters r)\<rparr>) \<longleftrightarrow> x \<in> families_named name r"
  proof (cases "x = a")
    case True
    have only: "(a, g) \<in> set (reg_counters r) \<longleftrightarrow> g = f" for g
      using reg_counters_unique [OF assms(1,2), of a g] assms(2) by blast
    show ?thesis
      by (simp add: True families_named_def set_update_family [OF assms(1,2)] only assms(3))
  qed (simp add: families_named_def set_update_family [OF assms(1,2)])
qed

definition usage_ok :: "string \<Rightarrow> label_map \<Rightarrow> usage \<Rightarrow> bool" where
  "usage_ok name ls u \<longleftrightarrow> registry_ok (us_registry u) \<and>
     (\<forall>i a. family_held (us_client u i) = Some a \<longrightarrow> a \<in> families_named name (us_registry u)) \<and>
     (\<forall>i a p. us_client u i = Has_counter a p \<longrightarrow> (\<exists>c. (a, p, c) \<in> series_of name ls (us_registry u))) \<and>
     (\<forall>a p c. (a, p, c) \<in> series_of name ls (us_registry u) \<longrightarrow> c = (Counter_Increment ^^ us_total u) Counter_default) \<and>
     (series_of name ls (us_registry u) = {} \<longrightarrow> us_total u = 0)"

lemma register_counter:
  assumes "Builder_Register Counter_T addr (Builder_Labels labels (Builder_Help h (Builder_Name name Builder_new))) r = (Inr a, r')"
  shows "series_of n ls r' = series_of n ls r \<and> a \<in> families_named name r' \<and> families_named n r \<subseteq> families_named n r' \<and>
    Registry_Add Counter_T addr name h labels r = (Inr a, r')"
proof -
  have add: "Registry_Add Counter_T addr name h labels r = (Inr a, r')"
    using assms by (simp add: Builder_Register_def Builder_Labels_def Builder_Help_def Builder_Name_def Builder_new_def)
  then have "\<not> NameExistsInOtherType Counter_T name r" by (auto simp: Registry_Add_def)
  then obtain fs where fs: "add_to_families counter_class (insert_behavior r) addr name h labels (reg_counters r) = (Inr a, fs)"
    "r' = r\<lparr>reg_counters := fs\<rparr>"
    using add by (auto simp: Registry_Add_def apsnd_def map_prod_def split: prod.splits)
  from add_to_families_cases [OF fs(1)] have
    "fs = reg_counters r \<and> (\<exists>f. (a, f) \<in> set (reg_counters r) \<and> fam_name f = name) \<or>
     a = addr \<and> (\<exists>f. Family_new counter_class name h labels = Inr f \<and> fs = reg_counters r @ [(addr, f)])"
    by auto
  then show ?thesis
  proof (elim disjE conjE exE)
    fix f assume "Family_new counter_class name h labels = Inr f" "fs = reg_counters r @ [(addr, f)]" "a = addr"
    moreover from this have "fam_name f = name" "fam_metrics f = []" using Family_new_name by blast+
    ultimately show ?thesis using fs(2) add by (auto simp: series_of_def families_named_def)
  qed (use fs(2) add in \<open>auto simp: series_of_def families_named_def\<close>)
qed

text \<open>\<open>Add\<close> of the counter: the one of those labels, which is new only if there was none.\<close>

lemma add_counter:
  assumes "family_ok counter_class f" and "places place"
    and "Family_Add place counter_class ls addr (Inr Counter_default) f = (Inr p, f')"
  shows "fam_name f' = fam_name f \<and>
    (if \<exists>q c. (ls, q, c) \<in> set (fam_metrics f) then f' = f \<and> (\<exists>c. (ls, p, c) \<in> set (fam_metrics f))
     else \<forall>q c. (ls, q, c) \<in> set (fam_metrics f') \<longleftrightarrow> q = p \<and> c = Counter_default)"
proof -
  have add: "Family_Add_object place counter_class ls addr Counter_default f = (Inr p, f')"
    using assms(3) by (simp add: Family_Add_def)
  show ?thesis
  proof (cases "find_entry ls f")
    case (Some e)
    then have "e \<in> set (fam_metrics f)" "entry_labels e = ls" using find_entry_Some by blast+
    moreover have "f' = f" "p = entry_addr e" using add Some by (auto simp: Family_Add_object_def)
    ultimately have "(ls, p, entry_object e) \<in> set (fam_metrics f)" "f' = f" by auto
    then show ?thesis by auto
  next
    case None
    then have fresh: "\<nexists>q c. (ls, q, c) \<in> set (fam_metrics f)" by (force simp: find_entry_None)
    have "p = addr" "f' = f\<lparr>fam_metrics := place (fam_metrics f) (ls, addr, Counter_default)\<rparr>"
      using add None by (auto simp: Family_Add_object_def Let_def split: option.splits)
    then show ?thesis using fresh places_set [OF assms(2)] by auto
  qed
qed

lemma touch_counter:
  assumes "family_ok counter_class f" and "(ls, p, c) \<in> set (fam_metrics f)"
  shows "(ls, q, d) \<in> set (fam_metrics (Family_touch p Counter_Increment f)) \<longleftrightarrow> q = p \<and> d = Counter_Increment c"
proof -
  have "(ls, q, d) \<in> set (fam_metrics (Family_touch p Counter_Increment f)) \<longleftrightarrow>
      (\<exists>e. (ls, q, e) \<in> set (fam_metrics f) \<and> d = (if q = p then Counter_Increment e else e))"
    by (force simp: Family_touch_def)
  moreover have "(ls, q, e) \<in> set (fam_metrics f) \<longleftrightarrow> q = p \<and> e = c" for e
    using entries_unique [OF assms(1,2), of ls q e] assms(2) by blast
  ultimately show ?thesis by auto
qed

lemma series_in_family:
  assumes "registry_ok r" and "(a, f) \<in> set (reg_counters r)" and "fam_name f = name"
  shows "(b, q, c) \<in> series_of name ls r \<longleftrightarrow> b = a \<and> (ls, q, c) \<in> set (fam_metrics f)"
proof
  assume "(b, q, c) \<in> series_of name ls r"
  then obtain g where g: "(b, g) \<in> set (reg_counters r)" "fam_name g = name" "(ls, q, c) \<in> set (fam_metrics g)"
    by (auto simp: series_of_def)
  then have "a = b \<and> f = g" using reg_counters_unique [OF assms(1,2) g(1)] assms(3) by simp
  then show "b = a \<and> (ls, q, c) \<in> set (fam_metrics f)" using g(3) by simp
next
  assume "b = a \<and> (ls, q, c) \<in> set (fam_metrics f)"
  then show "(b, q, c) \<in> series_of name ls r" using assms(2,3) unfolding series_of_def by blast
qed

text \<open>A thread's family is the family of the name, whichever thread it is.\<close>

lemma held_named:
  assumes "usage_ok name ls u" and "family_held (us_client u i) = Some a" and "(a, f) \<in> set (reg_counters (us_registry u))"
  shows "fam_name f = name"
proof -
  have ok: "registry_ok (us_registry u)" and "a \<in> families_named name (us_registry u)"
    using assms(1,2) by (simp_all add: usage_ok_def)
  then obtain g where g: "(a, g) \<in> set (reg_counters (us_registry u))" "fam_name g = name"
    by (auto simp: families_named_def)
  have "a = a \<and> f = g" by (rule reg_counters_unique [OF ok assms(3) g(1)]) simp
  then show ?thesis using g(2) by simp
qed

lemma usage_okI:
  assumes "registry_ok (us_registry u)"
    and "\<And>i a. family_held (us_client u i) = Some a \<Longrightarrow> a \<in> families_named name (us_registry u)"
    and "\<And>i a p. us_client u i = Has_counter a p \<Longrightarrow> \<exists>c. (a, p, c) \<in> series_of name ls (us_registry u)"
    and "\<And>a p c. (a, p, c) \<in> series_of name ls (us_registry u) \<Longrightarrow> c = (Counter_Increment ^^ us_total u) Counter_default"
    and "series_of name ls (us_registry u) = {} \<Longrightarrow> us_total u = 0"
  shows "usage_ok name ls u"
  unfolding usage_ok_def using assms by blast

lemma usage_step_ok:
  assumes "usage_step name ls u u'" and "usage_ok name ls u"
  shows "usage_ok name ls u'"
  using assms(1)
proof (cases rule: usage_step.cases)
  case (register i labels addr h a r')
  note new = register_counter [OF register(5)]
  have ok: "registry_ok (us_registry u)" using assms(2) by (simp add: usage_ok_def)
  have added: "Registry_Add Counter_T addr name h labels (us_registry u) = (Inr a, r')" using new by blast
  have "registry_ok r'" by (rule registry_ok_Add [OF ok register(3,4) added])
  moreover have same: "series_of name ls r' = series_of name ls (us_registry u)" by (rule conjunct1 [OF new])
  moreover have here: "a \<in> families_named name r'" by (rule conjunct1 [OF conjunct2 [OF new]])
  have more: "families_named name (us_registry u) \<subseteq> families_named name r'"
    by (rule conjunct1 [OF conjunct2 [OF conjunct2 [OF new]]])
  moreover have "b \<in> families_named name r'" if "family_held (((us_client u)(i := Has_family a)) j) = Some b" for j b
  proof (cases "j = i")
    case True
    then show ?thesis using that here by simp
  next
    case False
    then show ?thesis using that assms(2) more by (auto simp: usage_ok_def)
  qed
  moreover have "us_client u j = Has_counter b p" if "((us_client u)(i := Has_family a)) j = Has_counter b p" for j b p
    using that by (simp split: if_splits)
  ultimately show ?thesis
    using assms(2) unfolding register(1) usage_ok_def by simp
next
  case (others r')
  then show ?thesis using assms(2) registry_ok_step [OF others(2)] by (auto simp: usage_ok_def)
next
  case (add i a f place addr p f')
  let ?r = "us_registry u"
  let ?r' = "?r\<lparr>reg_counters := update_family a f' (reg_counters ?r)\<rparr>"
  have ok: "registry_ok ?r" using assms(2) by (simp add: usage_ok_def)
  have fok: "family_ok counter_class f" using reg_counters_ok [OF ok add(3)] .
  have named: "fam_name f = name" by (rule held_named [where i = i, OF assms(2) _ add(3)]) (simp add: add(2))
  note new = add_counter [OF fok add(4,8)]
  have same: "fam_name f' = fam_name f" by (rule conjunct1 [OF new])
  have "registry_step ?r ?r'"
    by (rule registry_step.counter [OF add(3)]) (rule family_step.add [OF add(4-8)])
  then have ok': "registry_ok ?r'" by (rule registry_ok_step [OF _ ok])
  have fams: "families_named name ?r' = families_named name ?r"
    by (rule families_named_update [OF ok add(3) same])
  have upd: "(b, q, c) \<in> series_of name ls ?r' \<longleftrightarrow>
      (if b = a then (ls, q, c) \<in> set (fam_metrics f') else (b, q, c) \<in> series_of name ls ?r)" for b q c
    using series_update [OF ok add(3) same] named by simp
  note here = series_in_family [OF ok add(3) named]
  have held: "b \<in> families_named name ?r'" if "family_held (((us_client u)(i := Has_counter a p)) j) = Some b" for j b
  proof (cases "j = i")
    case True
    then show ?thesis using that add(3) named fams by (auto simp: families_named_def)
  next
    case False
    then show ?thesis using that assms(2) fams by (simp add: usage_ok_def)
  qed
  have known: "\<exists>c. (b, q, c) \<in> series_of name ls ?r" if "us_client u j = Has_counter b q" for j b q
    using that assms(2) unfolding usage_ok_def by blast
  show ?thesis
  proof (cases "\<exists>q c. (ls, q, c) \<in> set (fam_metrics f)")
    case True
    then have f': "f' = f" "\<exists>c. (ls, p, c) \<in> set (fam_metrics f)" using new by auto
    have series: "series_of name ls ?r' = series_of name ls ?r"
    proof (rule set_eqI)
      fix x :: "nat \<times> nat \<times> counter"
      obtain b q c where x: "x = (b, q, c)" by (rule prod_cases3)
      show "x \<in> series_of name ls ?r' \<longleftrightarrow> x \<in> series_of name ls ?r"
        unfolding x using upd [of b q c] here [of b q c] f'(1) by simp
    qed
    show ?thesis
      unfolding add(1)
    proof (rule usage_okI, goal_cases)
      case (3 j b q)
      then show ?case using known f'(2) here series by (cases "j = i") auto
    qed (use assms(2) ok' held series in \<open>auto simp: usage_ok_def\<close>)
  next
    case False
    have none: "series_of name ls ?r = {}"
    proof (rule equals0I)
      fix x assume x: "x \<in> series_of name ls ?r"
      obtain b q c where "x = (b, q, c)" by (rule prod_cases3)
      then show False using x here [of b q c] False by simp
    qed
    have mine: "(ls, q, c) \<in> set (fam_metrics f') \<longleftrightarrow> q = p \<and> c = Counter_default" for q c
      using conjunct2 [OF new] False by (simp only: if_False)
    have series: "(b, q, c) \<in> series_of name ls ?r' \<longleftrightarrow> b = a \<and> q = p \<and> c = Counter_default" for b q c
      unfolding upd none mine by simp
    have "us_total u = 0" using assms(2) none by (simp add: usage_ok_def)
    then show ?thesis
      unfolding add(1)
    proof (intro usage_okI, goal_cases)
      case (3 j b q)
      then show ?case using known none series by (cases "j = i") auto
    qed (use ok' held series in auto)
  qed
next
  case (increment i a p f)
  let ?r = "us_registry u" and ?f = "Family_touch p Counter_Increment f"
  let ?r' = "?r\<lparr>reg_counters := update_family a ?f (reg_counters ?r)\<rparr>"
  have ok: "registry_ok ?r" using assms(2) by (simp add: usage_ok_def)
  have fok: "family_ok counter_class f" using reg_counters_ok [OF ok increment(3)] .
  have named: "fam_name f = name" by (rule held_named [where i = i, OF assms(2) _ increment(3)]) (simp add: increment(2))
  have "registry_step ?r ?r'"
    by (rule registry_step.counter [OF increment(3)]) (rule family_step.touch)
  then have ok': "registry_ok ?r'" by (rule registry_ok_step [OF _ ok])
  have name: "fam_name ?f = fam_name f" by (simp add: Family_touch_def)
  have fams: "families_named name ?r' = families_named name ?r"
    by (rule families_named_update [OF ok increment(3) name])
  obtain c where c: "(a, p, c) \<in> series_of name ls ?r" "c = (Counter_Increment ^^ us_total u) Counter_default"
    using assms(2) increment(2) unfolding usage_ok_def by blast
  then have f: "(ls, p, c) \<in> set (fam_metrics f)" using series_in_family [OF ok increment(3) named] by blast
  have only: "b = a \<and> q = p" if "(b, q, d) \<in> series_of name ls ?r" for b q d
    using series_unique [OF ok c(1) that] by simp
  have series: "(b, q, d) \<in> series_of name ls ?r' \<longleftrightarrow> b = a \<and> q = p \<and> d = Counter_Increment c" for b q d
    unfolding series_update [OF ok increment(3) name] touch_counter [OF fok f] using named only [of b q d] by auto
  show ?thesis
    unfolding increment(1)
  proof (rule usage_okI, goal_cases)
    case (2 j b)
    then show ?case using assms(2) fams by (simp add: usage_ok_def)
  next
    case (3 j b q)
    then have "\<exists>d. (b, q, d) \<in> series_of name ls ?r" using assms(2) by (simp add: usage_ok_def)
    then show ?case using only series by auto
  next
    case 5
    have "(a, p, Counter_Increment c) \<in> series_of name ls ?r'" using series by simp
    then show ?case using 5 by simp
  qed (use ok' series c(2) in auto)
qed

lemma usage_start_ok:
  "registry_ok r \<Longrightarrow> series_of name ls r = {} \<Longrightarrow> usage_ok name ls (usage_start r)"
  by (simp add: usage_ok_def usage_start_def)

lemma usage_reached:
  "(usage_step name ls)\<^sup>*\<^sup>* (usage_start r) u \<Longrightarrow> registry_ok r \<Longrightarrow> series_of name ls r = {} \<Longrightarrow> usage_ok name ls u"
  by (induction rule: rtranclp_induct) (auto intro: usage_start_ok usage_step_ok)

subsection \<open>Collecting the series\<close>

lemma CollectAll_member:
  "CollectAll collect env xs = Some (ms, ys) \<Longrightarrow> (a, s) \<in> set xs \<Longrightarrow> \<exists>fs s'. collect env s = Some (fs, s') \<and> set fs \<subseteq> set ms"
proof (induction xs arbitrary: ms ys)
  case (Cons x xs)
  obtain b t where x: "x = (b, t)" by fastforce
  obtain m1 s1 m2 ys2 where c: "collect env t = Some (m1, s1)" "CollectAll collect env xs = Some (m2, ys2)" "ms = m1 @ m2"
    using Cons.prems(1) x by (auto simp: bind_eq_Some_conv)
  show ?case
  proof (cases "(a, s) \<in> set xs")
    case True
    from Cons.IH [OF c(2) True] show ?thesis by (elim exE conjE, intro exI conjI) (assumption, simp add: c(3) le_supI2)
  next
    case False
    then have "s = t" using Cons.prems(2) x by simp
    then show ?thesis using c by (intro exI conjI) (simp, simp)
  qed
qed simp

lemma Registry_Collect_counter:
  assumes "Registry_Collect clock r = Some (fs, r')" and "(a, f) \<in> set (reg_counters r)"
  shows "\<exists>gs f'. Family_Collect counter_class clock f = Some (gs, f') \<and> set gs \<subseteq> set fs"
proof -
  obtain cs ys where "CollectAll (Family_Collect counter_class) clock (reg_counters r) = Some (cs, ys)" "set cs \<subseteq> set fs"
    using assms(1) by (auto simp: Registry_Collect_def bind_eq_Some_conv)
  with CollectAll_member [OF this(1) assms(2)] show ?thesis by (elim exE conjE, intro exI conjI) (assumption, rule subset_trans)
qed

subsection \<open>Two threads\<close>

text \<open>Two threads register \<open>requests\<close>, add the counter of \<open>path="/"\<close> and increment it once each.\<close>

definition requests_family :: "counter entry list \<Rightarrow> counter family" where
  "requests_family es = demo_family\<lparr>fam_metrics := es\<rparr>"

definition requests_registry :: "counter entry list \<Rightarrow> registry" where
  "requests_registry es = (Registry_new Merge)\<lparr>reg_counters := [(1, requests_family es)]\<rparr>"

definition requests_usage :: "counter entry list \<Rightarrow> client \<Rightarrow> client \<Rightarrow> nat \<Rightarrow> usage" where
  "requests_usage es c d n = \<lparr>us_registry = requests_registry es,
     us_client = (\<lambda>i. Starting)(0 := c, 1 := d), us_total = n\<rparr>"

lemma requests_names: "CheckMetricName ''requests''" "CheckLabelName ''host'' Counter" "CheckLabelName ''path'' Counter"
  by code_simp+

abbreviation path_entry :: "counter \<Rightarrow> counter entry" where
  "path_entry c \<equiv> ([(''path'', ''/'')], 7, c)"

lemma requests_step:
  "usage_step ''requests'' [(''path'', ''/'')] (usage_start (Registry_new Merge)) (requests_usage [] (Has_family 1) Starting 0)"
  "usage_step ''requests'' [(''path'', ''/'')] (requests_usage [] (Has_family 1) Starting 0) (requests_usage [] (Has_family 1) (Has_family 1) 0)"
  "usage_step ''requests'' [(''path'', ''/'')] (requests_usage [] (Has_family 1) (Has_family 1) 0)
     (requests_usage [path_entry Counter_default] (Has_counter 1 7) (Has_family 1) 0)"
  "usage_step ''requests'' [(''path'', ''/'')] (requests_usage [path_entry Counter_default] (Has_counter 1 7) (Has_family 1) 0)
     (requests_usage [path_entry Counter_default] (Has_counter 1 7) (Has_counter 1 7) 0)"
  "usage_step ''requests'' [(''path'', ''/'')] (requests_usage [path_entry c] (Has_counter 1 7) (Has_counter 1 7) n)
     (requests_usage [path_entry (Counter_Increment c)] (Has_counter 1 7) (Has_counter 1 7) (n + 1))"
proof -
  let ?b = "Builder_Labels [(''host'', ''a'')] (Builder_Help '''' (Builder_Name ''requests'' Builder_new))"
  let ?start = "usage_start (Registry_new Merge)"
  have new: "Builder_Register Counter_T 1 ?b (us_registry ?start) = (Inr 1, requests_registry [])"
    using requests_names by (simp add: Builder_Register_def Builder_Labels_def Builder_Help_def Builder_Name_def Builder_new_def
        Registry_Add_def NameExistsInOtherType_def FamilyNameExists_iff Registry_new_def add_to_families_def Family_new_def
        demo_family_def requests_family_def requests_registry_def usage_start_def)
  have eq: "?start\<lparr>us_registry := requests_registry [], us_client := (us_client ?start)(0 := Has_family 1)\<rparr> =
      requests_usage [] (Has_family 1) Starting 0"
    by (simp add: usage_start_def requests_usage_def fun_eq_iff)
  show "usage_step ''requests'' [(''path'', ''/'')] ?start (requests_usage [] (Has_family 1) Starting 0)"
    by (rule usage_step.register [OF _ _ _ new, of 0, unfolded eq])
      (simp_all add: usage_start_def wf_labels_def kind_simps Registry_new_def)
next
  let ?b = "Builder_Labels [(''host'', ''a'')] (Builder_Help '''' (Builder_Name ''requests'' Builder_new))"
  let ?u = "requests_usage [] (Has_family 1) Starting 0"
  have merge: "Builder_Register Counter_T 2 ?b (us_registry ?u) = (Inr 1, requests_registry [])"
    by (simp add: Builder_Register_def Builder_Labels_def Builder_Help_def Builder_Name_def Builder_new_def
        Registry_Add_def NameExistsInOtherType_def FamilyNameExists_iff Registry_new_def add_to_families_def
        Family_GetName_def Family_GetConstantLabels_def demo_family_def requests_family_def requests_registry_def requests_usage_def)
  have eq: "?u\<lparr>us_registry := requests_registry [], us_client := (us_client ?u)(1 := Has_family 1)\<rparr> =
      requests_usage [] (Has_family 1) (Has_family 1) 0"
    by (simp add: requests_usage_def fun_eq_iff)
  show "usage_step ''requests'' [(''path'', ''/'')] ?u (requests_usage [] (Has_family 1) (Has_family 1) 0)"
    by (rule usage_step.register [OF _ _ _ merge, of 1, unfolded eq])
      (simp_all add: requests_usage_def requests_registry_def wf_labels_def kind_simps Registry_new_def)
next
  let ?u = "requests_usage [] (Has_family 1) (Has_family 1) 0"
  let ?f = "requests_family [path_entry Counter_default]"
  have add: "Family_Add (\<lambda>es e. es @ [e]) counter_class [(''path'', ''/'')] 7 (Inr Counter_default) (requests_family []) = (Inr 7, ?f)"
    using requests_names by (simp add: Family_Add_def Family_Add_object_def demo_family_def requests_family_def find_entry_def labels_count_def)
  have eq: "?u\<lparr>us_registry := (us_registry ?u)\<lparr>reg_counters := update_family 1 ?f (reg_counters (us_registry ?u))\<rparr>,
      us_client := (us_client ?u)(0 := Has_counter 1 7)\<rparr> = requests_usage [path_entry Counter_default] (Has_counter 1 7) (Has_family 1) 0"
    by (simp add: requests_usage_def requests_registry_def update_family_def fun_eq_iff)
  show "usage_step ''requests'' [(''path'', ''/'')] ?u (requests_usage [path_entry Counter_default] (Has_counter 1 7) (Has_family 1) 0)"
    unfolding eq [symmetric]
    by (rule usage_step.add [of ?u 0 1 "requests_family []" "\<lambda>es e. es @ [e]" _ 7])
      (use add append_places in \<open>simp_all add: requests_usage_def requests_registry_def requests_family_def wf_labels_def\<close>)
next
  let ?u = "requests_usage [path_entry Counter_default] (Has_counter 1 7) (Has_family 1) 0"
  let ?f = "requests_family [path_entry Counter_default]"
  have add: "Family_Add (\<lambda>es e. es @ [e]) counter_class [(''path'', ''/'')] 8 (Inr Counter_default) ?f = (Inr 7, ?f)"
    by (simp add: Family_Add_def Family_Add_object_def requests_family_def find_entry_def)
  have eq: "?u\<lparr>us_registry := (us_registry ?u)\<lparr>reg_counters := update_family 1 ?f (reg_counters (us_registry ?u))\<rparr>,
      us_client := (us_client ?u)(1 := Has_counter 1 7)\<rparr> = requests_usage [path_entry Counter_default] (Has_counter 1 7) (Has_counter 1 7) 0"
    by (simp add: requests_usage_def requests_registry_def update_family_def fun_eq_iff)
  show "usage_step ''requests'' [(''path'', ''/'')] ?u (requests_usage [path_entry Counter_default] (Has_counter 1 7) (Has_counter 1 7) 0)"
    unfolding eq [symmetric]
    by (rule usage_step.add [of ?u 1 1 "?f" "\<lambda>es e. es @ [e]" _ 8])
      (use add append_places in \<open>simp_all add: requests_usage_def requests_registry_def requests_family_def wf_labels_def\<close>)
next
  let ?u = "requests_usage [path_entry c] (Has_counter 1 7) (Has_counter 1 7) n"
  let ?f = "requests_family [path_entry c]"
  have eq: "?u\<lparr>us_registry := (us_registry ?u)\<lparr>reg_counters := update_family 1 (Family_touch 7 Counter_Increment ?f) (reg_counters (us_registry ?u))\<rparr>,
      us_total := us_total ?u + 1\<rparr> = requests_usage [path_entry (Counter_Increment c)] (Has_counter 1 7) (Has_counter 1 7) (n + 1)"
    by (simp add: requests_usage_def requests_registry_def requests_family_def update_family_def Family_touch_def)
  show "usage_step ''requests'' [(''path'', ''/'')] ?u
      (requests_usage [path_entry (Counter_Increment c)] (Has_counter 1 7) (Has_counter 1 7) (n + 1))"
    unfolding eq [symmetric] by (rule usage_step.increment [of ?u 0 1 7 ?f]) (simp_all add: requests_usage_def requests_registry_def)
qed

lemma requests_run: "(usage_step ''requests'' [(''path'', ''/'')])\<^sup>*\<^sup>* (usage_start (Registry_new Merge))
    (requests_usage [path_entry (Counter_Increment (Counter_Increment Counter_default))] (Has_counter 1 7) (Has_counter 1 7) 2)"
proof -
  let ?step = "usage_step ''requests'' [(''path'', ''/'')]"
  note then_step = rtranclp.rtrancl_into_rtrancl [of ?step]
  have "?step\<^sup>*\<^sup>* (usage_start (Registry_new Merge)) (requests_usage [] (Has_family 1) (Has_family 1) 0)"
    by (rule then_step [OF r_into_rtranclp [of ?step, OF requests_step(1)] requests_step(2)])
  from then_step [OF then_step [OF this requests_step(3)] requests_step(4)]
  have ready: "?step\<^sup>*\<^sup>* (usage_start (Registry_new Merge))
      (requests_usage [path_entry Counter_default] (Has_counter 1 7) (Has_counter 1 7) 0)" .
  from then_step [OF then_step [OF this requests_step(5)] requests_step(5)] show ?thesis by (simp add: numeral_2_eq_2)
qed

end
