(* ===== verification/NumberFormat.thy ===== *)
theory NumberFormat
  imports Rounding
begin

text \<open>
  How an output stream prints numbers in the classic locale: integers in decimal, and a
  \<open>double\<close> with the default notation, which is the conversion \<open>%.Pg\<close> of \<open>printf\<close> for the
  stream's precision \<open>P\<close>: the value is rounded to \<open>P\<close> significant decimal digits, exactly and
  with ties to even; it is written without exponent when the decimal exponent is at least
  \<open>-4\<close> and less than \<open>P\<close>; trailing zeros of the fraction are dropped.
\<close>

subsection \<open>Integers\<close>

definition digit_char :: "nat \<Rightarrow> char" where
  "digit_char n = char_of (48 + n)"

fun show_nat :: "nat \<Rightarrow> string" where
  "show_nat n = (if n < 10 then [digit_char n] else show_nat (n div 10) @ [digit_char (n mod 10)])"

declare show_nat.simps [simp del]

definition show_int :: "int \<Rightarrow> string" where
  "show_int n = (if n < 0 then ''-'' else '''') @ show_nat (nat \<bar>n\<bar>)"

subsection \<open>Decimal expansion\<close>

definition ilog10 :: "rat \<Rightarrow> int" where
  "ilog10 q = (if 1 \<le> q then int (length (show_nat (nat \<lfloor>q\<rfloor>))) - 1
     else - int (length (show_nat (nat (\<lceil>1 / q\<rceil> - 1)))))"

text \<open>The first \<open>p\<close> digits of a positive value as a number, and the exponent of the first.\<close>

definition sci_digits :: "nat \<Rightarrow> rat \<Rightarrow> nat \<times> int" where
  "sci_digits p q =
     (let e = ilog10 q; n = nat (rne (q * 10 powi (int p - 1 - e)))
      in if n = 10 ^ p then (10 ^ (p - 1), e + 1) else (n, e))"

definition strip_zeros :: "string \<Rightarrow> string" where
  "strip_zeros s = rev (dropWhile (\<lambda>c. c = CHR ''0'') (rev s))"

definition with_point :: "string \<Rightarrow> string" where
  "with_point fraction = (let f = strip_zeros fraction in if f = [] then [] else CHR ''.'' # f)"

definition show_exponent :: "int \<Rightarrow> string" where
  "show_exponent e = ''e'' @ (if e < 0 then ''-'' else ''+'') @
     (let d = show_nat (nat \<bar>e\<bar>) in if length d < 2 then CHR ''0'' # d else d)"

definition show_positive :: "nat \<Rightarrow> rat \<Rightarrow> string" where
  "show_positive p q =
     (let (n, e) = sci_digits p q; ds = show_nat n in
      if e < - 4 \<or> int p \<le> e then take 1 ds @ with_point (drop 1 ds) @ show_exponent e
      else if e < 0 then ''0'' @ with_point (replicate (nat (- e - 1)) (CHR ''0'') @ ds)
      else take (nat (e + 1)) ds @ with_point (drop (nat (e + 1)) ds))"

text \<open>A precision of zero counts as one.\<close>

definition show_double :: "nat \<Rightarrow> double \<Rightarrow> string" where
  "show_double precision x =
     (let p = (if precision = 0 then 1 else precision) in
      case x of
        NaN \<Rightarrow> ''nan''
      | PInf \<Rightarrow> ''inf''
      | MInf \<Rightarrow> ''-inf''
      | NegZero \<Rightarrow> ''-0''
      | Fin q \<Rightarrow> if q = 0 then ''0''
          else if q < 0 then ''-'' @ show_positive p (- q) else show_positive p q)"

subsection \<open>Reading decimal numbers\<close>

definition digit_value :: "char \<Rightarrow> nat" where
  "digit_value c = of_char c - 48"

definition read_nat :: "string \<Rightarrow> nat" where
  "read_nat s = foldl (\<lambda>a c. 10 * a + digit_value c) 0 s"

definition digits :: "char set" where
  "digits = set ''0123456789''"

lemma digit_value_char [simp]: "n < 10 \<Longrightarrow> digit_value (digit_char n) = n"
  by (simp add: digit_value_def digit_char_def)

lemma digit_char_in: "n < 10 \<Longrightarrow> digit_char n \<in> digits"
proof -
  have "list_all (\<lambda>n. digit_char n \<in> digits) [0..<10]" by code_simp
  then show "n < 10 \<Longrightarrow> digit_char n \<in> digits" by (simp add: list_all_iff del: upt_rec_numeral)
qed

lemma digit_char_0 [simp]: "digit_char 0 = CHR ''0''"
  by code_simp

lemma show_nat_nonempty [simp]: "show_nat n \<noteq> []"
  by (subst show_nat.simps) simp

lemma show_nat_digits: "set (show_nat n) \<subseteq> digits"
proof (induction n rule: show_nat.induct)
  case (1 n)
  then show ?case by (subst show_nat.simps) (auto simp: digit_char_in)
qed

lemma read_show_nat [simp]: "read_nat (show_nat n) = n"
proof (induction n rule: show_nat.induct)
  case (1 n)
  show ?case
  proof (cases "n < 10")
    case True
    then show ?thesis by (subst show_nat.simps) (simp add: read_nat_def)
  next
    case False
    then have "read_nat (show_nat (n div 10)) = n div 10" using 1 by simp
    then show ?thesis using False by (subst show_nat.simps) (simp add: read_nat_def)
  qed
qed

lemma show_nat_inject [simp]: "show_nat m = show_nat n \<longleftrightarrow> m = n"
  using read_show_nat by metis

lemma show_nat_length: "0 < n \<Longrightarrow> 10 ^ (length (show_nat n) - 1) \<le> n \<and> n < 10 ^ length (show_nat n)"
proof (induction n rule: show_nat.induct)
  case (1 n)
  show ?case
  proof (cases "n < 10")
    case True
    then show ?thesis using 1 by (subst (1 2) show_nat.simps) simp
  next
    case False
    let ?d = "length (show_nat (n div 10))"
    have pos: "0 < ?d" by simp
    have IH: "10 ^ (?d - 1) \<le> n div 10" "n div 10 < 10 ^ ?d" using 1(1) False by auto
    have len: "length (show_nat n) = Suc ?d" using False by (subst show_nat.simps) simp
    have "10 * 10 ^ (?d - 1) \<le> n" using IH(1) by linarith
    moreover have "n < 10 * 10 ^ ?d" using IH(2) by linarith
    moreover have "(10::nat) ^ ?d = 10 * 10 ^ (?d - 1)" using pos by (metis Suc_pred' power_Suc)
    ultimately show ?thesis by (simp add: len)
  qed
qed

lemma show_nat_times_10: "0 < n \<Longrightarrow> show_nat (n * 10) = show_nat n @ ''0''"
  by (subst show_nat.simps) simp

lemma show_nat_shift: "0 < n \<Longrightarrow> show_nat (n * 10 ^ k) = show_nat n @ replicate k (CHR ''0'')"
proof (induction k)
  case (Suc k)
  have "show_nat (n * 10 ^ Suc k) = show_nat (n * 10 ^ k * 10)" by (simp add: mult.commute mult.left_commute)
  also have "\<dots> = show_nat n @ replicate k (CHR ''0'') @ ''0''" using Suc by (simp add: show_nat_times_10)
  also have "replicate k (CHR ''0'') @ ''0'' = replicate (Suc k) (CHR ''0'')" by (simp add: replicate_append_same)
  finally show ?case .
qed simp

lemma strip_replicate [simp]: "strip_zeros (replicate k (CHR ''0'')) = []"
  by (simp add: strip_zeros_def)

text \<open>A whole number with at most \<open>p\<close> digits is printed exactly, like an integer.\<close>

lemma ilog10_of_nat: "0 < n \<Longrightarrow> ilog10 (of_nat n) = int (length (show_nat n)) - 1"
  by (simp add: ilog10_def)

lemma show_positive_of_nat:
  assumes "0 < n" and "n < 10 ^ p"
  shows "show_positive p (of_nat n) = show_nat n"
proof -
  let ?l = "length (show_nat n)"
  have l: "0 < ?l" by simp
  have "10 ^ (?l - 1) < (10::nat) ^ p" using show_nat_length [OF assms(1)] assms(2) by linarith
  then have "?l - 1 < p" by (rule power_less_imp_less_exp [rotated]) simp
  then have lp: "?l \<le> p" using l by linarith
  define k where "k = p - ?l"
  have e: "ilog10 (of_nat n) = int ?l - 1" using assms(1) by (rule ilog10_of_nat)
  have "rat_of_nat n * 10 powi (int p - 1 - (int ?l - 1)) = of_int (int (n * 10 ^ k))"
  proof -
    have "int p - 1 - (int ?l - 1) = int k" using lp by (simp add: k_def)
    then show ?thesis by (simp add: power_int_of_nat)
  qed
  then have "nat (rne (rat_of_nat n * 10 powi (int p - 1 - (int ?l - 1)))) = n * 10 ^ k"
    by (simp only: rne_of_int nat_int)
  moreover have "n * 10 ^ k \<noteq> 10 ^ p"
  proof -
    have "n * 10 ^ k < 10 ^ ?l * 10 ^ k" using show_nat_length [OF assms(1)] by simp
    also have "\<dots> = 10 ^ p" using lp by (simp add: k_def flip: power_add)
    finally show ?thesis by simp
  qed
  ultimately have "sci_digits p (of_nat n) = (n * 10 ^ k, int ?l - 1)"
    by (simp only: sci_digits_def e Let_def if_False)
  moreover have "nat (int ?l - 1 + 1) = ?l" by simp
  ultimately show ?thesis
    using lp l by (simp add: show_positive_def show_nat_shift [OF assms(1)] with_point_def)
qed

lemma show_double_of_nat: "n < 10 ^ p \<Longrightarrow> 0 < p \<Longrightarrow> show_double p (Fin (of_nat n)) = show_nat n"
  by (cases "n = 0") (simp_all add: show_double_def show_positive_of_nat show_nat.simps [of 0])

subsection \<open>Characters of printed numbers\<close>

definition number_chars :: "char set" where
  "number_chars = digits \<union> set ''.+-einfaNI''"

lemma strip_subset: "set (strip_zeros s) \<subseteq> set s"
  unfolding strip_zeros_def using set_dropWhileD by fastforce

lemma with_point_subset: "set (with_point s) \<subseteq> insert (CHR ''.'') (set s)"
  using strip_subset [of s] by (auto simp: with_point_def Let_def)

lemma show_exponent_subset: "set (show_exponent e) \<subseteq> number_chars"
  using show_nat_digits [of "nat \<bar>e\<bar>"] by (auto simp: show_exponent_def Let_def number_chars_def digits_def)

lemma show_nat_number: "set (show_nat n) \<subseteq> number_chars"
  using show_nat_digits [of n] by (auto simp: number_chars_def)

lemma show_positive_subset: "set (show_positive p q) \<subseteq> number_chars"
proof -
  obtain n e where d: "sci_digits p q = (n, e)" by fastforce
  have part: "set (take k (show_nat n)) \<subseteq> number_chars" "set (drop k (show_nat n)) \<subseteq> number_chars" for k
    by (rule order_trans [OF set_take_subset show_nat_number], rule order_trans [OF set_drop_subset show_nat_number])
  have zero: "set ''0'' \<subseteq> number_chars" by (simp add: number_chars_def digits_def)
  have point: "set s \<subseteq> number_chars \<Longrightarrow> set (with_point s) \<subseteq> number_chars" for s
    using with_point_subset [of s] by (rule order_trans) (simp add: number_chars_def)
  have zeros: "set (replicate k (CHR ''0'') @ show_nat n) \<subseteq> number_chars" for k
    using show_nat_number [of n] zero by auto
  have fixed: "set (take k (show_nat n) @ with_point (drop k (show_nat n))) \<subseteq> number_chars" for k
    unfolding set_append using part(1) point [OF part(2)] by (rule Un_least)
  have small: "set (''0'' @ with_point (replicate k (CHR ''0'') @ show_nat n)) \<subseteq> number_chars" for k
    unfolding set_append using zero point [OF zeros] by (rule Un_least)
  have "set ((take 1 (show_nat n) @ with_point (drop 1 (show_nat n))) @ show_exponent e) \<subseteq> number_chars"
    unfolding set_append [of _ "show_exponent e"] using fixed show_exponent_subset by (rule Un_least)
  then show ?thesis
    using fixed small unfolding show_positive_def d Let_def prod.case append_assoc
    by (simp only: split: if_split) simp
qed

lemma show_double_subset: "set (show_double p x) \<subseteq> number_chars"
  using show_positive_subset
  by (auto simp: show_double_def Let_def number_chars_def digits_def split: double.splits if_splits)

lemma show_int_subset: "set (show_int n) \<subseteq> number_chars"
  using show_nat_number [of "nat \<bar>n\<bar>"] by (auto simp: show_int_def number_chars_def)

lemma show_positive_nonempty: "show_positive p q \<noteq> []"
  using show_nat_nonempty by (auto simp: show_positive_def show_exponent_def Let_def split: prod.splits)

lemma show_double_nonempty [simp]: "show_double p x \<noteq> []"
  by (auto simp: show_double_def Let_def show_positive_nonempty split: double.splits)

lemma show_int_nonempty [simp]: "show_int n \<noteq> []"
  by (simp add: show_int_def)

end
