(* ===== verification/TextSerializer.thy ===== *)
theory TextSerializer
  imports ClientMetric CheckNames NumberFormat
begin

text \<open>
  \<open>core/src/text_serializer.cc\<close> and \<open>core/src/serializer.cc\<close>: the text exposition format.
  An output stream is the text written so far with the settings that formatting depends on:
  the locale, as its two facets for numbers, and the precision. Each \<open>Write\<close> and \<open>Serialize\<close>
  function takes and returns the stream. The reference text of a list of families is defined
  separately, sample by sample, and so is a reader of the format.
\<close>

subsection \<open>Output streams\<close>

datatype locale_facets = Locale_facets (fmt_double: "nat \<Rightarrow> double \<Rightarrow> string") (fmt_int: "int \<Rightarrow> string")

definition classic_locale :: locale_facets where
  "classic_locale = Locale_facets show_double show_int"

record ostream =
  os_text :: string
  os_locale :: locale_facets
  os_precision :: nat

definition puts :: "string \<Rightarrow> ostream \<Rightarrow> ostream" where
  "puts s out = out\<lparr>os_text := os_text out @ s\<rparr>"

definition put_double :: "double \<Rightarrow> ostream \<Rightarrow> ostream" where
  "put_double v out = puts (fmt_double (os_locale out) (os_precision out) v) out"

definition put_int :: "int \<Rightarrow> ostream \<Rightarrow> ostream" where
  "put_int n out = puts (fmt_int (os_locale out) n) out"

subsection \<open>The code\<close>

abbreviation newline :: char where "newline \<equiv> CHR 0x0A"
abbreviation backslash :: char where "backslash \<equiv> CHR 0x5C"
abbreviation dquote :: char where "dquote \<equiv> CHR 0x22"

definition WriteValue_double :: "double \<Rightarrow> ostream \<Rightarrow> ostream" where
  "WriteValue_double value out =
     (if value = NaN then puts ''Nan'' out
      else if value = PInf \<or> value = MInf then puts (if dlt value (Fin 0) then ''-Inf'' else ''+Inf'') out
      else put_double value out)"

fun WriteValue_string :: "string \<Rightarrow> ostream \<Rightarrow> ostream" where
  "WriteValue_string [] out = out"
| "WriteValue_string (c # cs) out =
     WriteValue_string cs
       (if c = newline then puts [backslash, CHR ''n''] out
        else if c = backslash then puts [backslash, c] out
        else if c = dquote then puts [backslash, c] out
        else puts [c] out)"

text \<open>The loop of \<open>WriteHead\<close> over the labels; \<open>prefix\<close> separates the next label.\<close>

fun write_labels :: "string \<Rightarrow> label list \<Rightarrow> ostream \<Rightarrow> string \<times> ostream" where
  "write_labels prefix [] out = (prefix, out)"
| "write_labels prefix (lp # lps) out =
     write_labels '','' lps
       (puts [dquote] (WriteValue_string (label_value lp) (puts (prefix @ label_name lp @ ''='' @ [dquote]) out)))"

text \<open>\<open>write_extra\<close> is \<open>WriteValue\<close> applied to \<open>extraLabelValue\<close>, of either type.\<close>

definition WriteHead :: "metric_family \<Rightarrow> client_metric \<Rightarrow> string \<Rightarrow> string \<Rightarrow> (ostream \<Rightarrow> ostream) \<Rightarrow>
    ostream \<Rightarrow> ostream" where
  "WriteHead family metric suffix extraLabelName write_extra out =
     (let out = puts (family_name family @ suffix) out;
          out = (if metric_label metric \<noteq> [] \<or> extraLabelName \<noteq> '''' then
            (let out = puts ''{'' out;
                 (prefix, out) = write_labels '''' (metric_label metric) out;
                 out = (if extraLabelName \<noteq> ''''
                   then puts [dquote] (write_extra (puts (prefix @ extraLabelName @ ''='' @ [dquote]) out))
                   else out)
             in puts ''}'' out)
            else out)
      in puts '' '' out)"

definition WriteTail :: "client_metric \<Rightarrow> ostream \<Rightarrow> ostream" where
  "WriteTail metric out =
     puts [newline] (if timestamp_ms metric \<noteq> 0 then put_int (sint (timestamp_ms metric)) (puts '' '' out) else out)"

abbreviation plain_head :: "metric_family \<Rightarrow> client_metric \<Rightarrow> string \<Rightarrow> ostream \<Rightarrow> ostream" where
  "plain_head family metric suffix \<equiv> WriteHead family metric suffix '''' (WriteValue_string '''')"

definition SerializeCounter :: "metric_family \<Rightarrow> client_metric \<Rightarrow> ostream \<Rightarrow> ostream" where
  "SerializeCounter family metric out =
     WriteTail metric (WriteValue_double (counter_value metric) (plain_head family metric '''' out))"

definition SerializeGauge :: "metric_family \<Rightarrow> client_metric \<Rightarrow> ostream \<Rightarrow> ostream" where
  "SerializeGauge family metric out =
     WriteTail metric (WriteValue_double (gauge_value metric) (plain_head family metric '''' out))"

definition SerializeInfo :: "metric_family \<Rightarrow> client_metric \<Rightarrow> ostream \<Rightarrow> ostream" where
  "SerializeInfo family metric out =
     WriteTail metric (WriteValue_double (info_value metric) (plain_head family metric ''_info'' out))"

definition SerializeSummary :: "metric_family \<Rightarrow> client_metric \<Rightarrow> ostream \<Rightarrow> ostream" where
  "SerializeSummary family metric out =
     (let sum = metric_summary metric;
          out = plain_head family metric ''_count'' out;
          out = put_int (uint (summary_sample_count sum)) out;
          out = WriteTail metric out;
          out = plain_head family metric ''_sum'' out;
          out = WriteValue_double (summary_sample_sum sum) out;
          out = WriteTail metric out
      in fold (\<lambda>q out. WriteTail metric (WriteValue_double (quantile_value q)
           (WriteHead family metric '''' ''quantile'' (WriteValue_double (quantile_level q)) out)))
         (summary_quantile sum) out)"

definition SerializeUntyped :: "metric_family \<Rightarrow> client_metric \<Rightarrow> ostream \<Rightarrow> ostream" where
  "SerializeUntyped family metric out =
     WriteTail metric (WriteValue_double (untyped_value metric) (plain_head family metric '''' out))"

text \<open>\<open>last != infinity\<close> holds for a NaN.\<close>

definition SerializeHistogram :: "metric_family \<Rightarrow> client_metric \<Rightarrow> ostream \<Rightarrow> ostream" where
  "SerializeHistogram family metric out =
     (let hist = metric_histogram metric;
          out = plain_head family metric ''_count'' out;
          out = put_int (uint (histogram_sample_count hist)) out;
          out = WriteTail metric out;
          out = plain_head family metric ''_sum'' out;
          out = WriteValue_double (histogram_sample_sum hist) out;
          out = WriteTail metric out;
          (last, out) = fold (\<lambda>b (last, out).
             (upper_bound b, WriteTail metric (put_int (uint (cumulative_count b))
               (WriteHead family metric ''_bucket'' ''le'' (WriteValue_double (upper_bound b)) out))))
            (histogram_bucket hist) (MInf, out)
      in if \<not> deq last PInf
         then WriteTail metric (put_int (uint (histogram_sample_count hist))
               (WriteHead family metric ''_bucket'' ''le'' (WriteValue_string ''+Inf'') out))
         else out)"

definition SerializeFamily :: "metric_family \<Rightarrow> ostream \<Rightarrow> ostream" where
  "SerializeFamily family out =
     (let out = (if family_help family \<noteq> ''''
            then puts (''# HELP '' @ family_name family @ '' '' @ family_help family @ [newline]) out else out)
      in case family_type family of
        Counter \<Rightarrow> fold (SerializeCounter family) (family_metric family)
          (puts (''# TYPE '' @ family_name family @ '' counter'' @ [newline]) out)
      | Gauge \<Rightarrow> fold (SerializeGauge family) (family_metric family)
          (puts (''# TYPE '' @ family_name family @ '' gauge'' @ [newline]) out)
      | Info \<Rightarrow> fold (SerializeInfo family) (family_metric family)
          (puts (''# TYPE '' @ family_name family @ '' gauge'' @ [newline]) out)
      | Summary \<Rightarrow> fold (SerializeSummary family) (family_metric family)
          (puts (''# TYPE '' @ family_name family @ '' summary'' @ [newline]) out)
      | Untyped \<Rightarrow> fold (SerializeUntyped family) (family_metric family)
          (puts (''# TYPE '' @ family_name family @ '' untyped'' @ [newline]) out)
      | Histogram \<Rightarrow> fold (SerializeHistogram family) (family_metric family)
          (puts (''# TYPE '' @ family_name family @ '' histogram'' @ [newline]) out))"

text \<open>\<open>max_digits10 - 1\<close> of a \<open>double\<close>.\<close>

definition text_precision :: nat where
  "text_precision = 17 - 1"

definition TextSerializer_Serialize :: "metric_family list \<Rightarrow> ostream \<Rightarrow> ostream" where
  "TextSerializer_Serialize metrics out =
     (let saved_locale = os_locale out;
          saved_precision = os_precision out;
          out = out\<lparr>os_locale := classic_locale\<rparr>;
          out = out\<lparr>os_precision := text_precision\<rparr>;
          out = fold SerializeFamily metrics out;
          out = out\<lparr>os_locale := saved_locale\<rparr>
      in out\<lparr>os_precision := saved_precision\<rparr>)"

text \<open>A new string stream has the global locale and the precision 6.\<close>

definition ostringstream :: "locale_facets \<Rightarrow> ostream" where
  "ostringstream global = \<lparr>os_text = '''', os_locale = global, os_precision = 6\<rparr>"

definition Serializer_Serialize :: "locale_facets \<Rightarrow> metric_family list \<Rightarrow> string" where
  "Serializer_Serialize global metrics =
     os_text (TextSerializer_Serialize metrics (ostringstream global))"

end
