(* ===== verification/Exposition.thy ===== *)
theory Exposition
  imports TextSerializer
begin

text \<open>
  The text exposition format as a specification of \<open>TextSerializer\<close>: the lines a list of
  families stands for, their text, and a reader of the format. Serializing appends exactly
  that text whatever the locale and precision of the stream, and the reader gets the
  families, their samples, every label value and time stamp back.
\<close>

subsection \<open>Lines and samples\<close>

record sample =
  sample_name :: string
  sample_labels :: "(string \<times> string) list"
  sample_value :: string
  sample_time :: int

datatype line = Help_line string string | Type_line string string | Sample_line sample

text \<open>The token of a value: what the stream prints in the classic locale with 16 digits.\<close>

definition value_text :: "double \<Rightarrow> string" where
  "value_text v = (case v of NaN \<Rightarrow> ''Nan'' | PInf \<Rightarrow> ''+Inf'' | MInf \<Rightarrow> ''-Inf'' | _ \<Rightarrow> show_double 16 v)"

definition escape_char :: "char \<Rightarrow> string" where
  "escape_char c = (if c = newline then [backslash, CHR ''n'']
     else if c = backslash \<or> c = dquote then [backslash, c] else [c])"

definition escape :: "string \<Rightarrow> string" where
  "escape s = concat (map escape_char s)"

definition print_label :: "string \<times> string \<Rightarrow> string" where
  "print_label l = fst l @ ''='' @ [dquote] @ escape (snd l) @ [dquote]"

fun print_labels :: "(string \<times> string) list \<Rightarrow> string" where
  "print_labels [] = ''''"
| "print_labels [l] = print_label l"
| "print_labels (l # ls) = print_label l @ '','' @ print_labels ls"

definition print_sample :: "sample \<Rightarrow> string" where
  "print_sample s = sample_name s @
     (if sample_labels s = [] then '''' else ''{'' @ print_labels (sample_labels s) @ ''}'') @ '' '' @ sample_value s @
     (if sample_time s = 0 then '''' else '' '' @ show_int (sample_time s))"

fun print_line :: "line \<Rightarrow> string" where
  "print_line (Help_line name text) = ''# HELP '' @ name @ '' '' @ text"
| "print_line (Type_line name kind) = ''# TYPE '' @ name @ '' '' @ kind"
| "print_line (Sample_line s) = print_sample s"

definition print_lines :: "line list \<Rightarrow> string" where
  "print_lines ls = concat (map (\<lambda>l. print_line l @ [newline]) ls)"

subsection \<open>The lines of a family\<close>

definition sample_of :: "metric_family \<Rightarrow> client_metric \<Rightarrow> string \<Rightarrow> (string \<times> string) list \<Rightarrow> string \<Rightarrow> sample" where
  "sample_of family metric suffix extra v =
     \<lparr>sample_name = family_name family @ suffix,
      sample_labels = map (\<lambda>l. (label_name l, label_value l)) (metric_label metric) @ extra,
      sample_value = v, sample_time = sint (timestamp_ms metric)\<rparr>"

definition count_text :: "u64 \<Rightarrow> string" where
  "count_text n = show_int (uint n)"

definition bucket_sample :: "metric_family \<Rightarrow> client_metric \<Rightarrow> client_bucket \<Rightarrow> sample" where
  "bucket_sample family metric b = sample_of family metric ''_bucket'' [(''le'', value_text (upper_bound b))]
     (count_text (cumulative_count b))"

text \<open>A histogram whose last bucket is not the infinite one gets it added.\<close>

definition family_samples :: "metric_family \<Rightarrow> client_metric \<Rightarrow> sample list" where
  "family_samples family metric = (case family_type family of
     Counter \<Rightarrow> [sample_of family metric '''' [] (value_text (counter_value metric))]
   | Gauge \<Rightarrow> [sample_of family metric '''' [] (value_text (gauge_value metric))]
   | Info \<Rightarrow> [sample_of family metric ''_info'' [] (value_text (info_value metric))]
   | Untyped \<Rightarrow> [sample_of family metric '''' [] (value_text (untyped_value metric))]
   | Summary \<Rightarrow> (let s = metric_summary metric in
       [sample_of family metric ''_count'' [] (count_text (summary_sample_count s)),
        sample_of family metric ''_sum'' [] (value_text (summary_sample_sum s))] @
       map (\<lambda>q. sample_of family metric '''' [(''quantile'', value_text (quantile_level q))] (value_text (quantile_value q)))
         (summary_quantile s))
   | Histogram \<Rightarrow> (let h = metric_histogram metric in
       [sample_of family metric ''_count'' [] (count_text (histogram_sample_count h)),
        sample_of family metric ''_sum'' [] (value_text (histogram_sample_sum h))] @
       map (bucket_sample family metric) (histogram_bucket h) @
       (if histogram_bucket h \<noteq> [] \<and> upper_bound (last (histogram_bucket h)) = PInf then []
        else [bucket_sample family metric \<lparr>cumulative_count = histogram_sample_count h, upper_bound = PInf\<rparr>])))"

definition type_name :: "MetricType \<Rightarrow> string" where
  "type_name t = (case t of Counter \<Rightarrow> ''counter'' | Gauge \<Rightarrow> ''gauge'' | Info \<Rightarrow> ''gauge''
     | Summary \<Rightarrow> ''summary'' | Untyped \<Rightarrow> ''untyped'' | Histogram \<Rightarrow> ''histogram'')"

definition family_lines :: "metric_family \<Rightarrow> line list" where
  "family_lines family =
     (if family_help family = '''' then [] else [Help_line (family_name family) (family_help family)]) @
     Type_line (family_name family) (type_name (family_type family)) #
     map Sample_line (concat (map (family_samples family) (family_metric family)))"

definition exposition :: "metric_family list \<Rightarrow> string" where
  "exposition families = print_lines (concat (map family_lines families))"

subsection \<open>The code writes that text\<close>

named_theorems writes \<open>what a step of the serializer appends to a stream set up for the format\<close>

definition classic :: "ostream \<Rightarrow> bool" where
  "classic out \<longleftrightarrow> os_locale out = classic_locale \<and> os_precision out = text_precision"

lemma puts_Nil [simp]: "puts [] out = out"
  by (simp add: puts_def)

lemma puts_puts [simp]: "puts t (puts s out) = puts (s @ t) out"
  by (simp add: puts_def)

lemma classic_puts [simp]: "classic (puts s out) = classic out"
  by (simp add: classic_def puts_def)

lemma put_int_classic [writes]: "classic out \<Longrightarrow> put_int n out = puts (show_int n) out"
  by (simp add: put_int_def classic_def classic_locale_def)

lemma WriteValue_double_classic [writes]: "classic out \<Longrightarrow> WriteValue_double v out = puts (value_text v) out"
  by (cases v) (simp_all add: WriteValue_double_def put_double_def classic_def classic_locale_def value_text_def
      text_precision_def dlt_def)

lemma WriteValue_string_escape [writes]: "WriteValue_string s out = puts (escape s) out"
  by (induction s arbitrary: out) (auto simp: escape_def escape_char_def)

lemma fold_puts:
  "(\<And>x out. classic out \<Longrightarrow> x \<in> set xs \<Longrightarrow> f x out = puts (t x) out) \<Longrightarrow> classic out \<Longrightarrow>
     fold f xs out = puts (concat (map t xs)) out"
  by (induction xs arbitrary: out) auto

lemma print_labels_Cons: "print_labels (l # ls) = print_label l @ concat (map (\<lambda>l. '','' @ print_label l) ls)"
  by (induction ls arbitrary: l) auto

lemma print_labels_snoc:
  "print_labels (ls @ [l]) = (if ls = [] then print_label l else print_labels ls @ '','' @ print_label l)"
  by (cases ls) (simp_all add: print_labels_Cons del: print_labels.simps(3))

abbreviation label_pair :: "label \<Rightarrow> string \<times> string" where
  "label_pair l \<equiv> (label_name l, label_value l)"

lemma write_labels_text:
  "write_labels prefix ls out =
     (if ls = [] then (prefix, out) else ('','', puts (prefix @ print_labels (map label_pair ls)) out))"
proof (induction ls arbitrary: prefix out)
  case (Cons l ls)
  have step: "write_labels prefix (l # ls) out = write_labels '','' ls (puts (prefix @ print_label (label_pair l)) out)"
    by (simp add: WriteValue_string_escape print_label_def)
  show ?case unfolding step Cons.IH by (cases ls) simp_all
qed simp

definition head_text :: "sample \<Rightarrow> string" where
  "head_text s = sample_name s @
     (if sample_labels s = [] then '''' else ''{'' @ print_labels (sample_labels s) @ ''}'') @ '' ''"

definition tail_text :: "sample \<Rightarrow> string" where
  "tail_text s = (if sample_time s = 0 then '''' else '' '' @ show_int (sample_time s)) @ [newline]"

lemma print_sample_parts: "print_sample s @ [newline] = head_text s @ sample_value s @ tail_text s"
  by (simp add: print_sample_def head_text_def tail_text_def)

lemma WriteHead_plain:
  "plain_head family metric suffix out = puts (head_text (sample_of family metric suffix [] v)) out"
  by (cases "metric_label metric = []")
    (simp_all add: WriteHead_def write_labels_text head_text_def sample_of_def)

lemma WriteHead_extra:
  assumes "\<And>out. classic out \<Longrightarrow> write_extra out = puts (escape x) out" and "extra \<noteq> ''''" and "classic out"
  shows "WriteHead family metric suffix extra write_extra out =
    puts (head_text (sample_of family metric suffix [(extra, x)] v)) out"
  using assms(2,3)
  by (simp add: WriteHead_def write_labels_text head_text_def sample_of_def print_labels_snoc assms(1) print_label_def)



lemma WriteTail_text:
  "classic out \<Longrightarrow> WriteTail metric out = puts (tail_text (sample_of family metric suffix extra v)) out"
  by (simp add: WriteTail_def tail_text_def sample_of_def writes signed_eq_0_iff)

lemma number_char_cases: "c \<in> number_chars \<Longrightarrow> escape_char c = [c] \<and> c \<noteq> CHR '' '' \<and> c \<noteq> newline"
proof -
  have "list_all (\<lambda>c. escape_char c = [c] \<and> c \<noteq> CHR '' '' \<and> c \<noteq> newline) (''0123456789'' @ ''.+-einfaNI'')"
    by code_simp
  moreover assume "c \<in> number_chars"
  then have "c \<in> set (''0123456789'' @ ''.+-einfaNI'')" by (simp only: number_chars_def digits_def set_append)
  ultimately show ?thesis unfolding list_all_iff by blast
qed

lemma value_text_subset: "set (value_text v) \<subseteq> number_chars"
  using show_double_subset [of 16 v] by (cases v) (simp_all add: value_text_def number_chars_def)

lemma escape_plain: "set s \<subseteq> number_chars \<Longrightarrow> escape s = s"
  by (induction s) (simp_all add: escape_def number_char_cases)

lemma escape_value [simp]: "escape (value_text v) = value_text v"
  by (rule escape_plain [OF value_text_subset])

lemma print_lines_Sample:
  "print_lines (Sample_line (sample_of family metric suffix extra v) # ls) =
     head_text (sample_of family metric suffix extra v) @ v @ tail_text (sample_of family metric suffix extra v) @ print_lines ls"
  using print_sample_parts [of "sample_of family metric suffix extra v"]
  by (simp add: print_lines_def sample_of_def)

lemma print_lines_simps [simp]:
  "print_lines [] = []" "print_lines (l # ls) = print_line l @ newline # print_lines ls"
  "print_lines (ls @ ms) = print_lines ls @ print_lines ms"
  by (simp_all add: print_lines_def)

text \<open>A whole sample line.\<close>

lemma sample_line_plain [writes]:
  assumes "classic out" and "\<And>out. classic out \<Longrightarrow> w out = puts v out"
  shows "WriteTail metric (w (plain_head family metric suffix out)) =
    puts (print_lines [Sample_line (sample_of family metric suffix [] v)]) out"
  using assms(1) unfolding print_lines_Sample
  by (simp add: assms(2) WriteHead_plain [of _ _ _ _ v] WriteTail_text [of _ _ family suffix "[]" v])

lemma sample_line_extra [writes]:
  assumes "classic out" and "\<And>out. classic out \<Longrightarrow> w out = puts v out"
    and "\<And>out. classic out \<Longrightarrow> write_extra out = puts (escape x) out" and "extra \<noteq> ''''"
  shows "WriteTail metric (w (WriteHead family metric suffix extra write_extra out)) =
    puts (print_lines [Sample_line (sample_of family metric suffix [(extra, x)] v)]) out"
  using assms(1) unfolding print_lines_Sample
  by (simp add: assms(2) WriteHead_extra [OF assms(3,4), where v = v]
      WriteTail_text [of _ _ family suffix "[(extra, x)]" v])

lemma deq_PInf [simp]: "deq v PInf \<longleftrightarrow> v = PInf"
  by (cases v) (simp_all add: deq_def)

definition metric_lines :: "metric_family \<Rightarrow> client_metric \<Rightarrow> line list" where
  "metric_lines family metric = map Sample_line (family_samples family metric)"

text \<open>Lines with a number of either kind and no extra label.\<close>

lemmas plain_lines = sample_line_plain [OF _ WriteValue_double_classic] sample_line_plain [OF _ put_int_classic]

named_theorems serializes \<open>each \<open>Serialize\<close> function of a metric writes its lines\<close>

lemma serialize_counter [serializes]:
  "family_type family = Counter \<Longrightarrow> classic out \<Longrightarrow>
     SerializeCounter family metric out = puts (print_lines (metric_lines family metric)) out"
  by (simp add: SerializeCounter_def plain_lines metric_lines_def family_samples_def del: print_lines_simps)

lemma serialize_gauge [serializes]:
  "family_type family = Gauge \<Longrightarrow> classic out \<Longrightarrow>
     SerializeGauge family metric out = puts (print_lines (metric_lines family metric)) out"
  by (simp add: SerializeGauge_def plain_lines metric_lines_def family_samples_def del: print_lines_simps)

lemma serialize_info [serializes]:
  "family_type family = Info \<Longrightarrow> classic out \<Longrightarrow>
     SerializeInfo family metric out = puts (print_lines (metric_lines family metric)) out"
  by (simp add: SerializeInfo_def plain_lines metric_lines_def family_samples_def del: print_lines_simps)

lemma serialize_untyped [serializes]:
  "family_type family = Untyped \<Longrightarrow> classic out \<Longrightarrow>
     SerializeUntyped family metric out = puts (print_lines (metric_lines family metric)) out"
  by (simp add: SerializeUntyped_def plain_lines metric_lines_def family_samples_def del: print_lines_simps)

lemma print_lines_map: "print_lines (map f xs) = concat (map (\<lambda>x. print_lines [f x]) xs)"
  by (induction xs) simp_all

lemma serialize_summary [serializes]:
  assumes "family_type family = Summary" and "classic out"
  shows "SerializeSummary family metric out = puts (print_lines (metric_lines family metric)) out"
proof -
  let ?q = "\<lambda>q. Sample_line (sample_of family metric '''' [(''quantile'', value_text (quantile_level q))] (value_text (quantile_value q)))"
  have q: "fold (\<lambda>q out. WriteTail metric (WriteValue_double (quantile_value q)
        (WriteHead family metric '''' ''quantile'' (WriteValue_double (quantile_level q)) out))) qs out =
      puts (print_lines (map ?q qs)) out" if "classic out" for qs out
    unfolding print_lines_map using _ that
    by (rule fold_puts) (rule sample_line_extra, simp_all add: writes)
  show ?thesis
    using assms
    by (simp add: SerializeSummary_def Let_def q plain_lines metric_lines_def family_samples_def count_text_def comp_def)
qed

lemma bucket_line:
  assumes "classic out" and "\<And>out. classic out \<Longrightarrow> write_extra out = puts (value_text (upper_bound b)) out"
  shows "WriteTail metric (put_int (uint (cumulative_count b)) (WriteHead family metric ''_bucket'' ''le'' write_extra out)) =
    puts (print_lines [Sample_line (bucket_sample family metric b)]) out"
  unfolding bucket_sample_def count_text_def
  by (rule sample_line_extra) (simp_all add: assms writes)

lemma serialize_histogram [serializes]:
  assumes "family_type family = Histogram" and "classic out"
  shows "SerializeHistogram family metric out = puts (print_lines (metric_lines family metric)) out"
proof -
  let ?b = "\<lambda>b. Sample_line (bucket_sample family metric b)"
  let ?h = "metric_histogram metric"
  have b: "fold (\<lambda>b (last, out).
             (upper_bound b, WriteTail metric (put_int (uint (cumulative_count b))
               (WriteHead family metric ''_bucket'' ''le'' (WriteValue_double (upper_bound b)) out))))
            bs (l, out) =
      (if bs = [] then l else upper_bound (last bs), puts (print_lines (map ?b bs)) out)"
    if "classic out" for bs l out
    using that
  proof (induction bs arbitrary: l out)
    case (Cons b bs)
    then show ?case by (simp add: bucket_line writes)
  qed simp
  have inf: "WriteTail metric (put_int (uint (histogram_sample_count ?h))
      (WriteHead family metric ''_bucket'' ''le'' (WriteValue_string ''+Inf'') out)) =
    puts (print_lines [?b \<lparr>cumulative_count = histogram_sample_count ?h, upper_bound = PInf\<rparr>]) out"
    if "classic out" for out
    using that bucket_line [of out "WriteValue_string ''+Inf''" "\<lparr>cumulative_count = histogram_sample_count ?h, upper_bound = PInf\<rparr>"]
    by (simp add: WriteValue_string_escape value_text_def escape_def escape_char_def)
  show ?thesis
    using assms
    by (simp add: SerializeHistogram_def Let_def b inf plain_lines metric_lines_def family_samples_def count_text_def comp_def)
qed

lemma concat_metric_lines: "print_lines (map Sample_line (concat (map (family_samples family) ms))) =
    concat (map (\<lambda>m. print_lines (metric_lines family m)) ms)"
  by (induction ms) (simp_all add: metric_lines_def)

lemma serialize_family:
  assumes "classic out"
  shows "SerializeFamily family out = puts (print_lines (family_lines family)) out"
  using assms
  by (cases "family_type family")
    (simp_all add: SerializeFamily_def Let_def family_lines_def type_name_def concat_metric_lines
      fold_puts [where t = "\<lambda>m. print_lines (metric_lines family m)"] serializes)

lemma print_lines_families:
  "print_lines (concat (map family_lines families)) = concat (map (\<lambda>f. print_lines (family_lines f)) families)"
  by (induction families) simp_all

lemma TextSerializer_exposition:
  "TextSerializer_Serialize families out = puts (exposition families) out"
proof -
  have "fold SerializeFamily families out' = puts (exposition families) out'" if "classic out'" for out'
    unfolding exposition_def print_lines_families using serialize_family that by (rule fold_puts)
  then have "fold SerializeFamily families (out\<lparr>os_locale := classic_locale, os_precision := text_precision\<rparr>) =
      puts (exposition families) (out\<lparr>os_locale := classic_locale, os_precision := text_precision\<rparr>)"
    by (simp add: classic_def)
  then show ?thesis by (simp add: TextSerializer_Serialize_def puts_def)
qed

subsection \<open>Reading the format\<close>

fun split_lines :: "string \<Rightarrow> string list" where
  "split_lines [] = []"
| "split_lines (c # cs) = (if c = newline then [] # split_lines cs
     else case split_lines cs of [] \<Rightarrow> [[c]] | l # ls \<Rightarrow> (c # l) # ls)"

definition strip_prefix :: "string \<Rightarrow> string \<Rightarrow> string option" where
  "strip_prefix p s = (if take (length p) s = p then Some (drop (length p) s) else None)"

text \<open>The word before a character of \<open>stop\<close>, and what starts there.\<close>

definition read_word :: "char list \<Rightarrow> string \<Rightarrow> string \<times> string" where
  "read_word stop s = (takeWhile (\<lambda>c. c \<notin> set stop) s, dropWhile (\<lambda>c. c \<notin> set stop) s)"

text \<open>A quoted label value up to the closing quote.\<close>

fun read_quoted :: "string \<Rightarrow> (string \<times> string) option" where
  "read_quoted [] = None"
| "read_quoted (c # cs) =
     (if c = dquote then Some ([], cs)
      else if c = backslash then
        (case cs of [] \<Rightarrow> None
         | d # ds \<Rightarrow> map_option (\<lambda>(v, r). ((if d = CHR ''n'' then newline else d) # v, r)) (read_quoted ds))
      else map_option (\<lambda>(v, r). (c # v, r)) (read_quoted cs))"

definition read_label :: "string \<Rightarrow> ((string \<times> string) \<times> string) option" where
  "read_label s = (case read_word ''='' s of (name, r) \<Rightarrow>
     Option.bind (strip_prefix (''='' @ [dquote]) r) (\<lambda>r.
       map_option (\<lambda>(v, r). ((name, v), r)) (read_quoted r)))"

text \<open>The labels up to the closing brace; every label is longer than the fuel it uses up.\<close>

fun read_labels :: "nat \<Rightarrow> string \<Rightarrow> ((string \<times> string) list \<times> string) option" where
  "read_labels 0 s = None"
| "read_labels (Suc fuel) s = (case read_label s of None \<Rightarrow> None | Some (l, r) \<Rightarrow>
     (case r of [] \<Rightarrow> None
      | c # r \<Rightarrow> if c = CHR ''}'' then Some ([l], r)
          else if c = CHR '','' then map_option (\<lambda>(ls, r). (l # ls, r)) (read_labels fuel r)
          else None))"

definition read_label_block :: "string \<Rightarrow> ((string \<times> string) list \<times> string) option" where
  "read_label_block s = (case s of
     [] \<Rightarrow> None
   | c # r \<Rightarrow> if c = CHR ''{'' then read_labels (length r) r else Some ([], s))"

definition read_int :: "string \<Rightarrow> int" where
  "read_int s = (if take 1 s = ''-'' then - int (read_nat (drop 1 s)) else int (read_nat s))"

definition read_sample :: "string \<Rightarrow> sample option" where
  "read_sample s = (case read_word ''{ '' s of (name, r) \<Rightarrow>
     Option.bind (read_label_block r) (\<lambda>(ls, r).
       Option.bind (strip_prefix '' '' r) (\<lambda>r.
         case read_word '' '' r of (v, r) \<Rightarrow>
           Some \<lparr>sample_name = name, sample_labels = ls, sample_value = v,
             sample_time = (if r = [] then 0 else read_int (tl r))\<rparr>)))"

definition read_line :: "string \<Rightarrow> line option" where
  "read_line s = (case strip_prefix ''# HELP '' s of
     Some r \<Rightarrow> (case read_word '' '' r of (name, r) \<Rightarrow> Some (Help_line name (tl r)))
   | None \<Rightarrow> (case strip_prefix ''# TYPE '' s of
       Some r \<Rightarrow> (case read_word '' '' r of (name, r) \<Rightarrow> Some (Type_line name (tl r)))
     | None \<Rightarrow> map_option Sample_line (read_sample s)))"

definition read_lines :: "string \<Rightarrow> line list option" where
  "read_lines s = map_opt read_line (split_lines s)"

text \<open>The lines of a family together: help, type, samples.\<close>

record exposed =
  exposed_name :: string
  exposed_help :: string
  exposed_type :: string
  exposed_samples :: "sample list"

fun group_line :: "line \<Rightarrow> sample list \<times> exposed list \<Rightarrow> sample list \<times> exposed list" where
  "group_line (Sample_line s) (ss, fs) = (s # ss, fs)"
| "group_line (Type_line name kind) (ss, fs) = ([], \<lparr>exposed_name = name, exposed_help = '''', exposed_type = kind, exposed_samples = ss\<rparr> # fs)"
| "group_line (Help_line name text) (ss, []) = (ss, [])"
| "group_line (Help_line name text) (ss, f # fs) = (ss, f\<lparr>exposed_help := text\<rparr> # fs)"

definition read_exposition :: "string \<Rightarrow> exposed list option" where
  "read_exposition s = Option.bind (read_lines s) (\<lambda>ls.
     case foldr group_line ls ([], []) of (ss, fs) \<Rightarrow> if ss = [] then Some fs else None)"

subsection \<open>The reader inverts the writer\<close>

lemma read_word_append:
  "(\<forall>c\<in>set w. c \<notin> set stop) \<Longrightarrow> r = [] \<or> hd r \<in> set stop \<Longrightarrow> read_word stop (w @ r) = (w, r)"
  by (cases r) (auto simp: read_word_def takeWhile_append dropWhile_append)

lemma strip_prefix_append [simp]: "strip_prefix p (p @ s) = Some s"
  by (simp add: strip_prefix_def)

lemma read_quoted_escape: "read_quoted (escape v @ dquote # r) = Some (v, r)"
  by (induction v) (auto simp: escape_def escape_char_def)

text \<open>What a name may not hold for its line to be readable: a blank or a character of the syntax.\<close>

definition plain_name :: "string \<Rightarrow> bool" where
  "plain_name name \<longleftrightarrow> name \<noteq> [] \<and> (\<forall>c\<in>set name. c \<notin> set ''#{ ='' \<and> c \<noteq> newline)"

lemma read_label_print:
  assumes "plain_name (fst l)"
  shows "read_label (print_label l @ r) = Some (l, r)"
proof -
  have "read_word ''='' (fst l @ (''='' @ [dquote]) @ escape (snd l) @ dquote # r) =
      (fst l, (''='' @ [dquote]) @ escape (snd l) @ dquote # r)"
    using assms by (intro read_word_append) (auto simp: plain_name_def)
  moreover have "print_label l @ r = fst l @ (''='' @ [dquote]) @ escape (snd l) @ dquote # r"
    by (simp add: print_label_def)
  ultimately show ?thesis
    unfolding read_label_def by (simp only: prod.case strip_prefix_append bind.simps read_quoted_escape option.map prod.collapse)
qed

lemma read_labels_print:
  assumes "ls \<noteq> []" and "\<forall>l\<in>set ls. plain_name (fst l)" and "length ls \<le> fuel"
  shows "read_labels fuel (print_labels ls @ CHR ''}'' # r) = Some (ls, r)"
  using assms
proof (induction ls arbitrary: fuel rule: print_labels.induct)
  case (2 l)
  then show ?case by (cases fuel) (simp_all add: read_label_print)
next
  case (3 l l' ls)
  then obtain fuel' where f: "fuel = Suc fuel'" "length (l' # ls) \<le> fuel'" by (cases fuel) auto
  have "read_labels fuel' (print_labels (l' # ls) @ CHR ''}'' # r) = Some (l' # ls, r)"
    using 3 f by simp
  then show ?case using 3(3) by (simp add: f(1) read_label_print)
qed simp

lemma length_print_labels: "length ls \<le> length (print_labels ls)"
  by (induction ls rule: print_labels.induct) (simp_all add: print_label_def)

lemma read_block_print:
  assumes "\<forall>l\<in>set ls. plain_name (fst l)"
  shows "read_label_block ((if ls = [] then '''' else ''{'' @ print_labels ls @ ''}'') @ CHR '' '' # r) = Some (ls, CHR '' '' # r)"
proof (cases "ls = []")
  case False
  have "length ls \<le> length (print_labels ls @ CHR ''}'' # CHR '' '' # r)" using length_print_labels [of ls] by simp
  from read_labels_print [OF False assms this] False show ?thesis by (simp add: read_label_block_def)
qed (simp add: read_label_block_def)

lemma read_show_int [simp]: "read_int (show_int n) = n"
proof -
  have "take 1 (show_nat k) \<noteq> ''-''" for k
    using show_nat_digits [of k] by (cases "show_nat k") (auto simp: digits_def)
  then show ?thesis by (simp add: read_int_def show_int_def)
qed

definition plain_sample :: "sample \<Rightarrow> bool" where
  "plain_sample s \<longleftrightarrow> plain_name (sample_name s) \<and> (\<forall>l\<in>set (sample_labels s). plain_name (fst l)) \<and>
     set (sample_value s) \<subseteq> number_chars"

lemma no_blank: "set s \<subseteq> number_chars \<Longrightarrow> c \<in> set s \<Longrightarrow> c \<noteq> CHR '' '' \<and> c \<noteq> newline"
  using number_char_cases by blast

lemma read_sample_print:
  assumes "plain_sample s"
  shows "read_sample (print_sample s) = Some s"
proof -
  let ?t = "if sample_time s = 0 then '''' else '' '' @ show_int (sample_time s)"
  let ?b = "(if sample_labels s = [] then '''' else ''{'' @ print_labels (sample_labels s) @ ''}'') @ CHR '' '' # sample_value s @ ?t"
  have whole: "print_sample s = sample_name s @ ?b" by (simp add: print_sample_def)
  have word: "read_word ''{ '' (sample_name s @ ?b) = (sample_name s, ?b)"
    using assms by (intro read_word_append) (auto simp: plain_sample_def plain_name_def)
  have block: "read_label_block ?b = Some (sample_labels s, '' '' @ sample_value s @ ?t)"
    using assms by (subst read_block_print) (auto simp: plain_sample_def)
  have v: "read_word '' '' (sample_value s @ ?t) = (sample_value s, ?t)"
    using assms no_blank by (intro read_word_append) (auto simp: plain_sample_def)
  have time: "(if ?t = [] then 0 else read_int (tl ?t)) = sample_time s" by simp
  show ?thesis
    unfolding whole read_sample_def word prod.case block bind.simps strip_prefix_append v time by simp
qed

fun plain_line :: "line \<Rightarrow> bool" where
  "plain_line (Help_line name words) = (plain_name name \<and> newline \<notin> set words)"
| "plain_line (Type_line name kind) = (plain_name name \<and> newline \<notin> set kind)"
| "plain_line (Sample_line s) = plain_sample s"

lemma read_name_print: "plain_name name \<Longrightarrow> read_word '' '' (name @ CHR '' '' # r) = (name, CHR '' '' # r)"
  by (rule read_word_append) (auto simp: plain_name_def)

lemma not_comment:
  assumes "plain_sample s"
  shows "strip_prefix (CHR ''#'' # p) (print_sample s) = None"
proof -
  obtain c cs where "sample_name s = c # cs" "c \<noteq> CHR ''#''"
    using assms by (cases "sample_name s") (auto simp: plain_sample_def plain_name_def)
  then show ?thesis by (simp add: strip_prefix_def print_sample_def)
qed

lemma read_line_print: "plain_line l \<Longrightarrow> read_line (print_line l) = Some l"
proof (cases l)
  case (Help_line name words)
  moreover have "strip_prefix ''# HELP '' (''# HELP '' @ name @ '' '' @ words) = Some (name @ '' '' @ words)"
    by (rule strip_prefix_append)
  ultimately show "plain_line l \<Longrightarrow> ?thesis" by (simp add: read_line_def read_name_print)
next
  case (Type_line name kind)
  moreover have "strip_prefix ''# TYPE '' (''# TYPE '' @ name @ '' '' @ kind) = Some (name @ '' '' @ kind)"
    by (rule strip_prefix_append)
  moreover have "strip_prefix ''# HELP '' (''# TYPE '' @ name @ '' '' @ kind) = None" by (simp add: strip_prefix_def)
  ultimately show "plain_line l \<Longrightarrow> ?thesis" by (simp add: read_line_def read_name_print)
next
  case (Sample_line s)
  then show "plain_line l \<Longrightarrow> ?thesis" by (simp add: read_line_def not_comment read_sample_print)
qed

lemma split_lines_append: "newline \<notin> set l \<Longrightarrow> split_lines (l @ newline # r) = l # split_lines r"
  by (induction l) auto

lemma escape_no_newline: "newline \<notin> set (escape s)"
  by (induction s) (auto simp: escape_def escape_char_def)

lemma print_labels_no_newline: "\<forall>l\<in>set ls. plain_name (fst l) \<Longrightarrow> newline \<notin> set (print_labels ls)"
  by (induction ls rule: print_labels.induct) (auto simp: print_label_def escape_no_newline plain_name_def)

lemma print_line_no_newline: "plain_line l \<Longrightarrow> newline \<notin> set (print_line l)"
proof (cases l)
  case (Sample_line s)
  assume "plain_line l"
  with Sample_line have s: "plain_sample s" by simp
  then have "newline \<notin> set (sample_name s)" "newline \<notin> set (print_labels (sample_labels s))" "newline \<notin> set (sample_value s)"
    using print_labels_no_newline [of "sample_labels s"] no_blank by (auto simp: plain_sample_def plain_name_def)
  moreover have "newline \<notin> set (show_int n)" for n
    using no_blank [OF show_int_subset] by blast
  ultimately show ?thesis by (auto simp: Sample_line print_sample_def)
qed (auto simp: plain_name_def)

lemma read_lines_print: "\<forall>l\<in>set ls. plain_line l \<Longrightarrow> read_lines (print_lines ls) = Some ls"
  by (induction ls)
    (simp_all add: read_lines_def split_lines_append print_line_no_newline read_line_print)

text \<open>The families a text stands for.\<close>

definition exposed_family :: "metric_family \<Rightarrow> exposed" where
  "exposed_family mf = \<lparr>exposed_name = family_name mf, exposed_help = family_help mf, exposed_type = type_name (family_type mf),
     exposed_samples = concat (map (family_samples mf) (family_metric mf))\<rparr>"

lemma group_samples: "foldr group_line (map Sample_line ss) (ts, fs) = (ss @ ts, fs)"
  by (induction ss) simp_all

lemma group_family: "foldr group_line (family_lines mf) ([], fs) = ([], exposed_family mf # fs)"
  by (simp add: family_lines_def group_samples exposed_family_def)

lemma group_families: "foldr group_line (concat (map family_lines mfs)) ([], fs) = ([], map exposed_family mfs @ fs)"
  by (induction mfs) (simp_all add: group_family)

subsection \<open>Families with valid names\<close>

definition plain_family :: "metric_family \<Rightarrow> bool" where
  "plain_family mf \<longleftrightarrow> CheckMetricName (family_name mf) \<and> newline \<notin> set (family_help mf) \<and>
     (\<forall>m\<in>set (family_metric mf). \<forall>l\<in>set (metric_label m). CheckLabelName (label_name l) (family_type mf))"

lemma name_char_plain: "letter c \<or> digit c \<or> c = CHR ''_'' \<or> c = CHR '':'' \<Longrightarrow> c \<notin> set ''#{ ='' \<and> c \<noteq> newline"
  by (auto simp: letter_def digit_def)

lemma plain_metric_name: "CheckMetricName name \<Longrightarrow> plain_name name"
  unfolding plain_name_def using metric_name_chars name_char_plain by (auto simp: CheckMetricName_regex)

lemma plain_label_name: "CheckLabelName name t \<Longrightarrow> plain_name name"
  unfolding plain_name_def using label_name_chars name_char_plain by (metis CheckLabelName_Nil)

lemma plain_name_append: "plain_name a \<Longrightarrow> \<forall>c\<in>set b. c \<notin> set ''#{ ='' \<and> c \<noteq> newline \<Longrightarrow> plain_name (a @ b)"
  by (auto simp: plain_name_def)

lemma plain_sample_of:
  assumes "plain_family mf" and "m \<in> set (family_metric mf)" and "set suffix \<subseteq> set ''_infocuntsmbke''"
    and "\<forall>e\<in>set extra. plain_name (fst e)" and "set v \<subseteq> number_chars"
  shows "plain_sample (sample_of mf m suffix extra v)"
proof -
  have "\<forall>c\<in>set suffix. c \<notin> set ''#{ ='' \<and> c \<noteq> newline" using assms(3) by auto
  moreover have "plain_name (family_name mf)" using assms(1) by (simp add: plain_family_def plain_metric_name)
  ultimately have "plain_name (family_name mf @ suffix)" by (rule plain_name_append [rotated])
  moreover have "\<forall>l\<in>set (metric_label m). plain_name (label_name l)"
    using assms(1,2) plain_label_name by (fastforce simp: plain_family_def)
  ultimately show ?thesis using assms(4,5) by (auto simp: plain_sample_def sample_of_def)
qed

lemma count_text_subset: "set (count_text n) \<subseteq> number_chars"
  by (simp add: count_text_def show_int_subset)

lemma plain_family_samples:
  assumes "plain_family mf" and "m \<in> set (family_metric mf)" and "s \<in> set (family_samples mf m)"
  shows "plain_sample s"
proof -
  have q: "plain_name ''quantile''" "plain_name ''le''" by code_simp+
  have "\<forall>s\<in>set (family_samples mf m). plain_sample s"
    by (cases "family_type mf")
      (simp_all add: family_samples_def Let_def bucket_sample_def plain_sample_of [OF assms(1,2)]
        value_text_subset count_text_subset q)
  with assms(3) show ?thesis by blast
qed

lemma plain_family_lines:
  assumes "plain_family mf"
  shows "\<forall>l\<in>set (family_lines mf). plain_line l"
proof -
  have "newline \<notin> set (type_name (family_type mf))" by (cases "family_type mf") (simp_all add: type_name_def)
  moreover have "plain_name (family_name mf)" "newline \<notin> set (family_help mf)"
    using assms by (simp_all add: plain_family_def plain_metric_name)
  ultimately show ?thesis using plain_family_samples [OF assms] by (auto simp: family_lines_def)
qed

lemma read_exposition_exposition:
  assumes "\<forall>mf\<in>set families. plain_family mf"
  shows "read_exposition (exposition families) = Some (map exposed_family families)"
proof -
  have "\<forall>l\<in>set (concat (map family_lines families)). plain_line l"
    using assms plain_family_lines by auto
  then show ?thesis
    unfolding exposition_def read_exposition_def
    by (simp add: read_lines_print group_families [where fs = "[]", simplified])
qed

lemma Serializer_exposition: "Serializer_Serialize global families = exposition families"
  by (simp add: Serializer_Serialize_def TextSerializer_exposition ostringstream_def puts_def)

text \<open>Numbers that survive.\<close>

lemma count_text_of_nat: "n \<le> 2 ^ 53 \<Longrightarrow> count_text (of_nat n) = show_nat n"
  by (simp add: count_text_def uint_of_nat_small show_int_def)

lemma value_text_of_nat: "n \<le> 2 ^ 53 \<Longrightarrow> value_text (Fin (of_nat n)) = show_nat n"
proof -
  assume "n \<le> 2 ^ 53"
  then have "n < 10 ^ 16" by (rule le_less_trans) simp
  then show ?thesis by (simp only: value_text_def double.case) (rule show_double_of_nat, simp_all)
qed

subsection \<open>Properties\<close>

text \<open>C27: Serializing appends to the stream exactly the text of the families' lines, whatever
  the locale and the precision it came with, and gives both back unchanged; so the string
  overload returns that text under every global locale.\<close>

theorem serialize_exposition:
  "TextSerializer_Serialize families out = out\<lparr>os_text := os_text out @ exposition families\<rparr> \<and>
   Serializer_Serialize global families = exposition families"
  by (simp add: TextSerializer_exposition Serializer_exposition puts_def)

text \<open>C2: For families with valid metric and label names and a help text of one line, the
  serialized text can be read back: it determines every family with its help and type, and for
  every metric the samples with their names, the labels with their exact values (quotes,
  backslashes and line ends included), the value and the time stamp.\<close>

theorem exposition_roundtrip:
  assumes "\<forall>mf\<in>set families. plain_family mf"
  shows "read_exposition (Serializer_Serialize global families) = Some (map exposed_family families)"
  unfolding Serializer_exposition using assms by (rule read_exposition_exposition)

definition demo_exposed :: metric_family where
  "demo_exposed = \<lparr>family_name = ''files'', family_help = ''Open \"files\"'', family_type = Gauge,
     family_metric = [empty_client_metric\<lparr>metric_label := [\<lparr>label_name = ''path'', label_value = [backslash, CHR ''a'', dquote, newline]\<rparr>],
       gauge_value := Fin 3, timestamp_ms := -5\<rparr>]\<rparr>"

lemma demo_exposed_samples: "exposed_samples (exposed_family demo_exposed) =
    [\<lparr>sample_name = ''files'', sample_labels = [(''path'', [backslash, CHR ''a'', dquote, newline])], sample_value = ''3'', sample_time = -5\<rparr>]"
proof -
  have "value_text (Fin (of_nat 3)) = show_nat 3" unfolding value_text_def double.case by (rule show_double_of_nat) simp_all
  also have "show_nat 3 = ''3''" by code_simp
  finally have "value_text (Fin 3) = ''3''" by simp
  then show ?thesis by (simp add: exposed_family_def demo_exposed_def family_samples_def sample_of_def)
qed

theorem exposition_roundtrip_witness:
  "map_option (map exposed_samples) (read_exposition (Serializer_Serialize classic_locale [demo_exposed])) =
    Some [[\<lparr>sample_name = ''files'', sample_labels = [(''path'', [backslash, CHR ''a'', dquote, newline])],
      sample_value = ''3'', sample_time = -5\<rparr>]]"
proof -
  have "CheckMetricName ''files''" "CheckLabelName ''path'' Gauge" by code_simp+
  then have "\<forall>mf\<in>set [demo_exposed]. plain_family mf"
    by (simp add: plain_family_def demo_exposed_def)
  from exposition_roundtrip [OF this] show ?thesis by (simp add: demo_exposed_samples)
qed

text \<open>The help text is written as it is: a line end in it makes the rest a line of its own.\<close>

definition forging_help :: metric_family where
  "forging_help = demo_exposed\<lparr>family_help := ''a'' @ newline # ''forged 1'', family_metric := []\<rparr>"

lemma help_forges_sample:
  "read_lines (Serializer_Serialize global [forging_help]) =
     Some [Help_line ''files'' ''a'', Sample_line \<lparr>sample_name = ''forged'', sample_labels = [], sample_value = ''1'', sample_time = 0\<rparr>,
       Type_line ''files'' ''gauge'']"
  unfolding Serializer_exposition by code_simp

lemma show_nat_3: "show_nat 3 = ''3''" by code_simp
lemma show_nat_3e15: "show_nat 3000000000000000 = ''3'' @ replicate 15 CHR ''0''" 
  using show_nat_shift [of 3 15] by (simp add: show_nat_3)
lemma dropWhile_replicate_append [simp]: "dropWhile (\<lambda>d. d = c) (replicate n c @ s) = dropWhile (\<lambda>d. d = c) s"
  by (induction n) simp_all

text \<open>Sixteen digits do not separate all doubles: 0.3 and 0.1 + 0.2 have the same text.\<close>

lemma sixteen_digits_collide:
  assumes "m = 5404319552844595 \<or> m = 5404319552844596"
  shows "is_double (Fin (of_int m / 2 ^ 54)) \<and> value_text (Fin (of_int m / 2 ^ 54)) = ''0.3''"
proof
  have "of_int m / 2 ^ 54 = of_int m * (2::rat) powi - 54" by (simp add: power_int_minus_divide)
  moreover have "\<bar>m\<bar> \<le> 2 ^ 53" using assms by auto
  ultimately have "rnd_fin (of_int m / 2 ^ 54) = of_int m / 2 ^ 54" by (rule rnd_fin_fixed) simp
  moreover have "\<bar>of_int m / 2 ^ 54 :: rat\<bar> < 1" using assms by auto
  then have "\<bar>of_int m / 2 ^ 54 :: rat\<bar> < overflow_bound"
    unfolding overflow_bound_def by (rule less_le_trans) (rule one_le_power, simp)
  ultimately show "is_double (Fin (of_int m / 2 ^ 54))" by (simp add: representable_def del: power_numeral)
next
  have e: "ilog10 (of_int m / 2 ^ 54) = -1" 
  proof -
    have "\<lceil>1 / (of_int m / 2 ^ 54 :: rat)\<rceil> = 4" using assms by (auto simp: ceiling_eq_iff)
    then show ?thesis using assms by (auto simp: ilog10_def show_nat_3)
  qed
  have r: "rne (of_int m / 2 ^ 54 * 10 ^ 16) = 3000000000000000"
    using assms by (intro rne_nearest) (auto simp: abs_if)
  have "sci_digits 16 (of_int m / 2 ^ 54) = (3000000000000000, -1)"
    unfolding sci_digits_def e Let_def using r by simp
  then have "show_positive 16 (of_int m / 2 ^ 54) = ''0.3''"
    by (simp add: show_positive_def show_nat_3e15 with_point_def strip_zeros_def)
  then show "value_text (Fin (of_int m / 2 ^ 54)) = ''0.3''"
    using assms by (auto simp: value_text_def show_double_def)
qed

end
