(* ===== verification/NumberReading.thy ===== *)
theory NumberReading
  imports Exposition
begin

text \<open>
  How much of a value is left in the text of an exposition. A reader of decimal numbers is applied
  to what the stream prints for a \<open>double\<close> with 16 significant digits: the error is at most half a
  unit of the sixteenth digit, and a number with at most 16 digits is read back exactly.
\<close>

subsection \<open>Reading\<close>

definition read_exponent :: "string \<Rightarrow> int" where
  "read_exponent s = (case s of [] \<Rightarrow> 0 | c # ds \<Rightarrow> (if c = CHR ''-'' then - int (read_nat ds) else int (read_nat ds)))"

definition read_positive :: "string \<Rightarrow> rat" where
  "read_positive s =
     (let mantissa = takeWhile (\<lambda>c. c \<noteq> CHR ''e'') s; expo = drop 1 (dropWhile (\<lambda>c. c \<noteq> CHR ''e'') s);
          whole = takeWhile (\<lambda>c. c \<noteq> CHR ''.'') mantissa; fraction = drop 1 (dropWhile (\<lambda>c. c \<noteq> CHR ''.'') mantissa)
      in of_nat (read_nat (whole @ fraction)) * 10 powi (read_exponent expo - int (length fraction)))"

definition read_decimal :: "string \<Rightarrow> rat" where
  "read_decimal s = (case s of CHR ''-'' # t \<Rightarrow> - read_positive t | _ \<Rightarrow> read_positive s)"

subsection \<open>Decimal exponents\<close>

lemma powi10_pos [simp]: "0 < (10::rat) powi a"
  by (simp add: zero_less_power_int)

lemma powi10_add: "(10::rat) powi a * 10 powi b = 10 powi (a + b)"
  by (simp add: power_int_add)

lemma powi10_less_iff: "(10::rat) powi a < 10 powi b \<longleftrightarrow> a < b"
  by (meson linorder_not_le one_less_numeral_iff power_int_increasing power_int_strict_increasing semiring_norm(76) one_le_numeral)

lemma powi10_nat: "(10::rat) powi int k = 10 ^ k"
  by simp

lemma pow10_le_of_nat: "10 ^ a \<le> n \<Longrightarrow> (10 :: rat) ^ a \<le> of_nat n"
  using of_nat_le_iff [of "10 ^ a" n, where 'a = rat] by simp

lemma of_nat_le_pow10: "n + 1 \<le> 10 ^ b \<Longrightarrow> of_nat n + 1 \<le> (10 :: rat) ^ b"
  using of_nat_le_iff [of "n + 1" "10 ^ b", where 'a = rat] by simp

lemma ilog10_bounds:
  assumes "0 < q"
  shows "10 powi ilog10 q \<le> q \<and> q < 10 powi (ilog10 q + 1)"
proof (cases "1 \<le> q")
  case True
  define n where "n = nat \<lfloor>q\<rfloor>"
  have n: "0 < n" "of_nat n \<le> q" "q < of_nat n + 1" using True by (simp_all add: n_def le_floor_iff, linarith)
  let ?l = "length (show_nat n)"
  have l: "10 ^ (?l - 1) \<le> n" "n + 1 \<le> 10 ^ ?l" "0 < ?l" using show_nat_length [OF n(1)] by auto
  have "(10::rat) ^ (?l - 1) \<le> of_nat n" "of_nat n + 1 \<le> (10::rat) ^ ?l"
    using pow10_le_of_nat [OF l(1)] of_nat_le_pow10 [OF l(2)] by simp_all
  moreover have "int (?l - 1) = int ?l - 1" using l(3) by linarith
  moreover have "ilog10 q = int ?l - 1" using True by (simp add: ilog10_def n_def)
  ultimately have "10 powi ilog10 q = (10::rat) ^ (?l - 1)" "10 powi (ilog10 q + 1) = (10::rat) ^ ?l"
    "(10::rat) ^ (?l - 1) \<le> of_nat n" "of_nat n + 1 \<le> (10::rat) ^ ?l"
    by (metis powi10_nat, metis powi10_nat diff_add_cancel, blast+)
  then show ?thesis using n(2,3) by linarith
next
  case False
  define m where "m = nat (\<lceil>1 / q\<rceil> - 1)"
  have "1 < 1 / q" using False assms by simp
  then have m: "0 < m" "of_nat m < 1 / q" "1 / q \<le> of_nat m + 1" by (simp_all add: m_def, linarith+)
  let ?l = "length (show_nat m)"
  have l: "10 ^ (?l - 1) \<le> m" "m + 1 \<le> 10 ^ ?l" "0 < ?l" using show_nat_length [OF m(1)] by auto
  have "(10::rat) ^ (?l - 1) \<le> of_nat m" "of_nat m + 1 \<le> (10::rat) ^ ?l"
    using pow10_le_of_nat [OF l(1)] of_nat_le_pow10 [OF l(2)] by simp_all
  then have b: "(10::rat) ^ (?l - 1) < 1 / q" "1 / q \<le> (10::rat) ^ ?l" using m(2,3) by linarith+
  have "ilog10 q = - int ?l" using False by (simp add: ilog10_def m_def)
  moreover have "int (?l - 1) = int ?l - 1" using l(3) by linarith
  ultimately have e: "ilog10 q = - int ?l" "ilog10 q + 1 = - int (?l - 1)" by linarith+
  have "10 powi ilog10 q = 1 / (10::rat) ^ ?l" "10 powi (ilog10 q + 1) = 1 / (10::rat) ^ (?l - 1)"
    unfolding e(2) unfolding e(1) power_int_minus powi10_nat by (simp_all only: divide_inverse mult_1_left)
  moreover have "1 / (10::rat) ^ ?l \<le> q" "q < 1 / (10::rat) ^ (?l - 1)" using b assms by (simp_all add: field_simps)
  ultimately show ?thesis by (simp only: simp_thms)
qed

lemma sci_digits_spec:
  assumes "0 < q" and "0 < p" and "sci_digits p q = (n, e)"
  shows "10 ^ (p - 1) \<le> n \<and> n < 10 ^ p \<and>
    \<bar>of_nat n * 10 powi (e + 1 - int p) - q\<bar> \<le> 1 / 2 * 10 powi (ilog10 q + 1 - int p) \<and>
    of_nat n * 10 powi (e + 1 - int p) = (of_int :: int \<Rightarrow> rat) (rne (q * 10 powi (int p - 1 - ilog10 q))) * 10 powi (ilog10 q + 1 - int p)"
proof -
  define e0 where "e0 = ilog10 q"
  define x where "x = q * 10 powi (int p - 1 - e0)"
  have q: "10 powi e0 \<le> q" "q < 10 powi (e0 + 1)" using ilog10_bounds [OF assms(1)] by (simp_all add: e0_def)
  have "10 powi e0 * 10 powi (int p - 1 - e0) \<le> x" "x < 10 powi (e0 + 1) * 10 powi (int p - 1 - e0)"
    unfolding x_def using q by (simp_all add: mult_right_mono mult_strict_right_mono)
  then have x: "10 powi int (p - 1) \<le> x" "x < 10 powi int p" using assms(2) by (simp_all add: powi10_add of_nat_diff)
  have lo: "(10::int) ^ (p - 1) \<le> rne x" by (rule rne_ge) (use x(1) in simp)
  have hi: "rne x \<le> (10::int) ^ p" by (rule rne_le) (use x(2) in simp)
  define r where "r = nat (rne x)"
  have pos: "0 \<le> rne x" using lo by (meson order_trans zero_le_power zero_le_numeral)
  then have r: "int r = rne x" by (simp add: r_def)
  have rb: "10 ^ (p - 1) \<le> r" "r \<le> 10 ^ p" using lo hi unfolding r [symmetric] by (metis of_nat_le_iff of_nat_power of_nat_numeral)+
  have ne: "(n, e) = (if r = 10 ^ p then (10 ^ (p - 1), e0 + 1) else (r, e0))"
    using assms(3) unfolding sci_digits_def Let_def r_def x_def e0_def by (rule sym)
  have val: "of_nat n * 10 powi (e + 1 - int p) = of_int (rne x) * (10::rat) powi (e0 + 1 - int p)"
  proof (cases "r = 10 ^ p")
    case True
    then have n: "n = 10 ^ (p - 1)" "e = e0 + 1" using ne by auto
    have "of_nat n * (10::rat) powi (e + 1 - int p) = 10 powi int (p - 1) * 10 powi (e0 + 1 + 1 - int p)" by (simp add: n)
    also have "\<dots> = 10 powi (e0 + 1)" using assms(2) by (simp only: powi10_add) (simp add: of_nat_diff add.commute)
    also have "\<dots> = 10 powi int p * 10 powi (e0 + 1 - int p)" by (simp only: powi10_add) simp
    also have "\<dots> = of_int (rne x) * 10 powi (e0 + 1 - int p)" unfolding r [symmetric] by (simp add: True)
    finally show ?thesis .
  next
    case False
    then show ?thesis using ne r by (auto simp flip: r)
  qed
  have "q = x * 10 powi (e0 + 1 - int p)" unfolding x_def mult.assoc powi10_add by simp
  then have "of_nat n * 10 powi (e + 1 - int p) - q = (of_int (rne x) - x) * 10 powi (e0 + 1 - int p)"
    unfolding val by (simp add: left_diff_distrib)
  then have "\<bar>of_nat n * 10 powi (e + 1 - int p) - q\<bar> = \<bar>of_int (rne x) - x\<bar> * 10 powi (e0 + 1 - int p)"
    by (simp add: abs_mult less_imp_le)
  also have "\<dots> \<le> 1 / 2 * 10 powi (e0 + 1 - int p)" using rne_error [of x] by (intro mult_right_mono) (simp_all add: less_imp_le)
  finally have err: "\<bar>of_nat n * 10 powi (e + 1 - int p) - q\<bar> \<le> 1 / 2 * 10 powi (e0 + 1 - int p)" .
  have "10 ^ (p - 1) \<le> n \<and> n < 10 ^ p"
    using ne rb assms(2) by (auto split: if_splits)
  then show ?thesis using err val by (simp add: e0_def x_def)
qed

subsection \<open>What is printed and read\<close>

lemma read_nat_append: "read_nat (s @ t) = read_nat s * 10 ^ length t + read_nat t"
proof (induction t rule: rev_induct)
  case (snoc c t)
  have "read_nat (s @ t @ [c]) = 10 * read_nat (s @ t) + digit_value c" by (simp add: read_nat_def)
  moreover have "read_nat (t @ [c]) = 10 * read_nat t + digit_value c" by (simp add: read_nat_def)
  ultimately show ?case using snoc by (simp add: algebra_simps)
qed (simp add: read_nat_def)

lemma read_nat_zeros [simp]: "read_nat (replicate k (CHR ''0'')) = 0"
  by (induction k) (simp_all add: read_nat_def digit_value_def)

lemma read_nat_leading: "read_nat (replicate k (CHR ''0'') @ s) = read_nat s"
  by (simp add: read_nat_append)

lemma strip_zeros_split: "\<exists>k. s = strip_zeros s @ replicate k (CHR ''0'')"
proof -
  have "rev s = takeWhile (\<lambda>c. c = CHR ''0'') (rev s) @ dropWhile (\<lambda>c. c = CHR ''0'') (rev s)" by simp
  then have "s = strip_zeros s @ rev (takeWhile (\<lambda>c. c = CHR ''0'') (rev s))"
    unfolding strip_zeros_def by (metis rev_append rev_rev_ident)
  moreover have "takeWhile (\<lambda>c. c = CHR ''0'') t = replicate (length (takeWhile (\<lambda>c. c = CHR ''0'') t)) (CHR ''0'')" for t
    by (induction t) auto
  ultimately show ?thesis by (metis rev_replicate)
qed

text \<open>What follows the mantissa: nothing, or an exponent.\<close>

definition exponent_text :: "string \<Rightarrow> int \<Rightarrow> bool" where
  "exponent_text s e \<longleftrightarrow> s = [] \<and> e = 0 \<or> s = show_exponent e"

lemma read_exponent_text:
  assumes "exponent_text s e"
  shows "read_exponent (drop 1 s) = e \<and> (s = [] \<or> hd s = CHR ''e'')"
proof (cases "s = []")
  case False
  then have s: "s = show_exponent e" using assms by (simp add: exponent_text_def)
  have "read_nat (let d = show_nat (nat \<bar>e\<bar>) in if length d < 2 then CHR ''0'' # d else d) = nat \<bar>e\<bar>"
    using read_nat_leading [of 1 "show_nat (nat \<bar>e\<bar>)"] by (simp add: Let_def)
  moreover obtain d where d: "d = (let d = show_nat (nat \<bar>e\<bar>) in if length d < 2 then CHR ''0'' # d else d)" by blast
  ultimately show ?thesis unfolding s show_exponent_def d [symmetric] by (simp add: read_exponent_def)
qed (use assms in \<open>auto simp: exponent_text_def show_exponent_def read_exponent_def\<close>)

lemma digits_plain: "set s \<subseteq> digits \<Longrightarrow> CHR ''.'' \<notin> set s \<and> CHR ''e'' \<notin> set s \<and> CHR ''-'' \<notin> set s"
  by (auto simp: digits_def)

lemma takeWhile_stop: "c \<notin> set s \<Longrightarrow> t = [] \<or> hd t = c \<Longrightarrow>
    takeWhile (\<lambda>d. d \<noteq> c) (s @ t) = s \<and> dropWhile (\<lambda>d. d \<noteq> c) (s @ t) = t"
  by (cases t) (auto simp: takeWhile_append dropWhile_append3)

lemma read_positive_parts:
  assumes "set whole \<subseteq> digits" and "set fraction \<subseteq> digits" and "exponent_text s e"
  shows "read_positive (whole @ with_point fraction @ s) = of_nat (read_nat (whole @ fraction)) * 10 powi (e - int (length fraction))"
proof -
  let ?f = "strip_zeros fraction"
  obtain k where k: "fraction = ?f @ replicate k (CHR ''0'')" using strip_zeros_split by blast
  have f: "set ?f \<subseteq> digits" using assms(2) strip_subset [of fraction] by blast
  have point: "with_point fraction = (if ?f = [] then [] else CHR ''.'' # ?f)" by (simp add: with_point_def Let_def)
  note plain = digits_plain [OF assms(1)] digits_plain [OF f]
  note expo = read_exponent_text [OF assms(3)]
  have "CHR ''e'' \<notin> set (whole @ with_point fraction)" using plain by (simp add: point)
  from takeWhile_stop [OF this, of s] expo
  have m: "takeWhile (\<lambda>c. c \<noteq> CHR ''e'') (whole @ with_point fraction @ s) = whole @ with_point fraction"
    "dropWhile (\<lambda>c. c \<noteq> CHR ''e'') (whole @ with_point fraction @ s) = s" by simp_all
  have "CHR ''.'' \<notin> set whole" "with_point fraction = [] \<or> hd (with_point fraction) = CHR ''.''" using plain by (auto simp: point)
  note w = takeWhile_stop [OF this]
  have d: "drop 1 (with_point fraction) = ?f" by (simp add: point)
  have "read_positive (whole @ with_point fraction @ s) = of_nat (read_nat (whole @ ?f)) * 10 powi (e - int (length ?f))"
    using expo unfolding read_positive_def Let_def m w [THEN conjunct1] w [THEN conjunct2] d by simp
  also have "\<dots> = of_nat (read_nat (whole @ ?f) * 10 ^ k) * 10 powi (- int k) * 10 powi (e - int (length ?f))"
    by (simp add: power_int_minus)
  also have "\<dots> = of_nat (read_nat (whole @ ?f) * 10 ^ k) * 10 powi (e - (int (length ?f) + int k))"
    by (simp only: mult.assoc powi10_add) (simp add: algebra_simps)
  also have "read_nat (whole @ ?f) * 10 ^ k = read_nat (whole @ fraction)"
    by (subst (2) k) (simp add: read_nat_append algebra_simps power_add)
  also have "int (length ?f) + int k = int (length fraction)" by (subst (2) k) simp
  finally show ?thesis .
qed

lemma length_show_nat: "10 ^ (p - 1) \<le> n \<Longrightarrow> n < 10 ^ p \<Longrightarrow> 0 < p \<Longrightarrow> length (show_nat n) = p"
proof -
  assume n: "10 ^ (p - 1) \<le> n" "n < 10 ^ p" "0 < p"
  then have "0 < n" by (metis gr0I not_one_le_zero one_le_numeral one_le_power le_trans)
  note l = show_nat_length [OF this]
  have "(10::nat) ^ (p - 1) < 10 ^ length (show_nat n)" "(10::nat) ^ (length (show_nat n) - 1) < 10 ^ p"
    using n l by linarith+
  then have "p - 1 < length (show_nat n)" "length (show_nat n) - 1 < p" by (simp_all add: power_less_imp_less_exp)
  then show ?thesis using n(3) by (metis One_nat_def Suc_pred le_antisym less_Suc_eq_le length_greater_0_conv show_nat_nonempty Suc_leI)
qed

lemma read_show_positive:
  assumes "0 < q" and "0 < p" and "sci_digits p q = (n, e)"
  shows "read_positive (show_positive p q) = of_nat n * 10 powi (e + 1 - int p)"
proof -
  have n: "10 ^ (p - 1) \<le> n" "n < 10 ^ p" using sci_digits_spec [OF assms] by auto
  let ?ds = "show_nat n"
  have len: "length ?ds = p" using n assms(2) by (rule length_show_nat)
  have ds: "set ?ds \<subseteq> digits" "set (take k ?ds) \<subseteq> digits" "set (drop k ?ds) \<subseteq> digits" for k
    using show_nat_digits [of n] set_take_subset [of k ?ds] set_drop_subset [of k ?ds] by blast+
  have none: "exponent_text [] 0" by (simp add: exponent_text_def)
  consider "e < - 4 \<or> int p \<le> e" | "\<not> (e < - 4 \<or> int p \<le> e)" "e < 0" | "\<not> (e < - 4 \<or> int p \<le> e)" "\<not> e < 0" by blast
  then show ?thesis
  proof cases
    case 1
    have "read_positive (take 1 ?ds @ with_point (drop 1 ?ds) @ show_exponent e) =
        of_nat (read_nat (take 1 ?ds @ drop 1 ?ds)) * 10 powi (e - int (length (drop 1 ?ds)))"
      by (rule read_positive_parts [OF ds(2,3)]) (simp add: exponent_text_def)
    then show ?thesis
      using 1 assms(2,3) len by (simp add: show_positive_def Let_def of_nat_diff algebra_simps)
  next
    case 2
    let ?z = "replicate (nat (- e - 1)) (CHR ''0'')"
    have z: "set ''0'' \<subseteq> digits" "set (?z @ ?ds) \<subseteq> digits" using ds(1) by (auto simp: digits_def)
    have "read_positive (''0'' @ with_point (?z @ ?ds) @ []) = of_nat (read_nat (''0'' @ ?z @ ?ds)) * 10 powi (0 - int (length (?z @ ?ds)))"
      by (rule read_positive_parts [OF z none])
    moreover have "read_nat (''0'' @ ?z @ ?ds) = n"
      using read_nat_leading [of 1 "?z @ ?ds"] read_nat_leading [of "nat (- e - 1)" ?ds] by simp
    moreover have "0 - int (length (?z @ ?ds)) = e + 1 - int p" using 2 len by simp
    moreover have "show_positive p q = ''0'' @ with_point (?z @ ?ds) @ []" using 2 assms(3) by (simp add: show_positive_def Let_def)
    ultimately show ?thesis by metis
  next
    case 3
    let ?k = "nat (e + 1)"
    have "read_positive (take ?k ?ds @ with_point (drop ?k ?ds) @ []) =
        of_nat (read_nat (take ?k ?ds @ drop ?k ?ds)) * 10 powi (0 - int (length (drop ?k ?ds)))"
      by (rule read_positive_parts [OF ds(2,3) none])
    moreover have "0 - int (length (drop ?k ?ds)) = e + 1 - int p" using 3 len by simp
    moreover have "show_positive p q = take ?k ?ds @ with_point (drop ?k ?ds) @ []" using 3 assms(3) by (simp add: show_positive_def Let_def)
    ultimately show ?thesis by simp
  qed
qed

lemma show_positive_no_sign: "0 < p \<Longrightarrow> show_positive p q \<noteq> [] \<and> hd (show_positive p q) \<noteq> CHR ''-''"
proof -
  assume p: "0 < p"
  obtain n e where d: "sci_digits p q = (n, e)" by fastforce
  have h: "hd (show_nat n) \<in> digits" using show_nat_digits [of n] hd_in_set [of "show_nat n"] by auto
  have "hd (take k (show_nat n) @ s) = hd (show_nat n)" if "0 < k" for k s using that by (cases "show_nat n"; cases k) auto
  then have "hd (show_positive p q) \<in> digits"
    using h by (auto simp: show_positive_def d Let_def digits_def)
  then show ?thesis using show_positive_nonempty by (auto simp: digits_def)
qed

text \<open>The value read is the printed one rounded to \<open>p\<close> significant digits.\<close>

definition round_digits :: "nat \<Rightarrow> rat \<Rightarrow> rat" where
  "round_digits p q = (if q = 0 then 0 else
     let u = 10 powi (ilog10 \<bar>q\<bar> + 1 - int p) in of_int (rne (\<bar>q\<bar> / u)) * u * sgn q)"

lemma round_digits_pos:
  assumes "0 < q" and "0 < p"
  shows "read_positive (show_positive p q) = round_digits p q \<and>
    \<bar>round_digits p q - q\<bar> \<le> 1 / 2 * 10 powi (ilog10 q + 1 - int p) \<and>
    10 powi ilog10 q \<le> round_digits p q \<and> round_digits p q \<le> 10 powi (ilog10 q + 1)"
proof -
  obtain n e where d: "sci_digits p q = (n, e)" by fastforce
  note spec = sci_digits_spec [OF assms d]
  have "q * 10 powi (int p - 1 - ilog10 q) = q / 10 powi (ilog10 q + 1 - int p)"
    by (metis (no_types, opaque_lifting) divide_inverse power_int_minus minus_diff_eq diff_diff_eq2 add.commute diff_diff_eq)
  then have r: "round_digits p q = of_nat n * 10 powi (e + 1 - int p)" using spec assms(1) by (simp add: round_digits_def Let_def)
  let ?x = "q * 10 powi (int p - 1 - ilog10 q)" and ?u = "(10::rat) powi (ilog10 q + 1 - int p)"
  have q: "10 powi ilog10 q \<le> q" "q < 10 powi (ilog10 q + 1)" using ilog10_bounds [OF assms(1)] by auto
  have "10 powi ilog10 q * 10 powi (int p - 1 - ilog10 q) \<le> ?x" "?x \<le> 10 powi (ilog10 q + 1) * 10 powi (int p - 1 - ilog10 q)"
    using q by (auto intro!: mult_right_mono less_imp_le)
  then have "10 powi int (p - 1) \<le> ?x" "?x \<le> 10 powi int p" using assms(2) by (simp_all add: powi10_add of_nat_diff)
  then have "(10::int) ^ (p - 1) \<le> rne ?x" "rne ?x \<le> (10::int) ^ p" by (auto intro!: rne_ge rne_le)
  then have "of_int (10 ^ (p - 1)) \<le> rat_of_int (rne ?x)" "rat_of_int (rne ?x) \<le> of_int (10 ^ p)" by (simp_all only: of_int_le_iff)
  then have "10 powi int (p - 1) * ?u \<le> of_int (rne ?x) * ?u" "of_int (rne ?x) * ?u \<le> 10 powi int p * ?u"
    by (auto intro!: mult_right_mono less_imp_le)
  moreover have "10 powi int (p - 1) * ?u = 10 powi ilog10 q" "10 powi int p * ?u = 10 powi (ilog10 q + 1)"
    using assms(2) by (simp_all only: powi10_add) (simp_all add: of_nat_diff)
  ultimately have b: "10 powi ilog10 q \<le> of_int (rne ?x) * ?u" "of_int (rne ?x) * ?u \<le> 10 powi (ilog10 q + 1)" by (simp_all only:)
  have eq: "of_nat n * 10 powi (e + 1 - int p) = of_int (rne ?x) * ?u" using spec by blast
  show ?thesis using read_show_positive [OF assms d] spec b unfolding r eq by blast
qed

lemma round_digits_minus: "round_digits p (- q) = - round_digits p q"
  by (simp add: round_digits_def Let_def sgn_minus)

lemma round_digits_mono_pos:
  assumes "0 < q" and "q \<le> r" and "0 < p"
  shows "round_digits p q \<le> round_digits p r"
proof (cases "ilog10 q = ilog10 r")
  case True
  have "q / 10 powi (ilog10 r + 1 - int p) \<le> r / 10 powi (ilog10 r + 1 - int p)" using assms(2) by (simp add: divide_right_mono less_imp_le)
  then show ?thesis
    using assms True by (simp add: round_digits_def Let_def rne_mono mult_right_mono less_imp_le)
next
  case False
  have "0 < r" using assms by simp
  have "10 powi ilog10 q \<le> q" "r < 10 powi (ilog10 r + 1)" using ilog10_bounds assms(1) \<open>0 < r\<close> by auto
  then have "(10::rat) powi ilog10 q < 10 powi (ilog10 r + 1)" using assms(2) by linarith
  then have "ilog10 q < ilog10 r + 1" by (simp only: powi10_less_iff)
  then have "(10::rat) powi (ilog10 q + 1) \<le> 10 powi ilog10 r" using False by (intro power_int_increasing) auto
  then show ?thesis
    using round_digits_pos [OF assms(1,3)] round_digits_pos [OF \<open>0 < r\<close> assms(3)] by linarith
qed

lemma round_digits_nonneg: "0 \<le> q \<Longrightarrow> 0 < p \<Longrightarrow> 0 \<le> round_digits p q"
proof (cases "q = 0")
  case False
  assume "0 \<le> q" "0 < p"
  then have "10 powi ilog10 q \<le> round_digits p q" using False round_digits_pos [of q p] by simp
  then show ?thesis by (meson less_imp_le order_trans powi10_pos)
qed (simp add: round_digits_def)

lemma round_digits_mono:
  assumes "q \<le> r" and "0 < p"
  shows "round_digits p q \<le> round_digits p r"
proof -
  consider "0 < q" | "q \<le> 0" "0 \<le> r" | "r < 0" by linarith
  then show ?thesis
  proof cases
    case 1
    then show ?thesis using assms by (intro round_digits_mono_pos)
  next
    case 2
    then have "0 \<le> round_digits p (- q)" "0 \<le> round_digits p r" using assms(2) by (auto intro: round_digits_nonneg)
    then show ?thesis by (simp add: round_digits_minus)
  next
    case 3
    then have "round_digits p (- r) \<le> round_digits p (- q)" using assms by (intro round_digits_mono_pos) auto
    then show ?thesis by (simp add: round_digits_minus)
  qed
qed

lemma round_digits_exact:
  assumes "q = of_int m * 10 powi k" and "\<bar>m\<bar> < 10 ^ p" and "0 < p"
  shows "round_digits p q = q"
proof (cases "q = 0")
  case False
  define e where "e = ilog10 \<bar>q\<bar>"
  have abs: "\<bar>q\<bar> = of_int \<bar>m\<bar> * 10 powi k" using assms(1) by (simp add: abs_mult less_imp_le)
  have "rat_of_int \<bar>m\<bar> < of_int (10 ^ p)" using assms(2) by (simp only: of_int_less_iff)
  then have "\<bar>q\<bar> < 10 powi int p * 10 powi k" unfolding abs by (simp add: mult_strict_right_mono)
  moreover have "10 powi e \<le> \<bar>q\<bar>" using ilog10_bounds [of "\<bar>q\<bar>"] False by (simp add: e_def)
  ultimately have "10 powi e < 10 powi int p * (10::rat) powi k" by linarith
  then have "(10::rat) powi e < 10 powi (int p + k)" by (simp only: powi10_add)
  then have "e < int p + k" by (simp only: powi10_less_iff)
  then have le: "e + 1 - int p \<le> k" by linarith
  define j where "j = nat (k - (e + 1 - int p))"
  let ?u = "(10::rat) powi (e + 1 - int p)"
  have "10 powi k = 10 powi int j * ?u" using le by (simp only: powi10_add) (simp add: j_def)
  then have q: "\<bar>q\<bar> = of_int (\<bar>m\<bar> * 10 ^ j) * ?u" unfolding abs by simp
  have "?u \<noteq> 0" by (metis less_irrefl powi10_pos)
  then have "\<bar>q\<bar> / ?u = of_int (\<bar>m\<bar> * 10 ^ j)" unfolding q by (rule nonzero_mult_div_cancel_right)
  then have "round_digits p q = of_int (\<bar>m\<bar> * 10 ^ j) * ?u * sgn q"
    using False unfolding round_digits_def Let_def e_def [symmetric] by (simp only: if_False rne_of_int)
  also have "\<dots> = \<bar>q\<bar> * sgn q" by (simp only: q)
  finally show ?thesis by (simp add: abs_mult_sgn)
qed (simp add: round_digits_def)

lemma round_digits_error:
  assumes "0 < p"
  shows "\<bar>round_digits p q - q\<bar> \<le> \<bar>q\<bar> * (1 / 2 * 10 powi (1 - int p))"
proof -
  have pos: "\<bar>round_digits p r - r\<bar> \<le> r * (1 / 2 * 10 powi (1 - int p))" if "0 < r" for r
  proof -
    have "\<bar>round_digits p r - r\<bar> \<le> 1 / 2 * 10 powi (ilog10 r + 1 - int p)" using round_digits_pos [OF that assms] by blast
    also have "\<dots> = 10 powi ilog10 r * (1 / 2 * 10 powi (1 - int p))"
      by (simp add: mult.assoc [symmetric] mult.commute [of _ "1 / 2"]) (simp add: powi10_add algebra_simps)
    also have "\<dots> \<le> r * (1 / 2 * 10 powi (1 - int p))" using ilog10_bounds [OF that] by (intro mult_right_mono) (simp_all add: less_imp_le)
    finally show ?thesis .
  qed
  consider "0 < q" | "q = 0" | "0 < - q" by linarith
  then show ?thesis
  proof cases
    case 1
    then show ?thesis using pos [OF 1] by simp
  next
    case 2
    then show ?thesis by (simp add: round_digits_def)
  next
    case 3
    then show ?thesis using pos [OF 3] by (simp add: round_digits_minus)
  qed
qed

lemma read_decimal_plain: "s = [] \<or> hd s \<noteq> CHR ''-'' \<Longrightarrow> read_decimal s = read_positive s"
  by (cases s) (auto simp: read_decimal_def split: char.splits bool.splits)

lemma read_show_double:
  assumes "0 < p"
  shows "read_decimal (show_double p (Fin q)) = round_digits p q"
proof -
  consider "0 < q" | "q = 0" | "q < 0" by linarith
  then show ?thesis
  proof cases
    case 1
    then show ?thesis
      using assms show_positive_no_sign [OF assms, of q] round_digits_pos [OF 1 assms] by (simp add: show_double_def read_decimal_plain)
  next
    case 2
    then show ?thesis using assms by (simp add: show_double_def round_digits_def) code_simp
  next
    case 3
    then have "read_decimal (show_double p (Fin q)) = - read_positive (show_positive p (- q))"
      using assms by (simp add: show_double_def read_decimal_def)
    then show ?thesis using 3 round_digits_pos [of "- q" p] assms by (simp add: round_digits_minus)
  qed
qed

lemma read_value_text: "read_decimal (value_text (Fin q)) = round_digits 16 q"
  by (simp add: value_text_def read_show_double)

subsection \<open>Properties\<close>

text \<open>C28: What the text of an exposition tells of a finite value: the number written is within half
  a unit of the sixteenth significant digit of the value, a relative error of at most 5e-16; a
  value with at most 16 significant decimal digits is written exactly; and the numbers written
  are in the order of the values, so the bounds of buckets and the cumulative values of counters
  never appear out of order.\<close>

theorem value_text_accuracy:
  assumes "classic out"
  shows "\<exists>s t. WriteValue_double (Fin q) out = puts s out \<and> WriteValue_double (Fin r) out = puts t out \<and>
    \<bar>read_decimal s - q\<bar> \<le> \<bar>q\<bar> * (5 / 10 ^ 16) \<and>
    (q = of_int m * 10 powi k \<and> \<bar>m\<bar> < 10 ^ 16 \<longrightarrow> read_decimal s = q) \<and>
    (q \<le> r \<longrightarrow> read_decimal s \<le> read_decimal t)"
proof -
  have "1 / 2 * 10 powi (1 - int 16) = (5 / 10 ^ 16 :: rat)" by (simp add: power_int_def power_one_over)
  then have "\<bar>read_decimal (value_text (Fin q)) - q\<bar> \<le> \<bar>q\<bar> * (5 / 10 ^ 16)"
    using round_digits_error [of 16 q] by (simp only: read_value_text)
  moreover have "q = of_int m * 10 powi k \<and> \<bar>m\<bar> < 10 ^ 16 \<longrightarrow> read_decimal (value_text (Fin q)) = q"
    using round_digits_exact [of q m k 16] by (simp add: read_value_text)
  moreover have "q \<le> r \<longrightarrow> read_decimal (value_text (Fin q)) \<le> read_decimal (value_text (Fin r))"
    using round_digits_mono [of q r 16] by (simp add: read_value_text)
  ultimately show ?thesis using WriteValue_double_classic [OF assms] by blast
qed

theorem value_text_accuracy_witness:
  "\<exists>s. WriteValue_double (Fin (25 / 10)) \<lparr>os_text = '''', os_locale = classic_locale, os_precision = 16\<rparr> =
     \<lparr>os_text = s, os_locale = classic_locale, os_precision = 16\<rparr> \<and> read_decimal s = 25 / 10"
proof -
  let ?out = "\<lparr>os_text = '''', os_locale = classic_locale, os_precision = 16\<rparr>"
  have "classic ?out" by (simp add: classic_def text_precision_def)
  then obtain s where "WriteValue_double (Fin (25 / 10)) ?out = puts s ?out"
    "25 / 10 = of_int 25 * (10::rat) powi (- 1) \<and> \<bar>25 :: int\<bar> < 10 ^ 16 \<longrightarrow> read_decimal s = 25 / 10"
    using value_text_accuracy [of ?out "25 / 10" 0 25 "- 1"] by blast
  then show ?thesis by (simp add: puts_def power_int_def)
qed

end
