(* ===== verification/HistogramConcurrent.thy ===== *)
theory HistogramConcurrent
  imports Guarded Histogram
begin

text \<open>
  Concurrent calls on one histogram, statement by statement. \<open>Observe\<close> writes twice, the sum and
  a bucket, and \<open>Collect\<close> reads bucket after bucket: only the mutex makes a scrape see a count and
  a sum that belong together. The model of \<open>Histogram\<close> takes each call as one function; here this
  is justified, by the statements of the functions of \<open>histogram.cc\<close> under their \<open>lock_guard\<close>.
\<close>

subsection \<open>The statements\<close>

datatype hist_call = Call_Observe double | Call_ObserveMultiple "double list" double | Call_Reset | Call_Collect

datatype hist_answer = Returned | Thrown cpp_exception | Metric "client_metric option"

text \<open>The local variables: the running count of \<open>Collect\<close>, missing after undefined behaviour, the
  buckets built so far, and what the call returns.\<close>

record hist_local =
  hl_cumulative :: "u64 option"
  hl_buckets :: "client_bucket list"
  hl_answer :: hist_answer

definition hist_init :: hist_local where
  "hist_init = \<lparr>hl_cumulative = Some 0, hl_buckets = [], hl_answer = Returned\<rparr>"

type_synonym hist_statement = "histogram \<times> hist_local \<Rightarrow> histogram \<times> hist_local"

definition add_to_sum :: "double \<Rightarrow> hist_statement" where
  "add_to_sum v = apfst (\<lambda>h. h\<lparr>hist_sum := Gauge_Increment_by v (hist_sum h)\<rparr>)"

definition change_bucket :: "(counter \<Rightarrow> counter) \<Rightarrow> nat \<Rightarrow> hist_statement" where
  "change_bucket f i = apfst (\<lambda>h. h\<lparr>bucket_counts := (bucket_counts h)[i := f (bucket_counts h ! i)]\<rparr>)"

definition clear_sum :: hist_statement where
  "clear_sum = apfst (\<lambda>h. h\<lparr>hist_sum := Gauge_Set (Fin 0) (hist_sum h)\<rparr>)"

text \<open>One round of the loop of \<open>Collect\<close>.\<close>

definition read_bucket :: "nat \<Rightarrow> hist_statement" where
  "read_bucket i = (\<lambda>(h, l).
     (h, case hl_cumulative l of
           None \<Rightarrow> l
         | Some cumulative \<Rightarrow>
             (case double_to_u64 (dadd (dint (uint cumulative)) (Counter_Value (bucket_counts h ! i))) of
                None \<Rightarrow> l\<lparr>hl_cumulative := None\<rparr>
              | Some cumulative' \<Rightarrow>
                  l\<lparr>hl_cumulative := Some cumulative',
                    hl_buckets := hl_buckets l @ [\<lparr>cumulative_count = cumulative',
                      upper_bound = (if i = length (bucket_boundaries h) then PInf else bucket_boundaries h ! i)\<rparr>]\<rparr>)))"

definition read_sum :: hist_statement where
  "read_sum = (\<lambda>(h, l).
     (h, l\<lparr>hl_answer := Metric (map_option (\<lambda>final.
        empty_client_metric\<lparr>metric_histogram :=
          \<lparr>histogram_sample_count = final, histogram_sample_sum = Gauge_Value (hist_sum h),
           histogram_bucket = hl_buckets l\<rparr>\<rparr>) (hl_cumulative l))\<rparr>))"

text \<open>The functions. The boundaries \<open>bounds\<close> never change, so their number and that of the buckets
  are read without the mutex: by the search of \<open>Observe\<close> and the check of \<open>ObserveMultiple\<close>.\<close>

fun hist_code :: "double list \<Rightarrow> hist_call \<Rightarrow> hist_local + hist_statement list" where
  "hist_code bounds (Call_Observe value) =
     (let i = bucket_index bounds value in Inr [add_to_sum value, change_bucket Counter_Increment i])"
| "hist_code bounds (Call_ObserveMultiple incs sum_of_values) =
     (if length incs \<noteq> length bounds + 1
      then Inl (hist_init\<lparr>hl_answer := Thrown (length_error
        ''The size of bucket_increments was not equal tothe number of buckets in the histogram.'')\<rparr>)
      else Inr (add_to_sum sum_of_values # map (\<lambda>i. change_bucket (Counter_Increment_by (incs ! i)) i) [0..<length bounds + 1]))"
| "hist_code bounds Call_Reset = Inr (map (change_bucket Counter_Reset) [0..<length bounds + 1] @ [clear_sum])"
| "hist_code bounds Call_Collect = Inr (map read_bucket [0..<length bounds + 1] @ [read_sum])"

text \<open>The operations of the sequential model.\<close>

fun hist_spec :: "hist_call \<Rightarrow> histogram \<Rightarrow> histogram \<times> hist_answer" where
  "hist_spec (Call_Observe value) h = (Histogram_Observe value h, Returned)"
| "hist_spec (Call_ObserveMultiple incs s) h =
     (case Histogram_ObserveMultiple incs s h of Inl e \<Rightarrow> (h, Thrown e) | Inr h' \<Rightarrow> (h', Returned))"
| "hist_spec Call_Reset h = (Histogram_Reset h, Returned)"
| "hist_spec Call_Collect h = (h, Metric (Histogram_Collect h))"

definition hist_shape :: "double list \<Rightarrow> histogram \<Rightarrow> bool" where
  "hist_shape bounds h \<longleftrightarrow> bucket_boundaries h = bounds \<and> length (bucket_counts h) = length bounds + 1"

subsection \<open>The statements do what the operations do\<close>

text \<open>A loop over the first \<open>k\<close> buckets.\<close>

lemma change_buckets:
  "k \<le> length (bucket_counts h) \<Longrightarrow> run_statements (map (\<lambda>i. change_bucket (f i) i) [0..<k]) (h, l) =
     (h\<lparr>bucket_counts := map (\<lambda>i. f i (bucket_counts h ! i)) [0..<k] @ drop k (bucket_counts h)\<rparr>, l)"
proof (induction k)
  case (Suc k)
  let ?cs = "map (\<lambda>i. f i (bucket_counts h ! i)) [0..<k] @ drop k (bucket_counts h)"
  have k: "k < length (bucket_counts h)" using Suc.prems by simp
  then have "?cs ! k = bucket_counts h ! k" "length (map (\<lambda>i. f i (bucket_counts h ! i)) [0..<k]) = k" by (simp_all add: nth_append)
  moreover have "drop k (bucket_counts h) = bucket_counts h ! k # drop (Suc k) (bucket_counts h)" using k by (simp add: Cons_nth_drop_Suc)
  ultimately have "?cs[k := f k (?cs ! k)] = map (\<lambda>i. f i (bucket_counts h ! i)) [0..<Suc k] @ drop (Suc k) (bucket_counts h)"
    by (simp add: list_update_append)
  then show ?case using Suc by (simp add: change_bucket_def)
qed simp

lemma change_all_buckets:
  "length (bucket_counts h) = n \<Longrightarrow> run_statements (map (\<lambda>i. change_bucket (f i) i) [0..<n]) (h, l) =
     (h\<lparr>bucket_counts := map (\<lambda>i. f i (bucket_counts h ! i)) [0..<n]\<rparr>, l)"
  by (subst change_buckets) auto

lemma read_after_undefined: "hl_cumulative l = None \<Longrightarrow> run_statements (map read_bucket is) (h, l) = (h, l)"
  by (induction "is") (simp_all add: read_bucket_def)

lemma read_buckets:
  assumes "bucket_boundaries h = bounds"
  shows "bucket_counts h = done @ cs \<Longrightarrow> hl_cumulative l = Some cumulative \<Longrightarrow>
    (let l' = snd (run_statements (map read_bucket [length done..<length (bucket_counts h)]) (h, l)) in
     fst (run_statements (map read_bucket [length done..<length (bucket_counts h)]) (h, l)) = h \<and>
     (case collect_buckets bounds (length done) cumulative cs of
        None \<Rightarrow> hl_cumulative l' = None
      | Some (bs, final) \<Rightarrow> l' = l\<lparr>hl_cumulative := Some final, hl_buckets := hl_buckets l @ bs\<rparr>))"
proof (induction cs arbitrary: "done" l cumulative)
  case Nil
  then show ?case by simp
next
  case (Cons c cs)
  let ?n = "length done"
  have range: "[?n..<length (bucket_counts h)] = ?n # [Suc ?n..<length (bucket_counts h)]"
    by (rule upt_conv_Cons) (simp add: Cons.prems(1))
  have c: "bucket_counts h ! ?n = c" using Cons.prems(1) by simp
  show ?case
  proof (cases "double_to_u64 (dadd (dint (uint cumulative)) (Counter_Value c))")
    case None
    then have "read_bucket ?n (h, l) = (h, l\<lparr>hl_cumulative := None\<rparr>)"
      using Cons.prems(2) c by (simp add: read_bucket_def)
    then show ?thesis using None by (simp add: range read_after_undefined)
  next
    case (Some final)
    define b where "b = \<lparr>cumulative_count = final, upper_bound = (if ?n = length bounds then PInf else bounds ! ?n)\<rparr>"
    let ?l = "l\<lparr>hl_cumulative := Some final, hl_buckets := hl_buckets l @ [b]\<rparr>"
    have step: "read_bucket ?n (h, l) = (h, ?l)"
      using Some Cons.prems(2) c assms by (simp add: read_bucket_def b_def)
    have code: "collect_buckets bounds ?n cumulative (c # cs) =
        (case collect_buckets bounds (Suc ?n) final cs of None \<Rightarrow> None | Some (bs, k) \<Rightarrow> Some (b # bs, k))"
      using Some by (simp add: b_def split: option.split)
    have "bucket_counts h = (done @ [c]) @ cs" using Cons.prems(1) by simp
    from Cons.IH [OF this, of ?l final] show ?thesis
      unfolding code by (auto simp: range step Let_def split: option.splits prod.splits)
  qed
qed

lemma collect_statements:
  assumes "hist_shape bounds h"
  shows "run_statements (map read_bucket [0..<length bounds + 1] @ [read_sum]) (h, hist_init) =
    (h, snd (run_statements (map read_bucket [0..<length bounds + 1] @ [read_sum]) (h, hist_init))) \<and>
    hl_answer (snd (run_statements (map read_bucket [0..<length bounds + 1] @ [read_sum]) (h, hist_init))) = Metric (Histogram_Collect h)"
proof -
  let ?r = "run_statements (map read_bucket [0..<length bounds + 1]) (h, hist_init)"
  have b: "bucket_boundaries h = bounds" "length (bucket_counts h) = length bounds + 1" using assms by (simp_all add: hist_shape_def)
  have "hl_cumulative hist_init = Some 0" by (simp add: hist_init_def)
  from read_buckets [OF b(1), of "[]" "bucket_counts h", OF _ this]
  have r: "fst ?r = h" "case collect_buckets bounds 0 0 (bucket_counts h) of
        None \<Rightarrow> hl_cumulative (snd ?r) = None
      | Some (bs, final) \<Rightarrow> snd ?r = hist_init\<lparr>hl_cumulative := Some final, hl_buckets := hl_buckets hist_init @ bs\<rparr>"
    by (simp_all only: b(2) Let_def list.size(3) append_Nil simp_thms)
  obtain l where l: "?r = (h, l)" using r(1) by (cases ?r) simp
  show ?thesis
    using r(2) b(1) unfolding run_statements_simps l by (auto simp: read_sum_def Histogram_Collect_def hist_init_def split: option.splits)
qed

lemma observe_statements:
  assumes "hist_shape bounds h"
  shows "run_statements [add_to_sum v, change_bucket Counter_Increment (bucket_index bounds v)] (h, l) = (Histogram_Observe v h, l)"
  using assms by (simp add: hist_shape_def add_to_sum_def change_bucket_def Histogram_Observe_def Let_def)

lemma observe_multiple_statements:
  assumes "hist_shape bounds h" and "length incs = length bounds + 1"
  shows "Histogram_ObserveMultiple incs s h = Inr (fst (run_statements
      (add_to_sum s # map (\<lambda>i. change_bucket (Counter_Increment_by (incs ! i)) i) [0..<length bounds + 1]) (h, l)))"
    and "snd (run_statements
      (add_to_sum s # map (\<lambda>i. change_bucket (Counter_Increment_by (incs ! i)) i) [0..<length bounds + 1]) (h, l)) = l"
proof -
  have n: "length (bucket_counts h) = length bounds + 1" using assms(1) by (simp add: hist_shape_def)
  let ?h = "h\<lparr>hist_sum := Gauge_Increment_by s (hist_sum h)\<rparr>"
  have m: "map2 Counter_Increment_by incs (bucket_counts h) = map (\<lambda>i. Counter_Increment_by (incs ! i) (bucket_counts h ! i)) [0..<length bounds + 1]"
    using assms(2) n by (intro nth_equalityI) (simp_all del: upt_Suc)
  have "add_to_sum s (h, l) = (?h, l)" by (simp add: add_to_sum_def)
  moreover have c: "bucket_counts ?h = bucket_counts h" by simp
  moreover have "length (bucket_counts ?h) = length bounds + 1" using n by simp
  note change_all_buckets [OF this, of "\<lambda>i. Counter_Increment_by (incs ! i)" l]
  ultimately have r: "run_statements
      (add_to_sum s # map (\<lambda>i. change_bucket (Counter_Increment_by (incs ! i)) i) [0..<length bounds + 1]) (h, l) =
      (?h\<lparr>bucket_counts := map2 Counter_Increment_by incs (bucket_counts h)\<rparr>, l)"
    by (simp only: run_statements_simps m c)
  show "Histogram_ObserveMultiple incs s h = Inr (fst (run_statements
      (add_to_sum s # map (\<lambda>i. change_bucket (Counter_Increment_by (incs ! i)) i) [0..<length bounds + 1]) (h, l)))"
    unfolding r Histogram_ObserveMultiple_def Let_def by (simp only: assms(2) n c simp_thms if_False fst_conv)
  show "snd (run_statements
      (add_to_sum s # map (\<lambda>i. change_bucket (Counter_Increment_by (incs ! i)) i) [0..<length bounds + 1]) (h, l)) = l"
    unfolding r by (rule snd_conv)
qed

lemma reset_statements:
  assumes "hist_shape bounds h"
  shows "run_statements (map (change_bucket Counter_Reset) [0..<length bounds + 1] @ [clear_sum]) (h, l) = (Histogram_Reset h, l)"
proof -
  have n: "length (bucket_counts h) = length bounds + 1" using assms by (simp add: hist_shape_def)
  have "map (\<lambda>i. Counter_Reset (bucket_counts h ! i)) [0..<length (bucket_counts h)] = map Counter_Reset (bucket_counts h)"
    by (rule nth_equalityI) simp_all
  then have "run_statements (map (change_bucket Counter_Reset) [0..<length bounds + 1]) (h, l) =
      (h\<lparr>bucket_counts := map Counter_Reset (bucket_counts h)\<rparr>, l)"
    using change_all_buckets [OF n, of "\<lambda>i. Counter_Reset" l] by (simp only: n)
  then show ?thesis
    by (simp only: run_statements_simps) (simp add: clear_sum_def Histogram_Reset_def)
qed

lemma hist_shape_kept:
  assumes "hist_shape bounds h"
  shows "hist_shape bounds (Histogram_Observe v h)" and "hist_shape bounds (Histogram_Reset h)"
    and "Histogram_ObserveMultiple incs s h = Inr h' \<Longrightarrow> hist_shape bounds h'"
proof -
  have n: "bucket_boundaries h = bounds" "length (bucket_counts h) = length bounds + 1" using assms by (simp_all add: hist_shape_def)
  show "hist_shape bounds (Histogram_Observe v h)" and "hist_shape bounds (Histogram_Reset h)"
    using n by (simp_all add: hist_shape_def Histogram_Observe_def Histogram_Reset_def Let_def)
  assume "Histogram_ObserveMultiple incs s h = Inr h'"
  then have "length incs = length (bucket_counts h)" and
    "h' = h\<lparr>hist_sum := Gauge_Increment_by s (hist_sum h), bucket_counts := map2 Counter_Increment_by incs (bucket_counts h)\<rparr>"
    unfolding Histogram_ObserveMultiple_def Let_def by (cases "length incs = length (bucket_counts h)"; simp)+
  then show "hist_shape bounds h'" using n by (simp add: hist_shape_def)
qed

lemma hist_run_spec:
  assumes shape: "hist_shape bounds h" and code: "hist_code bounds c = Inr ms"
  shows "hist_spec c h = apsnd hl_answer (run_statements ms (h, hist_init)) \<and> hist_shape bounds (fst (hist_spec c h))"
proof -
  have returned: "hl_answer hist_init = Returned" by (simp add: hist_init_def)
  show ?thesis
  proof (cases c)
    case (Call_Observe v)
    then have ms: "ms = [add_to_sum v, change_bucket Counter_Increment (bucket_index bounds v)]"
      using code by (simp only: hist_code.simps Let_def sum.inject)
    show ?thesis
      unfolding Call_Observe ms hist_spec.simps observe_statements [OF shape] apsnd_conv returned fst_conv
      using hist_shape_kept(1) [OF shape] by simp
  next
    case (Call_ObserveMultiple incs s)
    then have len: "length incs = length bounds + 1" and
      ms: "ms = add_to_sum s # map (\<lambda>i. change_bucket (Counter_Increment_by (incs ! i)) i) [0..<length bounds + 1]"
      using code by (simp_all only: hist_code.simps sum.inject sum.distinct if_split_eq1) (simp_all only: simp_thms split: if_splits)
    note run = observe_multiple_statements [OF shape len, of s hist_init, folded ms]
    have "hist_spec c h = (fst (run_statements ms (h, hist_init)), Returned)"
      unfolding Call_ObserveMultiple hist_spec.simps run(1) sum.case ..
    moreover have "hist_shape bounds (fst (run_statements ms (h, hist_init)))"
      by (rule hist_shape_kept(3) [OF shape run(1)])
    ultimately show ?thesis using run(2) returned by (simp add: prod_eq_iff)
  next
    case Call_Reset
    then have ms: "ms = map (change_bucket Counter_Reset) [0..<length bounds + 1] @ [clear_sum]"
      using code by (simp only: hist_code.simps sum.inject)
    show ?thesis
      unfolding Call_Reset ms hist_spec.simps reset_statements [OF shape] apsnd_conv returned fst_conv
      using hist_shape_kept(2) [OF shape] by simp
  next
    case Call_Collect
    then have ms: "ms = map read_bucket [0..<length bounds + 1] @ [read_sum]"
      using code by (simp only: hist_code.simps sum.inject)
    show ?thesis
      using collect_statements [OF shape, folded ms] shape unfolding Call_Collect hist_spec.simps fst_conv
      by (metis apsnd_conv)
  qed
qed

lemma hist_early_spec:
  assumes "hist_shape bounds h" and "hist_code bounds c = Inl l"
  shows "hist_spec c h = (h, hl_answer l)"
proof (cases c)
  case (Call_ObserveMultiple incs s)
  have b: "length (bucket_counts h) = length bounds + 1" using assms(1) by (simp add: hist_shape_def)
  have "length incs \<noteq> length bounds + 1"
    using assms(2) unfolding Call_ObserveMultiple hist_code.simps by (cases "length incs = length bounds + 1") simp_all
  moreover from this have l: "l = hist_init\<lparr>hl_answer := Thrown (length_error
        ''The size of bucket_increments was not equal tothe number of buckets in the histogram.'')\<rparr>"
    using assms(2) unfolding Call_ObserveMultiple hist_code.simps by simp
  ultimately show ?thesis
    unfolding Call_ObserveMultiple l hist_spec.simps Histogram_ObserveMultiple_def by (simp add: b)
next
  case (Call_Observe v)
  then show ?thesis using assms(2) by (simp only: hist_code.simps Let_def sum.distinct)
next
  case Call_Reset
  then show ?thesis using assms(2) by (simp only: hist_code.simps sum.distinct)
next
  case Call_Collect
  then show ?thesis using assms(2) by (simp only: hist_code.simps sum.distinct)
qed

interpretation hists: guarded_object "hist_code bounds" hist_init hist_spec hl_answer "hist_shape bounds" for bounds :: "double list"
  by (unfold_locales; (rule hist_early_spec | rule hist_run_spec); assumption)

subsection \<open>Calls in one order\<close>

lemma hist_shape_new: "Histogram_new bounds = Inr h \<Longrightarrow> hist_shape bounds h"
  using hist_rel_new [of bounds h] by (simp add: hist_shape_def hist_rel_def)

text \<open>C7: any number of threads that call \<open>Observe\<close>, \<open>ObserveMultiple\<close>, \<open>Reset\<close> and \<open>Collect\<close>
  on one histogram, their statements interleaved in any way the mutex allows: every thread makes
  its calls in its program order, the calls that are over can be made one after the other by the
  operations of the sequential model with the same answers (what a scrape reports and what is thrown
  included), which gives the histogram as it is whenever the mutex is free, no two threads
  are ever inside, and when the threads are finitely many no schedule goes on forever or stops
  before every call has returned.\<close>

theorem histogram_linearizable:
  assumes "Histogram_new bounds = Inr h0"
    and "(guarded_step (hist_code bounds) hist_init)\<^sup>*\<^sup>* (guarded_start h0 prog) st"
  shows "(\<forall>i. made_by i (g_done st) @ in_section (g_phase st i) @ g_calls st i = prog i) \<and>
    (\<exists>h. replays hist_spec h0 (answers_of hl_answer (g_done st)) h \<and> (\<not> g_locked st \<longrightarrow> g_object st = h)) \<and>
    (\<forall>i j. g_phase st i \<noteq> Outside \<and> g_phase st j \<noteq> Outside \<longrightarrow> i = j) \<and>
    (\<forall>threads. (\<forall>i\<ge>threads. prog i = []) \<longrightarrow> surely_return (hist_code bounds) hist_init threads st)"
  using hists.linearizable [OF assms(2) hist_shape_new [OF assms(1)]] hists.returns [OF assms(2) hist_shape_new [OF assms(1)]]
  by blast

subsection \<open>What a scrape sees\<close>

definition observed :: "(nat \<times> hist_call \<times> 'r) list \<Rightarrow> double list" where
  "observed calls = concat (map (\<lambda>(i, c, r). case c of Call_Observe v \<Rightarrow> [v] | _ \<Rightarrow> []) calls)"

lemma observed_simps [simp]:
  "observed [] = []" "observed (p # calls) = (case fst (snd p) of Call_Observe v \<Rightarrow> [v] | _ \<Rightarrow> []) @ observed calls"
  "observed (answers_of answer done) = observed done"
  by (simp_all add: observed_def answers_of_def o_def split_def)

definition observes_or_collects :: "hist_call \<Rightarrow> bool" where
  "observes_or_collects c \<longleftrightarrow> (case c of Call_Observe v \<Rightarrow> True | Call_Collect \<Rightarrow> True | _ \<Rightarrow> False)"

lemma replays_observed:
  "replays hist_spec h calls h' \<Longrightarrow> hist_rel bounds vs h \<Longrightarrow> length vs + length (observed calls) \<le> 2 ^ 53 \<Longrightarrow>
   \<forall>(i, c, r)\<in>set calls. observes_or_collects c \<Longrightarrow> hist_rel bounds (vs @ observed calls) h'"
proof (induction calls arbitrary: h vs)
  case (Cons p calls)
  obtain i c r where p: "p = (i, c, r)" by (cases p)
  have rest: "replays hist_spec (fst (hist_spec c h)) calls h'" "\<forall>(i, c, r)\<in>set calls. observes_or_collects c"
    and c: "observes_or_collects c" using Cons.prems p by auto
  show ?case
  proof (cases c)
    case (Call_Observe v)
    have "hist_rel bounds (vs @ [v]) (fst (hist_spec c h))"
      using Cons.prems(2,3) p Call_Observe hist_rel_Observe [of bounds vs h v] by simp
    from Cons.IH [OF rest(1) this _ rest(2)] show ?thesis using Cons.prems(3) p Call_Observe by simp
  next
    case Call_Collect
    then have "hist_rel bounds vs (fst (hist_spec c h))" using Cons.prems(2) by simp
    from Cons.IH [OF rest(1) this _ rest(2)] show ?thesis using Cons.prems(3) p Call_Collect by simp
  qed (use c in \<open>simp_all add: observes_or_collects_def\<close>)
qed simp

text \<open>C24: a scrape in the middle of any number of threads that observe and collect sees one moment of
  the histogram: its buckets, its count and its sum are those of exactly the observations that
  were over before it, in the order in which they ended; never a count without its sum, nor a
  bucket without the next.\<close>

theorem scrape_consistent:
  assumes "Histogram_new bounds = Inr h0"
    and "(guarded_step (hist_code bounds) hist_init)\<^sup>*\<^sup>* (guarded_start h0 prog) st"
    and "\<forall>i. \<forall>c\<in>set (prog i). observes_or_collects c"
    and "g_done st = before @ (i, Call_Collect, l) # after" and "length (observed before) \<le> 2 ^ 53"
  shows "hl_answer l = Metric (Some (empty_client_metric\<lparr>metric_histogram :=
    \<lparr>histogram_sample_count = of_nat (length (observed before)),
     histogram_sample_sum = foldl dadd (Fin 0) (observed before),
     histogram_bucket = map (\<lambda>j. \<lparr>cumulative_count = of_nat (below bounds (observed before) (Suc j)),
        upper_bound = (if j = length bounds then PInf else bounds ! j)\<rparr>) [0..<Suc (length bounds)]\<rparr>\<rparr>))"
proof -
  note lin = hists.linearizable [OF assms(2) hist_shape_new [OF assms(1)]]
  have "answers_of hl_answer (g_done st) =
      answers_of hl_answer before @ (i, Call_Collect, hl_answer l) # answers_of hl_answer after"
    by (simp add: assms(4) answers_of_def)
  then obtain h where h: "replays hist_spec h0 (answers_of hl_answer before) h" and
    answer: "snd (hist_spec Call_Collect h) = hl_answer l"
    using lin by (auto simp: replays_append simp del: hist_spec.simps)
  have "observes_or_collects c" if "(j, c, r) \<in> set before" for j c r
  proof -
    have "c \<in> set (made_by j (g_done st))" using that assms(4) by (intro made_by_in [of _ _ r]) simp
    then have "c \<in> set (prog j)" using lin by (metis Un_iff set_append)
    then show ?thesis using assms(3) by blast
  qed
  then have "\<forall>(j, c, r)\<in>set (answers_of hl_answer before). observes_or_collects c" by (auto simp: answers_of_def)
  from replays_observed [OF h hist_rel_new [OF assms(1)] _ this]
  have "hist_rel bounds (observed before) h" using assms(5) by simp
  from Histogram_Collect_counts [OF this assms(5)] answer show ?thesis by simp
qed

text \<open>Thread 0 observes, then thread 1 collects.\<close>

definition observe_then_collect :: "nat \<Rightarrow> hist_call list" where
  "observe_then_collect i = (if i = 0 then [Call_Observe (Fin 2)] else if i = 1 then [Call_Collect] else [])"

lemma observe_then_collect_run:
  assumes "hist_shape [] h0"
  shows "\<exists>st l. (guarded_step (hist_code []) hist_init)\<^sup>*\<^sup>* (guarded_start h0 observe_then_collect) st \<and>
    g_done st = [(0, Call_Observe (Fin 2), hist_init), (1, Call_Collect, l)]"
proof -
  from two_calls_in_turn [OF _ _ _ _ observe_statements [OF assms, of "Fin 2" hist_init],
      of observe_then_collect "Call_Observe (Fin 2)" Call_Collect "hist_code []" "map read_bucket [0..<length ([] :: double list) + 1] @ [read_sum]"]
  show ?thesis by (simp add: observe_then_collect_def Let_def)
qed

lemma histogram_linearizable_witness:
  "\<exists>h0 st l h. (guarded_step (hist_code []) hist_init)\<^sup>*\<^sup>* (guarded_start h0 observe_then_collect) st \<and>
    g_done st = [(0, Call_Observe (Fin 2), hist_init), (1, Call_Collect, l)] \<and>
    replays hist_spec h0 (answers_of hl_answer (g_done st)) h"
proof -
  obtain h0 where h0: "Histogram_new [] = Inr h0" by (simp add: Histogram_new_def Let_def)
  obtain st l where st: "(guarded_step (hist_code []) hist_init)\<^sup>*\<^sup>* (guarded_start h0 observe_then_collect) st"
    "g_done st = [(0, Call_Observe (Fin 2), hist_init), (1, Call_Collect, l)]"
    using observe_then_collect_run [OF hist_shape_new [OF h0]] by blast
  show ?thesis using histogram_linearizable [OF h0 st(1)] st by blast
qed

lemma scrape_consistent_witness:
  "\<exists>h0 st l. (guarded_step (hist_code []) hist_init)\<^sup>*\<^sup>* (guarded_start h0 observe_then_collect) st \<and>
    g_done st = [(0, Call_Observe (Fin 2), hist_init), (1, Call_Collect, l)] \<and>
    (\<exists>m. hl_answer l = Metric (Some m) \<and> histogram_sample_count (metric_histogram m) = 1 \<and>
       histogram_sample_sum (metric_histogram m) = dadd (Fin 0) (Fin 2))"
proof -
  obtain h0 where h0: "Histogram_new [] = Inr h0" by (simp add: Histogram_new_def Let_def)
  obtain st l where st: "(guarded_step (hist_code []) hist_init)\<^sup>*\<^sup>* (guarded_start h0 observe_then_collect) st"
    "g_done st = [(0, Call_Observe (Fin 2), hist_init), (1, Call_Collect, l)]"
    using observe_then_collect_run [OF hist_shape_new [OF h0]] by blast
  have calls: "\<forall>i. \<forall>c\<in>set (observe_then_collect i). observes_or_collects c"
    by (simp add: observe_then_collect_def observes_or_collects_def)
  have before: "g_done st = [(0, Call_Observe (Fin 2), hist_init)] @ (1, Call_Collect, l) # []" using st(2) by simp
  have len: "length (observed [(0::nat, Call_Observe (Fin 2), hist_init)]) \<le> 2 ^ 53" by simp
  from scrape_consistent [OF h0 st(1) calls before len]
  have "\<exists>m. hl_answer l = Metric (Some m) \<and> histogram_sample_count (metric_histogram m) = 1 \<and>
      histogram_sample_sum (metric_histogram m) = dadd (Fin 0) (Fin 2)" by simp
  with st show ?thesis by blast
qed

end
