(* ===== verification/SummaryConcurrent.thy ===== *)
theory SummaryConcurrent
  imports Guarded Summary
begin

text \<open>
  Concurrent calls on one summary, statement by statement. \<open>Observe\<close> writes the count, the sum and
  the estimators, \<open>Collect\<close> asks the estimators level by level and rotates them on the way; both read
  the steady clock while they hold the mutex. The readings are those of one clock: the \<open>k\<close>-th
  reading made at the summary is \<open>time k\<close>.
\<close>

subsection \<open>The statements\<close>

text \<open>The summary, missing after undefined behaviour, and how often the clock has been read.\<close>

record shared_summary =
  ss_summary :: "summary option"
  ss_reads :: nat

datatype summary_call = Observe_call double | Collect_call

datatype summary_answer = Observed | Reported "client_metric option"

record summary_local =
  sl_quantiles :: "client_quantile list"
  sl_answer :: summary_answer

definition summary_init :: summary_local where
  "summary_init = \<lparr>sl_quantiles = [], sl_answer = Observed\<rparr>"

type_synonym summary_statement = "shared_summary \<times> summary_local \<Rightarrow> shared_summary \<times> summary_local"

definition count_observation :: summary_statement where
  "count_observation = apfst (\<lambda>x. x\<lparr>ss_summary := map_option (\<lambda>s. s\<lparr>summary_count := summary_count s + 1\<rparr>) (ss_summary x)\<rparr>)"

definition sum_observation :: "double \<Rightarrow> summary_statement" where
  "sum_observation value = apfst (\<lambda>x. x\<lparr>ss_summary := map_option (\<lambda>s. s\<lparr>summary_sum := dadd (summary_sum s) value\<rparr>) (ss_summary x)\<rparr>)"

definition insert_observation :: "(nat \<Rightarrow> int) \<Rightarrow> double \<Rightarrow> summary_statement" where
  "insert_observation time value = apfst (\<lambda>x.
     \<lparr>ss_summary = do {
        s \<leftarrow> ss_summary x;
        w \<leftarrow> TimeWindow_insert (summary_quantiles s) (time (ss_reads x)) value (quantile_values s);
        Some (s\<lparr>quantile_values := w\<rparr>)
      },
      ss_reads = ss_reads x + 1\<rparr>)"

text \<open>One round of the loop of \<open>Collect\<close>.\<close>

definition read_quantile :: "(nat \<Rightarrow> int) \<Rightarrow> quantile \<Rightarrow> summary_statement" where
  "read_quantile time q = (\<lambda>(x, l).
     case do {
         s \<leftarrow> ss_summary x;
         (v, w) \<leftarrow> TimeWindow_get (summary_quantiles s) (time (ss_reads x)) (q_quantile q) (quantile_values s);
         Some (v, s\<lparr>quantile_values := w\<rparr>)
       } of
       None \<Rightarrow> (\<lparr>ss_summary = None, ss_reads = ss_reads x + 1\<rparr>, l)
     | Some (v, s) \<Rightarrow> (\<lparr>ss_summary = Some s, ss_reads = ss_reads x + 1\<rparr>,
         l\<lparr>sl_quantiles := sl_quantiles l @ [\<lparr>quantile_level = q_quantile q, quantile_value = v\<rparr>]\<rparr>))"

definition read_totals :: summary_statement where
  "read_totals = (\<lambda>(x, l).
     (x, l\<lparr>sl_answer := Reported (map_option (\<lambda>s.
        empty_client_metric\<lparr>metric_summary :=
          \<lparr>summary_sample_count = summary_count s, summary_sample_sum = summary_sum s,
           summary_quantile = sl_quantiles l\<rparr>\<rparr>) (ss_summary x))\<rparr>))"

fun summary_code :: "quantile list \<Rightarrow> (nat \<Rightarrow> int) \<Rightarrow> summary_call \<Rightarrow> summary_local + summary_statement list" where
  "summary_code quantiles time (Observe_call value) =
     Inr [count_observation, sum_observation value, insert_observation time value]"
| "summary_code quantiles time Collect_call = Inr (map (read_quantile time) quantiles @ [read_totals])"

text \<open>The operations of the sequential model.\<close>

fun summary_spec :: "quantile list \<Rightarrow> (nat \<Rightarrow> int) \<Rightarrow> summary_call \<Rightarrow> shared_summary \<Rightarrow> shared_summary \<times> summary_answer" where
  "summary_spec quantiles time (Observe_call value) x =
     (\<lparr>ss_summary = Option.bind (ss_summary x) (Summary_Observe (time (ss_reads x)) value), ss_reads = ss_reads x + 1\<rparr>, Observed)"
| "summary_spec quantiles time Collect_call x =
     (let r = Option.bind (ss_summary x) (Summary_Collect (\<lambda>i. time (ss_reads x + i)))
      in (\<lparr>ss_summary = map_option snd r, ss_reads = ss_reads x + length quantiles\<rparr>, Reported (map_option fst r)))"

definition summary_shape :: "quantile list \<Rightarrow> shared_summary \<Rightarrow> bool" where
  "summary_shape quantiles x \<longleftrightarrow> (\<forall>s. ss_summary x = Some s \<longrightarrow> summary_quantiles s = quantiles)"

subsection \<open>The statements do what the operations do\<close>

lemma observe_summary_statements:
  "run_statements [count_observation, sum_observation v, insert_observation time v] (x, l) =
     (fst (summary_spec quantiles time (Observe_call v) x), l)"
  by (cases "ss_summary x")
    (simp_all add: count_observation_def sum_observation_def insert_observation_def Summary_Observe_def Let_def)

lemma read_quantiles_undefined:
  "ss_summary x = None \<Longrightarrow> run_statements (map (read_quantile time) qs) (x, l) =
     (\<lparr>ss_summary = None, ss_reads = ss_reads x + length qs\<rparr>, l)"
  by (induction qs arbitrary: x) (simp_all add: read_quantile_def)

lemma read_quantiles:
  "ss_summary x = Some s \<Longrightarrow> ss_reads x = k + i \<Longrightarrow>
   (case collect_quantiles (summary_quantiles s) (\<lambda>i. time (k + i)) i rest (quantile_values s) of
      None \<Rightarrow> \<exists>l'. run_statements (map (read_quantile time) rest) (x, l) =
        (\<lparr>ss_summary = None, ss_reads = ss_reads x + length rest\<rparr>, l')
    | Some (cs, w) \<Rightarrow> run_statements (map (read_quantile time) rest) (x, l) =
        (\<lparr>ss_summary = Some (s\<lparr>quantile_values := w\<rparr>), ss_reads = ss_reads x + length rest\<rparr>,
         l\<lparr>sl_quantiles := sl_quantiles l @ cs\<rparr>))"
proof (induction rest arbitrary: x s i l)
  case Nil
  then show ?case by (cases x) simp
next
  case (Cons q rest)
  show ?case
  proof (cases "TimeWindow_get (summary_quantiles s) (time (ss_reads x)) (q_quantile q) (quantile_values s)")
    case None
    then have "read_quantile time q (x, l) = (\<lparr>ss_summary = None, ss_reads = ss_reads x + 1\<rparr>, l)"
      using Cons.prems(1) by (simp add: read_quantile_def)
    then show ?thesis using None Cons.prems(2) by (simp add: read_quantiles_undefined)
  next
    case (Some vw)
    obtain v w where vw: "vw = (v, w)" by (cases vw)
    let ?s = "s\<lparr>quantile_values := w\<rparr>"
    let ?x = "\<lparr>ss_summary = Some ?s, ss_reads = ss_reads x + 1\<rparr>"
    let ?l = "l\<lparr>sl_quantiles := sl_quantiles l @ [\<lparr>quantile_level = q_quantile q, quantile_value = v\<rparr>]\<rparr>"
    have step: "read_quantile time q (x, l) = (?x, ?l)"
      using Some Cons.prems(1) vw by (simp add: read_quantile_def)
    have "ss_summary ?x = Some ?s" "ss_reads ?x = k + (i + 1)" using Cons.prems(2) by simp_all
    from Cons.IH [OF this, of ?l] show ?thesis
      using Some vw Cons.prems(2) by (auto simp: step split: option.splits)
  qed
qed

lemma collect_summary_statements:
  assumes "summary_shape quantiles x" and "sl_quantiles l = []"
  shows "\<exists>l'. run_statements (map (read_quantile time) quantiles @ [read_totals]) (x, l) =
      (fst (summary_spec quantiles time Collect_call x), l') \<and>
    sl_answer l' = snd (summary_spec quantiles time Collect_call x)"
proof (cases "ss_summary x")
  case None
  then show ?thesis by (simp add: read_quantiles_undefined read_totals_def)
next
  case (Some s)
  then have q: "summary_quantiles s = quantiles" using assms(1) by (simp add: summary_shape_def)
  from read_quantiles [OF Some, of "ss_reads x" 0 time quantiles l] show ?thesis
    using Some assms(2) q
    by (cases "collect_quantiles quantiles (\<lambda>i. time (ss_reads x + i)) 0 quantiles (quantile_values s)")
      (auto simp: read_totals_def Summary_Collect_def)
qed

lemma summary_shape_kept: "summary_shape quantiles x \<Longrightarrow> summary_shape quantiles (fst (summary_spec quantiles time c x))"
  by (cases c) (auto simp: summary_shape_def Summary_Observe_def Summary_Collect_def Let_def bind_eq_Some_conv)

lemma summary_run_spec:
  assumes "summary_shape quantiles x" and "summary_code quantiles time c = Inr ms"
  shows "summary_spec quantiles time c x = apsnd sl_answer (run_statements ms (x, summary_init)) \<and>
    summary_shape quantiles (fst (summary_spec quantiles time c x))"
proof (cases c)
  case (Observe_call v)
  then have ms: "ms = [count_observation, sum_observation v, insert_observation time v]" using assms(2) by simp
  show ?thesis
    using summary_shape_kept [OF assms(1), of time c]
    unfolding Observe_call ms observe_summary_statements [of v time x summary_init quantiles] by (simp add: summary_init_def)
next
  case Collect_call
  then have ms: "ms = map (read_quantile time) quantiles @ [read_totals]" using assms(2) by simp
  have "sl_quantiles summary_init = []" by (simp add: summary_init_def)
  from collect_summary_statements [OF assms(1) this, of time, folded ms] show ?thesis
    using summary_shape_kept [OF assms(1), of time c] unfolding Collect_call by (metis apsnd_conv prod.collapse)
qed

lemma summary_never_early: "summary_code quantiles time c \<noteq> Inl l"
  by (cases c) simp_all

interpretation summaries: guarded_object "summary_code quantiles time" summary_init "summary_spec quantiles time"
  sl_answer "summary_shape quantiles" for quantiles :: "quantile list" and time :: "nat \<Rightarrow> int"
  by (unfold_locales; (rule summary_run_spec; assumption | blast dest: summary_never_early [THEN notE]))

subsection \<open>What a scrape sees\<close>

text \<open>The calls with their clock readings, when the first reading is the \<open>k\<close>-th.\<close>

fun timed_calls :: "quantile list \<Rightarrow> (nat \<Rightarrow> int) \<Rightarrow> nat \<Rightarrow> (nat \<times> summary_call \<times> 'r) list \<Rightarrow> summary_op list" where
  "timed_calls quantiles time k [] = []"
| "timed_calls quantiles time k ((i, Observe_call v, r) # calls) =
     Summary_observe (time k) v # timed_calls quantiles time (k + 1) calls"
| "timed_calls quantiles time k ((i, Collect_call, r) # calls) =
     Summary_collect (\<lambda>i. time (k + i)) # timed_calls quantiles time (k + length quantiles) calls"

fun readings :: "quantile list \<Rightarrow> (nat \<times> summary_call \<times> 'r) list \<Rightarrow> nat" where
  "readings quantiles [] = 0"
| "readings quantiles ((i, Observe_call v, r) # calls) = Suc (readings quantiles calls)"
| "readings quantiles ((i, Collect_call, r) # calls) = length quantiles + readings quantiles calls"

lemma timed_calls_answers [simp]:
  "timed_calls quantiles time k (answers_of answer calls) = timed_calls quantiles time k calls"
  "readings quantiles (answers_of answer calls) = readings quantiles calls"
  by (induction quantiles time k calls rule: timed_calls.induct) (simp_all add: answers_of_def)

lemma timed_calls_append: "timed_calls quantiles time k (calls @ calls') =
    timed_calls quantiles time k calls @ timed_calls quantiles time (k + readings quantiles calls) calls'"
  by (induction quantiles time k calls rule: timed_calls.induct) (simp_all add: add.assoc)

lemma timed_calls_ok:
  assumes "mono time"
  shows "m \<le> time k \<Longrightarrow> summary_times_ok (length quantiles) m (timed_calls quantiles time k calls)"
proof (induction calls arbitrary: k m)
  case (Cons p calls)
  have le: "i \<le> j \<Longrightarrow> time i \<le> time j" for i j using assms by (rule monoD)
  obtain i c r where p: "p = (i, c, r)" by (cases p)
  show ?case
  proof (cases c)
    case (Observe_call v)
    have "summary_times_ok (length quantiles) (time k) (timed_calls quantiles time (k + 1) calls)"
      by (rule Cons.IH) (rule le, simp)
    then show ?thesis using Cons.prems p Observe_call by simp
  next
    case Collect_call
    let ?clock = "\<lambda>i. time (k + i)"
    have "clock_from m (length quantiles) ?clock"
      using Cons.prems order_trans [OF Cons.prems le [of k "k + i" for i]] by (auto simp: clock_from_def intro: le)
    moreover have "clock_end m (length quantiles) ?clock \<le> time (k + length quantiles)"
      using Cons.prems by (auto simp: clock_end_def intro: le order_trans)
    ultimately show ?thesis using Cons.IH p Collect_call by simp
  qed
qed simp

lemma timed_calls_end:
  assumes "mono time"
  shows "m \<le> time k \<Longrightarrow> \<exists>j. summary_end (length quantiles) m (timed_calls quantiles time k calls) \<le> time j"
proof (induction calls arbitrary: k m)
  case (Cons p calls)
  have le: "i \<le> j \<Longrightarrow> time i \<le> time j" for i j using assms by (rule monoD)
  obtain i c r where p: "p = (i, c, r)" by (cases p)
  show ?case
  proof (cases c)
    case (Observe_call v)
    then show ?thesis using p Cons.IH [of "time k" "k + 1"] le [of k "k + 1"] by simp
  next
    case Collect_call
    have "clock_end m (length quantiles) (\<lambda>i. time (k + i)) \<le> time (k + length quantiles)"
      using Cons.prems by (auto simp: clock_end_def intro: le order_trans)
    then show ?thesis using p Collect_call Cons.IH by simp
  qed
qed auto

lemma summary_obs_append: "summary_obs (ps @ ps') = summary_obs ps @ summary_obs ps'"
  by (induction ps rule: summary_obs.induct) simp_all

lemma replays_timed:
  "replays (summary_spec quantiles time) x calls y \<Longrightarrow> ss_summary x = Some s \<Longrightarrow>
   fold_opt summary_step (timed_calls quantiles time (ss_reads x) calls) s = Some s' \<Longrightarrow>
   ss_summary y = Some s' \<and> ss_reads y = ss_reads x + readings quantiles calls"
proof (induction calls arbitrary: x s)
  case (Cons p calls)
  obtain i c r where p: "p = (i, c, r)" by (cases p)
  show ?case
  proof (cases c)
    case (Observe_call v)
    then obtain s1 where s1: "Summary_Observe (time (ss_reads x)) v s = Some s1"
        "fold_opt summary_step (timed_calls quantiles time (ss_reads x + 1) calls) s1 = Some s'"
      using Cons.prems(3) p by (auto split: option.splits)
    with Cons.IH [of "\<lparr>ss_summary = Some s1, ss_reads = ss_reads x + 1\<rparr>" s1] show ?thesis
      using Cons.prems(1,2) p Observe_call by simp
  next
    case Collect_call
    then obtain m s1 where s1: "Summary_Collect (\<lambda>i. time (ss_reads x + i)) s = Some (m, s1)"
        "fold_opt summary_step (timed_calls quantiles time (ss_reads x + length quantiles) calls) s1 = Some s'"
      using Cons.prems(3) p by (auto split: option.splits)
    with Cons.IH [of "\<lparr>ss_summary = Some s1, ss_reads = ss_reads x + length quantiles\<rparr>" s1] show ?thesis
      using Cons.prems(1,2) p Collect_call by (simp add: Let_def)
  qed
qed simp

text \<open>C25: Any number of threads that observe and scrape one summary, their statements interleaved in
  any way the mutex allows and the clock read as they go, its readings and the time since the start
  representable in 64 bits: every thread makes its calls in its
  program order, no two are ever inside, no call runs into undefined behaviour, and every scrape
  sees one moment: the count and the running sum of exactly the observations that ended before
  it, and for each configured level one of those that is no older than the window, or NaN when none
  is recent. When the threads are finitely many, no schedule goes on forever or stops before every
  call has returned.\<close>

theorem summary_concurrent:
  assumes "Summary_new qs max_age n t0 = Some (Inr s0)" and "n \<le> max_age * 1000000" and "summary_params qs"
    and "mono time" and "\<forall>k. steady t0 (time k)"
    and "(guarded_step (summary_code qs time) summary_init)\<^sup>*\<^sup>* (guarded_start \<lparr>ss_summary = Some s0, ss_reads = 0\<rparr> prog) st"
    and "window_history qs (summary_obs (timed_calls qs time 0 (g_done st)))"
  shows "(\<forall>i. made_by i (g_done st) @ in_section (g_phase st i) @ g_calls st i = prog i) \<and>
    (\<forall>i j. g_phase st i \<noteq> Outside \<and> g_phase st j \<noteq> Outside \<longrightarrow> i = j) \<and>
    (\<not> g_locked st \<longrightarrow> ss_summary (g_object st) \<noteq> None) \<and>
    (\<forall>before i l after. g_done st = before @ (i, Collect_call, l) # after \<longrightarrow>
       (let obs = summary_obs (timed_calls qs time 0 before) in
        \<exists>cs. sl_answer l = Reported (Some (empty_client_metric\<lparr>metric_summary :=
            \<lparr>summary_sample_count = of_nat (length obs), summary_sample_sum = foldl dadd (Fin 0) (map snd obs),
             summary_quantile = cs\<rparr>\<rparr>)) \<and>
          map quantile_level cs = map q_quantile qs \<and>
          (\<forall>j<length cs. window_answer (duration_div (max_age * 1000000) n) (time (readings qs before + j)) (nat n) obs
             (quantile_value (cs ! j))))) \<and>
    (\<forall>threads. (\<forall>i\<ge>threads. prog i = []) \<longrightarrow> surely_return (summary_code qs time) summary_init threads st)"
proof -
  let ?x0 = "\<lparr>ss_summary = Some s0, ss_reads = 0\<rparr>"
  let ?done = "g_done st"
  have shape: "summary_shape qs ?x0"
    using arg_cong [OF Summary_new_window(3) [OF assms(1)], of summary_quantiles] by (simp add: summary_shape_def)
  note lin = summaries.linearizable [OF assms(6) shape]
  have scrape: "\<exists>s cs s'. ss_summary y = Some s \<and>
      Summary_Collect (\<lambda>i. time (ss_reads y + i)) s = Some (empty_client_metric\<lparr>metric_summary :=
        \<lparr>summary_sample_count = of_nat (length obs), summary_sample_sum = foldl dadd (Fin 0) (map snd obs),
         summary_quantile = cs\<rparr>\<rparr>, s') \<and>
      map quantile_level cs = map q_quantile qs \<and> ss_reads y = readings qs calls \<and>
      (\<forall>j<length cs. window_answer (duration_div (max_age * 1000000) n) (time (readings qs calls + j)) (nat n) obs
         (quantile_value (cs ! j)))"
    if y: "replays (summary_spec qs time) ?x0 (answers_of sl_answer calls) y"
      and parts: "?done = calls @ rest" and obs: "obs = summary_obs (timed_calls qs time 0 calls)"
    for calls rest y obs
  proof -
    let ?clock = "\<lambda>i. time (readings qs calls + i)"
    have hist: "window_history qs obs"
      using assms(7) unfolding parts obs by (auto simp: timed_calls_append summary_obs_append dest: window_history_prefix)
    let ?calls = "timed_calls qs time 0 (calls @ [(0, Collect_call, undefined)])"
    have t0: "t0 \<le> time 0" using assms(5) by (simp add: steady_def)
    have ok: "summary_times_ok (length qs) t0 ?calls"
      using t0 by (rule timed_calls_ok [OF assms(4)])
    have "steady t0 (summary_end (length qs) t0 ?calls)"
      using timed_calls_end [OF assms(4) t0, of qs "calls @ [(0, Collect_call, undefined)]"]
        steady_mono [of t0] assms(5) summary_end_ge [OF ok] by blast
    with ok have "summary_times_ok (length qs) t0 (timed_calls qs time 0 calls @ [Summary_collect ?clock])"
        "steady t0 (summary_end (length qs) t0 (timed_calls qs time 0 calls @ [Summary_collect ?clock]))"
      by (simp_all add: timed_calls_append)
    from summary_scrape [OF assms(1-3) hist [unfolded obs] this]
    obtain s cs s' where s: "fold_opt summary_step (timed_calls qs time 0 calls) s0 = Some s"
      "Summary_Collect ?clock s = Some (empty_client_metric\<lparr>metric_summary :=
        \<lparr>summary_sample_count = of_nat (length obs), summary_sample_sum = foldl dadd (Fin 0) (map snd obs),
         summary_quantile = cs\<rparr>\<rparr>, s')"
      "map quantile_level cs = map q_quantile qs"
      "\<forall>j<length cs. window_answer (duration_div (max_age * 1000000) n) (?clock j) (nat n) obs (quantile_value (cs ! j))"
      unfolding obs by blast
    have "ss_summary y = Some s \<and> ss_reads y = readings qs calls"
      using replays_timed [OF y, of s0 s] s(1) by simp
    with s show ?thesis by auto
  qed
  obtain y where y: "replays (summary_spec qs time) ?x0 (answers_of sl_answer ?done) y" "\<not> g_locked st \<longrightarrow> g_object st = y"
    using lin by blast
  have free: "ss_summary y \<noteq> None" using scrape [OF y(1), of "[]"] by auto
  have "\<exists>cs. sl_answer l = Reported (Some (empty_client_metric\<lparr>metric_summary :=
            \<lparr>summary_sample_count = of_nat (length obs), summary_sample_sum = foldl dadd (Fin 0) (map snd obs),
             summary_quantile = cs\<rparr>\<rparr>)) \<and>
          map quantile_level cs = map q_quantile qs \<and>
          (\<forall>j<length cs. window_answer (duration_div (max_age * 1000000) n) (time (readings qs before + j)) (nat n) obs
             (quantile_value (cs ! j)))"
    if split: "?done = before @ (i, Collect_call, l) # after" and obs: "obs = summary_obs (timed_calls qs time 0 before)"
    for before i l after obs
  proof -
    obtain x where x: "replays (summary_spec qs time) ?x0 (answers_of sl_answer before) x"
      and answer: "snd (summary_spec qs time Collect_call x) = sl_answer l"
      using y(1) unfolding split by (auto simp: replays_append simp del: summary_spec.simps)
    from scrape [OF x split obs] show ?thesis unfolding answer [symmetric] by (elim exE conjE) (auto simp: Let_def)
  qed
  moreover have "surely_return (summary_code qs time) summary_init threads st" if "\<forall>i\<ge>threads. prog i = []" for threads
    by (rule summaries.returns [OF assms(6) shape that])
  ultimately show ?thesis using lin y(2) free by (auto simp: Let_def)
qed

text \<open>Thread 0 observes, then thread 1 scrapes; a reading of the clock takes a nanosecond, and the
  clock stops after a second.\<close>

definition demo_time :: "nat \<Rightarrow> int" where
  "demo_time k = int (min k 1000000000)"

definition observe_then_scrape :: "nat \<Rightarrow> summary_call list" where
  "observe_then_scrape i = (if i = 0 then [Observe_call (Fin 3)] else if i = 1 then [Collect_call] else [])"

lemma observe_then_scrape_run:
  assumes "summary_shape qs x0"
  shows "\<exists>st l. (guarded_step (summary_code qs time) summary_init)\<^sup>*\<^sup>* (guarded_start x0 observe_then_scrape) st \<and>
    g_done st = [(0, Observe_call (Fin 3), summary_init)] @ (1, Collect_call, l) # []"
proof -
  from two_calls_in_turn [OF _ _ _ _ observe_summary_statements [of "Fin 3" time x0 summary_init qs],
      of observe_then_scrape "Observe_call (Fin 3)" Collect_call "summary_code qs time" "map (read_quantile time) qs @ [read_totals]"]
  show ?thesis by (simp add: observe_then_scrape_def)
qed

theorem summary_concurrent_witness:
  "\<exists>st l m. (guarded_step (summary_code [demo_quantile] demo_time) summary_init)\<^sup>*\<^sup>*
      (guarded_start \<lparr>ss_summary = Some demo_summary, ss_reads = 0\<rparr> observe_then_scrape) st \<and>
    g_done st = [(0, Observe_call (Fin 3), summary_init)] @ (1, Collect_call, l) # [] \<and>
    sl_answer l = Reported (Some m) \<and> summary_sample_count (metric_summary m) = 1 \<and>
    summary_sample_sum (metric_summary m) = dadd (Fin 0) (Fin 3)"
proof -
  have p: "summary_params [demo_quantile]"
    by (simp add: summary_params_def level_ok_def) (simp add: demo_quantile_def Quantile_new_def)
  have shape: "summary_shape [demo_quantile] \<lparr>ss_summary = Some demo_summary, ss_reads = 0\<rparr>"
    by (simp add: summary_shape_def demo_summary_def)
  obtain st l where st: "(guarded_step (summary_code [demo_quantile] demo_time) summary_init)\<^sup>*\<^sup>*
      (guarded_start \<lparr>ss_summary = Some demo_summary, ss_reads = 0\<rparr> observe_then_scrape) st"
    "g_done st = [(0, Observe_call (Fin 3), summary_init)] @ (1, Collect_call, l) # []"
    using observe_then_scrape_run [OF shape, of demo_time] by blast
  have h: "window_history [demo_quantile] (summary_obs (timed_calls [demo_quantile] demo_time 0 (g_done st)))"
    unfolding st(2) by (simp add: window_history_def admissible_history_def proper_quantiles_def ckms_limit_def)
  have mono: "mono demo_time" by (auto simp: mono_def demo_time_def min_def)
  let ?obs = "summary_obs (timed_calls [demo_quantile] demo_time 0 [(0 :: nat, Observe_call (Fin 3), summary_init)])"
  have "\<exists>cs. sl_answer l = Reported (Some (empty_client_metric\<lparr>metric_summary :=
      \<lparr>summary_sample_count = of_nat (length ?obs), summary_sample_sum = foldl dadd (Fin 0) (map snd ?obs),
       summary_quantile = cs\<rparr>\<rparr>))"
  proof -
    have "(5 :: int) \<le> 60000 * 1000000" "\<forall>k. steady 0 (demo_time k)" by (auto simp: steady_def demo_time_def min_def)
    note all = summary_concurrent [OF demo_summary this(1) p mono this(2) st(1) h, unfolded Let_def, THEN conjunct2, THEN conjunct2, THEN conjunct2, THEN conjunct1]
    from all [rule_format, OF st(2)] show ?thesis by blast
  qed
  then show ?thesis using st by (auto simp del: append.simps)
qed

end
