(* ===== verification/ConcurrentScrape.thy ===== *)
theory ConcurrentScrape
  imports Registry
begin

text \<open>
  A scrape while other threads use the registry. \<open>Registry::Collect\<close> holds the registry's mutex, so
  no family comes or goes; \<open>Family::Collect\<close> holds the family's mutex, so no metric of this family
  comes or goes; the metrics are collected one after the other. In between other threads call
  methods of any metric, also of the family being collected, since these take the metric's own mutex
  or none, and \<open>Add\<close> and \<open>Remove\<close> of the families that are not being collected. The functions of
  \<open>Family\<close> and \<open>Registry\<close> are the special case in which nothing comes in between.
\<close>

subsection \<open>A family\<close>

text \<open>Steps while the family's mutex is held: the family and the metrics collected so far. \<open>change\<close> is
  what the methods of a metric may do to it.\<close>

inductive entry_step :: "'m metric_class \<Rightarrow> ('m \<Rightarrow> 'm \<Rightarrow> bool) \<Rightarrow> 'm family \<times> client_metric list \<Rightarrow>
    'm family \<times> client_metric list \<Rightarrow> bool" for cls change where
  update: "(labels, a, m) \<in> set (fam_metrics f) \<Longrightarrow> change m m' \<Longrightarrow>
    entry_step cls change (f, cs) (Family_touch a (\<lambda>m. m') f, cs)"
| collect: "length cs < length (fam_metrics f) \<Longrightarrow> fam_metrics f ! length cs = (labels, a, m) \<Longrightarrow>
    CollectMetric cls clock f labels m = Some (c, m') \<Longrightarrow>
    entry_step cls change (f, cs) (f\<lparr>fam_metrics := (fam_metrics f)[length cs := (labels, a, m')]\<rparr>, cs @ [c])"

definition family_scrape :: "'m metric_class \<Rightarrow> ('m \<Rightarrow> 'm \<Rightarrow> bool) \<Rightarrow> 'm family \<Rightarrow> metric_family list \<Rightarrow> 'm family \<Rightarrow> bool" where
  "family_scrape cls change f families f' \<longleftrightarrow>
     (\<exists>cs. (entry_step cls change)\<^sup>*\<^sup>* (f, []) (f', cs) \<and> length cs = length (fam_metrics f') \<and>
        families = (if fam_metrics f = [] then []
          else [\<lparr>family_name = fam_name f, family_help = fam_help f, family_type = class_type cls, family_metric = cs\<rparr>]))"

subsection \<open>A registry\<close>

text \<open>The families of one type, how many have been collected, and the results. What the other threads
  do to families that are not locked is any call on them; what they do to one that is locked, and
  to others meanwhile, concerns different objects and may be put before or after.\<close>

inductive families_step :: "'m metric_class \<Rightarrow> 'm families \<times> nat \<times> metric_family list \<Rightarrow>
    'm families \<times> nat \<times> metric_family list \<Rightarrow> bool" for cls where
  others: "(a, f) \<in> set fs \<Longrightarrow> family_step cls f f' \<Longrightarrow> families_step cls (fs, j, results) (update_family a f' fs, j, results)"
| collect: "j < length fs \<Longrightarrow> fs ! j = (a, f) \<Longrightarrow> family_scrape cls (\<lambda>m m'. True) f metrics f' \<Longrightarrow>
    families_step cls (fs, j, results) (fs[j := (a, f')], Suc j, results @ metrics)"

definition families_scrape :: "'m metric_class \<Rightarrow> 'm families \<Rightarrow> metric_family list \<Rightarrow> 'm families \<Rightarrow> bool" where
  "families_scrape cls fs results fs' \<longleftrightarrow> (families_step cls)\<^sup>*\<^sup>* (fs, 0, []) (fs', length fs', results)"

text \<open>The families of the five types are collected one type after the other; meanwhile calls on
  families of all types are made. For one type these are the calls on its own families.\<close>

definition registry_scrape :: "registry \<Rightarrow> metric_family list \<Rightarrow> registry \<Rightarrow> bool" where
  "registry_scrape r results r' \<longleftrightarrow>
     (\<exists>cs gs hs is ss. families_scrape counter_class (reg_counters r) cs (reg_counters r') \<and>
        families_scrape gauge_class (reg_gauges r) gs (reg_gauges r') \<and>
        families_scrape histogram_class (reg_histograms r) hs (reg_histograms r') \<and>
        families_scrape info_class (reg_infos r) is (reg_infos r') \<and>
        families_scrape summary_class (reg_summaries r) ss (reg_summaries r') \<and>
        insert_behavior r' = insert_behavior r \<and> results = cs @ gs @ hs @ is @ ss)"

subsection \<open>What a scrape keeps\<close>

lemma Family_touch_keys [simp]:
  "map entry_labels (fam_metrics (Family_touch a g f)) = map entry_labels (fam_metrics f)"
  "map entry_addr (fam_metrics (Family_touch a g f)) = map entry_addr (fam_metrics f)"
  "fam_name (Family_touch a g f) = fam_name f" "fam_help (Family_touch a g f) = fam_help f"
  "fam_constant_labels (Family_touch a g f) = fam_constant_labels f"
  by (auto simp: Family_touch_def)

definition same_keys :: "'m family \<Rightarrow> 'm family \<Rightarrow> bool" where
  "same_keys f f' \<longleftrightarrow> map entry_labels (fam_metrics f') = map entry_labels (fam_metrics f) \<and>
     map entry_addr (fam_metrics f') = map entry_addr (fam_metrics f) \<and> fam_name f' = fam_name f \<and>
     fam_help f' = fam_help f \<and> fam_constant_labels f' = fam_constant_labels f"

lemma same_keys_refl [simp]: "same_keys f f"
  by (simp add: same_keys_def)

lemma same_keys_ok: "same_keys f f' \<Longrightarrow> family_ok cls f \<Longrightarrow> family_ok cls f'"
  by (rule family_ok_keys [of cls f]) (auto simp: same_keys_def intro!: family.equality)

lemma same_keys_length: "same_keys f f' \<Longrightarrow> length (fam_metrics f') = length (fam_metrics f)"
  by (metis length_map same_keys_def)

lemma map_update_same: "i < length xs \<Longrightarrow> g x = g (xs ! i) \<Longrightarrow> map g (xs[i := x]) = map g xs"
  by (simp add: map_update list_update_same_conv)

lemma same_keys_trans: "same_keys f g \<Longrightarrow> same_keys g h \<Longrightarrow> same_keys f h"
  by (simp add: same_keys_def)

lemma entry_step_keys: "entry_step cls change p p' \<Longrightarrow> same_keys (fst p) (fst p')"
  by (induction rule: entry_step.induct) (simp_all add: same_keys_def map_update_same)

lemma same_keys_labels:
  assumes "same_keys f f'" and "i < length (fam_metrics f)"
  shows "entry_labels (fam_metrics f' ! i) = entry_labels (fam_metrics f ! i)"
proof -
  have "map entry_labels (fam_metrics f') ! i = map entry_labels (fam_metrics f) ! i"
    using assms(1) by (simp only: same_keys_def)
  then show ?thesis using assms(2) same_keys_length [OF assms(1)] by simp
qed

context exposed_metric begin

text \<open>The metrics collected so far carry the labels of the first entries.\<close>

definition entry_inv :: "'m family \<Rightarrow> 'm family \<times> client_metric list \<Rightarrow> bool" where
  "entry_inv f0 p \<longleftrightarrow> same_keys f0 (fst p) \<and> length (snd p) \<le> length (fam_metrics f0) \<and>
     (\<forall>i<length (snd p). metric_label (snd p ! i) =
        to_labels (fam_constant_labels f0) @ to_labels (entry_labels (fam_metrics f0 ! i)))"

lemma entry_inv_step:
  assumes "entry_step cls change p p'" and inv: "entry_inv f0 p"
  shows "entry_inv f0 p'"
  using assms(1)
proof (cases rule: entry_step.cases)
  case (update labels a m f m' cs)
  then show ?thesis
    using inv same_keys_trans [of f0 f] entry_step_keys [OF assms(1)] by (simp add: entry_inv_def)
next
  case (collect cs f labels a m clock c m')
  have keys: "same_keys f0 f" using inv collect(1) by (simp add: entry_inv_def)
  have len: "length cs < length (fam_metrics f0)" using collect(3) same_keys_length [OF keys] by simp
  have "metric_label c = to_labels (fam_constant_labels f0) @ to_labels (entry_labels (fam_metrics f0 ! length cs))"
    using CollectMetric_labels [OF collect(5)] same_keys_labels [OF keys len] collect(4) keys by (simp add: same_keys_def)
  then show ?thesis
    using inv collect(1,2) len same_keys_trans [OF keys] entry_step_keys [OF assms(1)]
    by (auto simp: entry_inv_def nth_append less_Suc_eq)
qed

lemma entry_inv_reach: "(entry_step cls change)\<^sup>*\<^sup>* (f, []) p \<Longrightarrow> entry_inv f p"
  by (induction rule: rtranclp_induct) (auto simp: entry_inv_def [of f "(f, [])"] intro: entry_inv_step)

lemma family_scrape_ok:
  assumes "family_scrape cls change f families f'" and ok: "family_ok cls f"
  shows "family_ok cls f' \<and> fam_name f' = fam_name f \<and> (\<forall>mf\<in>set families. wf_metric_family mf) \<and>
    (families = [] \<or> map family_name families = [fam_name f])"
proof -
  obtain cs where cs: "(entry_step cls change)\<^sup>*\<^sup>* (f, []) (f', cs)" "length cs = length (fam_metrics f')"
    "families = (if fam_metrics f = [] then []
       else [\<lparr>family_name = fam_name f, family_help = fam_help f, family_type = class_type cls, family_metric = cs\<rparr>])"
    using assms(1) by (auto simp: family_scrape_def)
  have inv: "entry_inv f (f', cs)" using cs(1) by (rule entry_inv_reach)
  then have keys: "same_keys f f'" by (simp add: entry_inv_def)
  have "map metric_label cs =
      map (\<lambda>e. to_labels (fam_constant_labels f) @ to_labels (entry_labels e)) (fam_metrics f)"
    using inv cs(2) same_keys_length [OF keys] by (intro nth_equalityI) (simp_all add: entry_inv_def)
  then have "fam_metrics f \<noteq> [] \<Longrightarrow> \<forall>mf\<in>set families. wf_metric_family mf"
    using wf_metric_familyI [OF ok, of cs] cs(3) by simp
  then show ?thesis using same_keys_ok [OF keys ok] keys cs(3) by (auto simp: same_keys_def)
qed

text \<open>The invariant of the scrape of the families of one type.\<close>

definition families_inv :: "'m families \<Rightarrow> 'm families \<times> nat \<times> metric_family list \<Rightarrow> bool" where
  "families_inv fs0 p \<longleftrightarrow> (case p of (fs, j, results) \<Rightarrow>
     families_ok cls fs \<and> names_in fs = names_in fs0 \<and> map fst fs = map fst fs0 \<and> j \<le> length fs0 \<and>
     (\<forall>mf\<in>set results. wf_metric_family mf) \<and> subseq (map family_name results) (take j (names_in fs0)))"

lemma update_family_keys [simp]: "map fst (update_family a f fs) = map fst fs"
  by (auto simp: update_family_def)

lemma families_inv_step:
  assumes "families_step cls p p'" and inv: "families_inv fs0 p"
  shows "families_inv fs0 p'"
  using assms(1)
proof (cases rule: families_step.cases)
  case (others a f fs f' j results)
  then show ?thesis using inv update_family_step [of fs a f f'] by (simp add: families_inv_def)
next
  case (collect j fs a f metrics f' results)
  have fs: "families_ok cls fs" "names_in fs = names_in fs0" "map fst fs = map fst fs0" "j \<le> length fs0"
    "\<forall>mf\<in>set results. wf_metric_family mf" "subseq (map family_name results) (take j (names_in fs0))"
    using inv unfolding collect(1) by (simp_all add: families_inv_def)
  have mem: "(a, f) \<in> set fs" using collect(3,4) nth_mem by metis
  then have "family_ok cls f" using fs(1) by (auto simp: families_ok_def)
  note s = family_scrape_ok [OF collect(5) this]
  have len: "j < length fs0" using collect(3) fs(3) by (metis length_map)
  have names: "names_in (fs[j := (a, f')]) = names_in fs" "map fst (fs[j := (a, f')]) = map fst fs"
    using collect(3,4) s by (simp_all add: map_update_same)
  have "family_ok cls (snd x)" if "x \<in> set (fs[j := (a, f')])" for x
    using that set_update_subset_insert [of fs j "(a, f')"] fs(1) s by (auto simp: families_ok_def)
  then have "families_ok cls (fs[j := (a, f')])"
    using fs(1) names(2) by (simp add: families_ok_def)
  moreover have "take (Suc j) (names_in fs0) = take j (names_in fs0) @ [fam_name f]"
    using len collect(4) arg_cong [OF fs(2), of "\<lambda>xs. xs ! j"] collect(3) by (simp add: take_Suc_conv_app_nth)
  moreover have "subseq (map family_name metrics) [fam_name f]" using s by auto
  ultimately show ?thesis
    using fs names s len unfolding collect(2) by (auto simp: families_inv_def intro: list_emb_append_mono)
qed

lemma families_inv_reach: "(families_step cls)\<^sup>*\<^sup>* (fs, 0, []) p \<Longrightarrow> families_ok cls fs \<Longrightarrow> families_inv fs p"
proof (induction rule: rtranclp_induct)
  case base
  then show ?case by (simp add: families_inv_def)
qed (rule families_inv_step)

lemma families_scrape_ok:
  assumes "families_scrape cls fs results fs'" and "families_ok cls fs"
  shows "families_ok cls fs' \<and> names_in fs' = names_in fs \<and> map fst fs' = map fst fs \<and>
    (\<forall>mf\<in>set results. wf_metric_family mf) \<and> subseq (map family_name results) (names_in fs)"
proof -
  have "families_inv fs (fs', length fs', results)"
    using assms by (intro families_inv_reach) (simp_all add: families_scrape_def)
  moreover from this have "length fs' = length fs" by (auto simp: families_inv_def dest: arg_cong [where f = length])
  ultimately show ?thesis by (simp add: families_inv_def)
qed

end

lemma registry_scrape_ok:
  assumes "registry_scrape r results r'" and "registry_ok r"
  shows "registry_ok r' \<and> (\<forall>mf\<in>set results. wf_metric_family mf) \<and> subseq (map family_name results) (registry_names r)"
proof -
  obtain cs gs hs ins ss where
    c: "families_scrape counter_class (reg_counters r) cs (reg_counters r')" and
    g: "families_scrape gauge_class (reg_gauges r) gs (reg_gauges r')" and
    h: "families_scrape histogram_class (reg_histograms r) hs (reg_histograms r')" and
    i: "families_scrape info_class (reg_infos r) ins (reg_infos r')" and
    s: "families_scrape summary_class (reg_summaries r) ss (reg_summaries r')" and
    results: "results = cs @ gs @ hs @ ins @ ss"
    using assms(1) unfolding registry_scrape_def by blast
  have ok: "families_ok counter_class (reg_counters r)" "families_ok gauge_class (reg_gauges r)"
    "families_ok histogram_class (reg_histograms r)" "families_ok info_class (reg_infos r)"
    "families_ok summary_class (reg_summaries r)"
    using assms(2) unfolding registry_ok_def all_kinds by (simp_all add: kind_ok_def)
  note all = counters.families_scrape_ok [OF c ok(1)] gauges.families_scrape_ok [OF g ok(2)]
    histograms.families_scrape_ok [OF h ok(3)] infos.families_scrape_ok [OF i ok(4)]
    summaries.families_scrape_ok [OF s ok(5)]
  have "subseq (map family_name results) (registry_names r)"
    unfolding results registry_names_def map_append
    using all by (auto simp: kind_names_def intro!: list_emb_append_mono)
  moreover have "\<forall>mf\<in>set results. wf_metric_family mf" using all unfolding results by auto
  moreover have "\<forall>T. kind_ok T r' \<and> kind_names T r' = kind_names T r"
    unfolding all_kinds using all by (simp add: kind_simps)
  ultimately show ?thesis using assms(2) by (simp add: registry_ok_def registry_names_def)
qed

subsection \<open>A scrape that nothing interrupts\<close>

lemma Family_Collect_scrape:
  assumes "Family_Collect cls clock f = Some (families, f')"
  shows "family_scrape cls change f families f'"
proof (cases "fam_metrics f = []")
  case True
  then show ?thesis using assms by (auto simp: Family_Collect_def family_scrape_def)
next
  case False
  let ?body = "\<lambda>(labels, a, m). map_option (\<lambda>(c, m). (c, (labels, a, m))) (CollectMetric cls (clock a) f labels m)"
  obtain rs where rs: "map_opt ?body (fam_metrics f) = Some rs"
    and families: "families = [\<lparr>family_name = fam_name f, family_help = fam_help f, family_type = class_type cls,
        family_metric = map fst rs\<rparr>]" and f': "f' = f\<lparr>fam_metrics := map snd rs\<rparr>"
    using assms False by (auto simp: Family_Collect_def bind_eq_Some_conv)
  have all: "list_all2 (\<lambda>e r. ?body e = Some r) (fam_metrics f) rs" using rs by (simp add: map_opt_Some)
  have len: "length rs = length (fam_metrics f)" using all by (simp add: list_all2_lengthD)
  let ?st = "\<lambda>k. (f\<lparr>fam_metrics := map snd (take k rs) @ drop k (fam_metrics f)\<rparr>, map fst (take k rs))"
  have "(entry_step cls change)\<^sup>*\<^sup>* (f, []) (?st k)" if "k \<le> length rs" for k
    using that
  proof (induction k)
    case (Suc k)
    obtain labels a m where e: "fam_metrics f ! k = (labels, a, m)" by (cases "fam_metrics f ! k")
    have "?body (fam_metrics f ! k) = Some (rs ! k)" using list_all2_nthD [OF all] Suc.prems len by simp
    then obtain c m' where c: "CollectMetric cls (clock a) f labels m = Some (c, m')" and r: "rs ! k = (c, (labels, a, m'))"
      using e by auto
    let ?f = "fst (?st k)"
    have k: "length (snd (?st k)) = k" using Suc.prems by simp
    have "entry_step cls change (?f, snd (?st k))
        (?f\<lparr>fam_metrics := (fam_metrics ?f)[length (snd (?st k)) := (labels, a, m')]\<rparr>, snd (?st k) @ [c])"
    proof (rule entry_step.collect)
      show "length (snd (?st k)) < length (fam_metrics ?f)" using Suc.prems len k by simp
      show "fam_metrics ?f ! length (snd (?st k)) = (labels, a, m)" using Suc.prems len k e by (simp add: nth_append)
      show "CollectMetric cls (clock a) ?f labels m = Some (c, m')" using c by (simp add: CollectMetric_def)
    qed
    moreover have "(fam_metrics ?f)[k := (labels, a, m')] = map snd (take (Suc k) rs) @ drop (Suc k) (fam_metrics f)"
      using Suc.prems len r by (simp add: take_Suc_conv_app_nth list_update_append Cons_nth_drop_Suc [symmetric])
    moreover have "snd (?st k) @ [c] = map fst (take (Suc k) rs)"
      using Suc.prems r by (simp add: take_Suc_conv_app_nth)
    ultimately have "entry_step cls change (?st k) (?st (Suc k))" unfolding k by simp
    with Suc show ?case by (meson Suc_leD rtranclp.rtrancl_into_rtrancl)
  qed simp
  from this [of "length rs"] have "(entry_step cls change)\<^sup>*\<^sup>* (f, []) (f', map fst rs)" using len f' by simp
  then show ?thesis using False len families f' unfolding family_scrape_def by (intro exI [of _ "map fst rs"]) simp
qed

lemma CollectAll_scrape:
  assumes "CollectAll (Family_Collect cls) clock fs = Some (ms, fs')"
  shows "families_scrape cls fs ms fs'"
proof -
  have "CollectAll (Family_Collect cls) clock xs = Some (ms, ys) \<Longrightarrow>
    (families_step cls)\<^sup>*\<^sup>* (pre @ xs, length pre, rs) (pre @ ys, length pre + length ys, rs @ ms)" for pre xs rs ms ys
  proof (induction xs arbitrary: pre rs ms ys)
    case (Cons x xs)
    obtain a f where x: "x = (a, f)" by (cases x)
    obtain m1 f1 m2 ys2 where c: "Family_Collect cls clock f = Some (m1, f1)"
      "CollectAll (Family_Collect cls) clock xs = Some (m2, ys2)" "ms = m1 @ m2" "ys = (a, f1) # ys2"
      using Cons.prems x by (auto simp: bind_eq_Some_conv)
    have "families_step cls (pre @ x # xs, length pre, rs) ((pre @ x # xs)[length pre := (a, f1)], Suc (length pre), rs @ m1)"
      using x Family_Collect_scrape [OF c(1)] by (intro families_step.collect) simp_all
    moreover have "(families_step cls)\<^sup>*\<^sup>* ((pre @ [(a, f1)]) @ xs, length (pre @ [(a, f1)]), rs @ m1)
        ((pre @ [(a, f1)]) @ ys2, length (pre @ [(a, f1)]) + length ys2, (rs @ m1) @ m2)"
      using c(2) by (rule Cons.IH)
    ultimately show ?case unfolding c(3,4) by (simp add: converse_rtranclp_into_rtranclp)
  qed simp
  from this [OF assms, of "[]" "[]"] show ?thesis by (simp add: families_scrape_def)
qed

lemma Registry_Collect_scrape:
  assumes "Registry_Collect clock r = Some (fs, r')"
  shows "registry_scrape r fs r'"
proof -
  obtain cs gs hs ins ss cs' gs' hs' ins' ss' where
    all: "CollectAll (Family_Collect counter_class) clock (reg_counters r) = Some (cs, cs')"
      "CollectAll (Family_Collect gauge_class) clock (reg_gauges r) = Some (gs, gs')"
      "CollectAll (Family_Collect histogram_class) clock (reg_histograms r) = Some (hs, hs')"
      "CollectAll (Family_Collect info_class) clock (reg_infos r) = Some (ins, ins')"
      "CollectAll (Family_Collect summary_class) clock (reg_summaries r) = Some (ss, ss')"
    and fs: "fs = cs @ gs @ hs @ ins @ ss"
    and r': "r' = r\<lparr>reg_counters := cs', reg_gauges := gs', reg_histograms := hs', reg_infos := ins', reg_summaries := ss'\<rparr>"
    using assms by (auto simp: Registry_Collect_def bind_eq_Some_conv)
  show ?thesis
    using all [THEN CollectAll_scrape] fs r' unfolding registry_scrape_def by fastforce
qed

subsection \<open>Counters from scrape to scrape\<close>

text \<open>The methods that raise a counter.\<close>

inductive increments :: "counter \<Rightarrow> counter \<Rightarrow> bool" where
  "increments c (Counter_Increment c)"
| "v \<noteq> NaN \<Longrightarrow> increments c (Counter_Increment_by v c)"

text \<open>What may happen between two scrapes of a family of counters so that none of them falls: new
  metrics, increments, and other scrapes. Not \<open>Remove\<close>, nor \<open>Reset\<close>.\<close>

inductive counting_step :: "counter family \<Rightarrow> counter family \<Rightarrow> bool" where
  add: "places place \<Longrightarrow> wf_labels ls \<Longrightarrow> addr \<noteq> 0 \<Longrightarrow> addr \<notin> entry_addr ` set (fam_metrics f) \<Longrightarrow>
    Family_Add place counter_class ls addr (Inr Counter_default) f = (r, f') \<Longrightarrow> counting_step f f'"
| increment: "(labels, a, c) \<in> set (fam_metrics f) \<Longrightarrow> increments c c' \<Longrightarrow> counting_step f (Family_touch a (\<lambda>c. c') f)"
| scrape: "family_scrape counter_class increments f families f' \<Longrightarrow> counting_step f f'"

lemma increments_ok: "increments c c' \<Longrightarrow> counter_ok c \<Longrightarrow> counter_ok c' \<and> dle (Counter_Value c) (Counter_Value c')"
  by (induction rule: increments.induct)
    (simp_all add: counter_ok_Increment counter_ok_Increment_by Counter_Increment_ge Counter_Increment_by_ge del: Counter_Value_Increment Counter_Value_Increment_by)

definition counters_ok :: "counter family \<Rightarrow> bool" where
  "counters_ok f \<longleftrightarrow> family_ok counter_class f \<and> (\<forall>e\<in>set (fam_metrics f). counter_ok (entry_object e))"

text \<open>Every counter of \<open>f\<close> is in \<open>f'\<close>, and not lower.\<close>

definition not_lower :: "counter family \<Rightarrow> counter family \<Rightarrow> bool" where
  "not_lower f f' \<longleftrightarrow> fam_constant_labels f' = fam_constant_labels f \<and>
     (\<forall>e\<in>set (fam_metrics f). \<exists>e'\<in>set (fam_metrics f'). entry_labels e' = entry_labels e \<and>
        dle (Counter_Value (entry_object e)) (Counter_Value (entry_object e')))"

lemma not_lower_trans:
  assumes "not_lower f g" and "not_lower g h"
  shows "not_lower f h"
proof -
  have "\<exists>e''\<in>set (fam_metrics h). entry_labels e'' = entry_labels e \<and>
      dle (Counter_Value (entry_object e)) (Counter_Value (entry_object e''))" if e: "e \<in> set (fam_metrics f)" for e
  proof -
    obtain e' where e': "e' \<in> set (fam_metrics g)" "entry_labels e' = entry_labels e"
      "dle (Counter_Value (entry_object e)) (Counter_Value (entry_object e'))"
      using assms(1) e unfolding not_lower_def by blast
    obtain e'' where "e'' \<in> set (fam_metrics h)" "entry_labels e'' = entry_labels e'"
      "dle (Counter_Value (entry_object e')) (Counter_Value (entry_object e''))"
      using assms(2) e'(1) unfolding not_lower_def by blast
    then show ?thesis using e'(2) dle_trans [OF e'(3)] by (intro bexI [of _ e'']) simp_all
  qed
  then show ?thesis using assms by (simp add: not_lower_def)
qed

lemma counter_ok_le: "counter_ok c \<Longrightarrow> dle (Counter_Value c) (Counter_Value c)"
  using counter_ok_not_MInf [of c] by simp

lemma not_lower_refl: "counters_ok f \<Longrightarrow> not_lower f f"
  unfolding not_lower_def counters_ok_def using counter_ok_le by blast

text \<open>The entries keep their places while the family is locked.\<close>

definition raised :: "counter family \<Rightarrow> counter family \<Rightarrow> bool" where
  "raised f f' \<longleftrightarrow> same_keys f f' \<and> (\<forall>i<length (fam_metrics f).
     counter_ok (entry_object (fam_metrics f' ! i)) \<and>
     dle (Counter_Value (entry_object (fam_metrics f ! i))) (Counter_Value (entry_object (fam_metrics f' ! i))))"

lemma raised_touch:
  assumes "counters_ok f" and e: "(labels, a, c) \<in> set (fam_metrics f)" and "increments c c'"
  shows "raised f (Family_touch a (\<lambda>c. c') f)"
proof -
  have addrs: "distinct (map entry_addr (fam_metrics f))" using assms(1) by (simp add: counters_ok_def family_ok_def)
  have "counter_ok (entry_object (fam_metrics (Family_touch a (\<lambda>c. c') f) ! i)) \<and>
      dle (Counter_Value (entry_object (fam_metrics f ! i))) (Counter_Value (entry_object (fam_metrics (Family_touch a (\<lambda>c. c') f) ! i)))"
    if i: "i < length (fam_metrics f)" for i
  proof -
    obtain l b m where m: "fam_metrics f ! i = (l, b, m)" by (cases "fam_metrics f ! i")
    then have mem: "(l, b, m) \<in> set (fam_metrics f)" using nth_mem [OF i] by simp
    then have ok: "counter_ok m" using assms(1) by (auto simp: counters_ok_def)
    have "b = a \<Longrightarrow> (l, b, m) = (labels, a, c)"
      using addrs mem e unfolding distinct_map by (auto dest: inj_onD [of _ _ "(l, a, m)" "(labels, a, c)"])
    then show ?thesis
      using i m ok increments_ok [OF assms(3)] counter_ok_le [OF ok] by (cases "b = a") (auto simp: Family_touch_def)
  qed
  then show ?thesis by (simp add: raised_def same_keys_def)
qed

lemma raised_ok: "raised f f' \<Longrightarrow> counters_ok f \<Longrightarrow> counters_ok f'"
  using same_keys_ok [of f f' counter_class] same_keys_length [of f f']
  by (simp add: counters_ok_def raised_def all_set_conv_all_nth)

lemma raised_trans: "raised f g \<Longrightarrow> raised g h \<Longrightarrow> raised f h"
  using same_keys_trans [of f g h] same_keys_length [of f g] by (auto simp: raised_def intro: dle_trans)

lemma raised_refl: "counters_ok f \<Longrightarrow> raised f f"
  using counter_ok_le by (auto simp: raised_def counters_ok_def)

lemma raised_not_lower:
  assumes "raised f f'" shows "not_lower f f'"
proof -
  have keys: "same_keys f f'" using assms by (simp add: raised_def)
  have "\<exists>e'\<in>set (fam_metrics f'). entry_labels e' = entry_labels e \<and>
      dle (Counter_Value (entry_object e)) (Counter_Value (entry_object e'))" if e: "e \<in> set (fam_metrics f)" for e
  proof -
    obtain i where i: "i < length (fam_metrics f)" "fam_metrics f ! i = e" using e unfolding in_set_conv_nth by blast
    then have "fam_metrics f' ! i \<in> set (fam_metrics f')" using same_keys_length [OF keys] by simp
    moreover have "dle (Counter_Value (entry_object e)) (Counter_Value (entry_object (fam_metrics f' ! i)))"
      using assms i(1) i(2) [symmetric] by (simp add: raised_def)
    moreover have "entry_labels (fam_metrics f' ! i) = entry_labels e" using same_keys_labels [OF keys i(1)] i(2) by simp
    ultimately show ?thesis by blast
  qed
  then show ?thesis using keys by (simp add: not_lower_def same_keys_def)
qed

text \<open>What has been collected lies between the values at the start and now.\<close>

definition counted_inv :: "counter family \<Rightarrow> counter family \<times> client_metric list \<Rightarrow> bool" where
  "counted_inv f0 p \<longleftrightarrow> raised f0 (fst p) \<and> (\<forall>i<length (snd p). i < length (fam_metrics f0) \<longrightarrow>
     dle (Counter_Value (entry_object (fam_metrics f0 ! i))) (counter_value (snd p ! i)) \<and>
     dle (counter_value (snd p ! i)) (Counter_Value (entry_object (fam_metrics (fst p) ! i))))"

lemma counted_inv_step:
  assumes "entry_step counter_class increments p p'" and "counted_inv f0 p" and "counters_ok f0"
  shows "counted_inv f0 p'"
  using assms(1)
proof (cases rule: entry_step.cases)
  case (update labels a m f m' cs)
  have r: "raised f0 f" using assms(2) update(1) by (simp add: counted_inv_def)
  have r': "raised f (Family_touch a (\<lambda>m. m') f)" using raised_touch [OF raised_ok [OF r assms(3)] update(3,4)] .
  have len: "length (fam_metrics f) = length (fam_metrics f0)" using r same_keys_length by (auto simp: raised_def)
  show ?thesis
    using assms(2) raised_trans [OF r r'] r' len unfolding update(1,2) counted_inv_def
    by (auto simp: raised_def intro: dle_trans)
next
  case (collect cs f labels a m clock c m')
  have r: "raised f0 f" using assms(2) collect(1) by (simp add: counted_inv_def)
  have c: "counter_value c = Counter_Value m" "m' = m"
    using collect(5) by (auto simp: CollectMetric_def counter_class_def Counter_Collect_def)
  have same: "f\<lparr>fam_metrics := (fam_metrics f)[length cs := (labels, a, m')]\<rparr> = f"
    using collect(4) c(2) by (metis family.surjective family.update_convs(1) list_update_id)
  have len: "length (fam_metrics f) = length (fam_metrics f0)" using r same_keys_length by (auto simp: raised_def)
  have "counter_ok m" using r collect(3,4) len by (auto simp: raised_def)
  then show ?thesis
    using assms(2) r c(1) collect(3,4) len counter_ok_le [of m] unfolding collect(1,2) same
    by (auto simp: counted_inv_def raised_def nth_append less_Suc_eq)
qed

lemma counted_inv_reach:
  "(entry_step counter_class increments)\<^sup>*\<^sup>* (f, []) p \<Longrightarrow> counters_ok f \<Longrightarrow> counted_inv f p"
proof (induction rule: rtranclp_induct)
  case base
  then show ?case by (simp add: counted_inv_def raised_refl)
qed (rule counted_inv_step)

lemma scrape_counts:
  assumes "family_scrape counter_class increments f families f'" and "counters_ok f"
  shows "raised f f'"
    and "e \<in> set (fam_metrics f) \<Longrightarrow> \<exists>mf\<in>set families. \<exists>c\<in>set (family_metric mf).
      metric_label c = to_labels (fam_constant_labels f) @ to_labels (entry_labels e) \<and>
      dle (Counter_Value (entry_object e)) (counter_value c)"
    and "mf \<in> set families \<Longrightarrow> c \<in> set (family_metric mf) \<Longrightarrow> \<exists>e\<in>set (fam_metrics f').
      metric_label c = to_labels (fam_constant_labels f) @ to_labels (entry_labels e) \<and>
      dle (counter_value c) (Counter_Value (entry_object e))"
proof -
  obtain cs where cs: "(entry_step counter_class increments)\<^sup>*\<^sup>* (f, []) (f', cs)" "length cs = length (fam_metrics f')"
    "families = (if fam_metrics f = [] then []
       else [\<lparr>family_name = fam_name f, family_help = fam_help f, family_type = class_type counter_class, family_metric = cs\<rparr>])"
    using assms(1) by (auto simp: family_scrape_def)
  have inv: "counted_inv f (f', cs)" using cs(1) assms(2) by (rule counted_inv_reach)
  then show raised: "raised f f'" by (simp add: counted_inv_def)
  then have keys: "same_keys f f'" by (simp add: raised_def)
  have len: "length cs = length (fam_metrics f)" using cs(2) same_keys_length [OF keys] by simp
  have labels: "metric_label (cs ! i) = to_labels (fam_constant_labels f) @ to_labels (entry_labels (fam_metrics f ! i))"
    if "i < length cs" for i
    using counters.entry_inv_reach [OF cs(1)] that by (simp add: counters.entry_inv_def)
  have between: "dle (Counter_Value (entry_object (fam_metrics f ! i))) (counter_value (cs ! i))"
    "dle (counter_value (cs ! i)) (Counter_Value (entry_object (fam_metrics f' ! i)))" if "i < length cs" for i
    using inv that len by (simp_all add: counted_inv_def)
  show "\<exists>mf\<in>set families. \<exists>c\<in>set (family_metric mf).
      metric_label c = to_labels (fam_constant_labels f) @ to_labels (entry_labels e) \<and>
      dle (Counter_Value (entry_object e)) (counter_value c)" if e: "e \<in> set (fam_metrics f)"
  proof -
    obtain i where i: "i < length cs" "fam_metrics f ! i = e" using e len unfolding in_set_conv_nth by auto
    have "cs ! i \<in> set cs" using i(1) by simp
    moreover have "fam_metrics f \<noteq> []" using e by auto
    ultimately show ?thesis using labels [OF i(1)] between(1) [OF i(1)] i(2) cs(3) by auto
  qed
  show "\<exists>e\<in>set (fam_metrics f').
      metric_label c = to_labels (fam_constant_labels f) @ to_labels (entry_labels e) \<and>
      dle (counter_value c) (Counter_Value (entry_object e))"
    if mf: "mf \<in> set families" and c: "c \<in> set (family_metric mf)"
  proof -
    have "c \<in> set cs" using mf c cs(3) by (auto split: if_splits)
    then obtain i where i: "i < length cs" "cs ! i = c" unfolding in_set_conv_nth by auto
    then have "fam_metrics f' ! i \<in> set (fam_metrics f')" using cs(2) by simp
    moreover have "entry_labels (fam_metrics f' ! i) = entry_labels (fam_metrics f ! i)"
      using same_keys_labels [OF keys, of i] i(1) len by simp
    ultimately show ?thesis using labels [OF i(1)] between(2) [OF i(1)] i(2) by (intro bexI [of _ "fam_metrics f' ! i"]) simp_all
  qed
qed

lemma counting_step_ok:
  assumes "counting_step f f'" and ok: "counters_ok f"
  shows "counters_ok f' \<and> not_lower f f'"
  using assms(1)
proof (cases rule: counting_step.cases)
  case (add place ls addr r)
  have fam: "family_ok counter_class f'" using family_ok_Add [OF _ add] ok by (simp add: counters_ok_def)
  have obj: "Family_Add_object place counter_class ls addr Counter_default f = (r, f')" using add(5) by (simp add: Family_Add_def)
  note branch = Family_Add_object_cases [OF add(1) obj]
  have "set (fam_metrics f') \<subseteq> insert (ls, addr, Counter_default) (set (fam_metrics f)) \<and>
      set (fam_metrics f) \<subseteq> set (fam_metrics f') \<and> fam_constant_labels f' = fam_constant_labels f"
  proof (cases "find_entry ls f")
    case (Some e)
    then show ?thesis using branch by (simp add: subset_insertI)
  next
    case new: None
    show ?thesis
    proof (cases "add_check (class_type counter_class) (fam_constant_labels f) ls")
      case (Some msg)
      then show ?thesis using branch new by (auto simp: same_family_def dest: mset_eq_setD)
    next
      case None
      then show ?thesis using branch new places_set [OF add(1)] by auto
    qed
  qed
  then have entries: "set (fam_metrics f') \<subseteq> insert (ls, addr, Counter_default) (set (fam_metrics f))"
    and old: "set (fam_metrics f) \<subseteq> set (fam_metrics f')" and const: "fam_constant_labels f' = fam_constant_labels f"
    by blast+
  have "counters_ok f'" using fam entries ok by (auto simp: counters_ok_def)
  moreover have "not_lower f f'"
    unfolding not_lower_def
  proof (intro conjI ballI)
    fix e assume e: "e \<in> set (fam_metrics f)"
    then have "counter_ok (entry_object e)" using ok by (simp add: counters_ok_def)
    then show "\<exists>e'\<in>set (fam_metrics f'). entry_labels e' = entry_labels e \<and>
        dle (Counter_Value (entry_object e)) (Counter_Value (entry_object e'))"
      using e old counter_ok_le by (intro bexI [of _ e]) auto
  qed (rule const)
  ultimately show ?thesis ..
next
  case (increment labels a c c')
  then have "raised f f'" using raised_touch [OF ok] by simp
  then show ?thesis using raised_ok [OF _ ok] raised_not_lower by blast
next
  case (scrape families)
  then have "raised f f'" using scrape_counts(1) [OF _ ok] by blast
  then show ?thesis using raised_ok [OF _ ok] raised_not_lower by blast
qed

lemma counting_steps_ok: "counting_step\<^sup>*\<^sup>* f f' \<Longrightarrow> counters_ok f \<Longrightarrow> counters_ok f' \<and> not_lower f f'"
proof (induction rule: rtranclp_induct)
  case base
  then show ?case using not_lower_refl by blast
next
  case (step g h)
  then show ?case using counting_step_ok [of g h] not_lower_trans [of f g h] by blast
qed

text \<open>C22: What a monitoring server sees of a counter never falls: a family of counters is scraped, then
  other threads increment them, add metrics and scrape in any order, then the family is scraped
  again, increments coming in between the metrics of each scrape. Every series of the first
  scrape is in the second, with the same labels and no lower value.\<close>

theorem scrapes_monotone:
  assumes "counters_ok f0" and "family_scrape counter_class increments f0 families1 f1" and "counting_step\<^sup>*\<^sup>* f1 f2"
    and "family_scrape counter_class increments f2 families2 f3"
    and "mf1 \<in> set families1" and "c1 \<in> set (family_metric mf1)"
  shows "\<exists>mf2\<in>set families2. \<exists>c2\<in>set (family_metric mf2).
    metric_label c2 = metric_label c1 \<and> dle (counter_value c1) (counter_value c2)"
proof -
  have r: "raised f0 f1" using scrape_counts(1) [OF assms(2,1)] .
  note ok1 = raised_ok [OF r assms(1)]
  note ok2 = counting_steps_ok [OF assms(3) ok1]
  have const: "fam_constant_labels f2 = fam_constant_labels f0"
    using r ok2 by (simp add: raised_def same_keys_def not_lower_def)
  obtain e1 where e1: "e1 \<in> set (fam_metrics f1)"
    "metric_label c1 = to_labels (fam_constant_labels f0) @ to_labels (entry_labels e1)"
    "dle (counter_value c1) (Counter_Value (entry_object e1))"
    using scrape_counts(3) [OF assms(2,1,5,6)] by blast
  obtain e2 where e2: "e2 \<in> set (fam_metrics f2)" "entry_labels e2 = entry_labels e1"
    "dle (Counter_Value (entry_object e1)) (Counter_Value (entry_object e2))"
    using ok2 e1(1) unfolding not_lower_def by blast
  obtain mf2 c2 where c2: "mf2 \<in> set families2" "c2 \<in> set (family_metric mf2)"
    "metric_label c2 = to_labels (fam_constant_labels f2) @ to_labels (entry_labels e2)"
    "dle (Counter_Value (entry_object e2)) (counter_value c2)"
    using scrape_counts(2) [OF assms(4) conjunct1 [OF ok2] e2(1)] by blast
  have "dle (counter_value c1) (counter_value c2)" using dle_trans [OF dle_trans [OF e1(3) e2(3)] c2(4)] .
  then show ?thesis using c2 e1(2) e2(2) const by (intro bexI [of _ mf2] bexI [of _ c2]) simp_all
qed

definition counted_demo :: "counter \<Rightarrow> counter family" where
  "counted_demo c = demo_family\<lparr>fam_metrics := [([(''path'', ''/'')], 7, c)]\<rparr>"

definition counted_demo_metric :: "counter \<Rightarrow> client_metric" where
  "counted_demo_metric c = (Counter_Collect c)\<lparr>metric_label := to_labels [(''host'', ''a''), (''path'', ''/'')]\<rparr>"

definition counted_demo_report :: "counter \<Rightarrow> metric_family" where
  "counted_demo_report c = \<lparr>family_name = ''requests'', family_help = '''', family_type = Counter,
     family_metric = [counted_demo_metric c]\<rparr>"

lemma counted_demo_scrape: "family_scrape counter_class increments (counted_demo c) [counted_demo_report c] (counted_demo c)"
  by (rule Family_Collect_scrape [of _ "\<lambda>a i. 0"])
    (simp add: Family_Collect_def CollectMetric_def counter_class_def counted_demo_def counted_demo_report_def
      counted_demo_metric_def demo_family_def to_labels_def)

theorem scrapes_monotone_witness:
  "\<exists>c2. family_scrape counter_class increments (counted_demo (Counter_Increment Counter_default))
       [counted_demo_report (Counter_Increment Counter_default)] (counted_demo (Counter_Increment Counter_default)) \<and>
     c2 \<in> set (family_metric (counted_demo_report (Counter_Increment Counter_default))) \<and> dle (Fin 0) (counter_value c2)"
proof -
  let ?f = "counted_demo Counter_default" and ?g = "counted_demo (Counter_Increment Counter_default)"
  have "CheckMetricName ''requests''" "CheckLabelName ''host'' Counter" "CheckLabelName ''path'' Counter" by code_simp+
  then have ok: "counters_ok ?f"
    by (simp add: counters_ok_def family_ok_def counted_demo_def demo_family_def labels_valid_def wf_labels_def
        disjoint_keys_def counter_class_def)
  have "counting_step ?f (Family_touch 7 (\<lambda>c. Counter_Increment Counter_default) ?f)"
    by (rule counting_step.increment [of "[(''path'', ''/'')]" 7 Counter_default])
      (simp_all add: counted_demo_def increments.intros)
  then have steps: "counting_step\<^sup>*\<^sup>* ?f ?g" by (simp add: Family_touch_def counted_demo_def)
  have mf: "counted_demo_report Counter_default \<in> set [counted_demo_report Counter_default]" by simp
  have c: "counted_demo_metric Counter_default \<in> set (family_metric (counted_demo_report Counter_default))"
    by (simp add: counted_demo_report_def)
  have "counter_value (counted_demo_metric Counter_default) = Fin 0" by (simp add: counted_demo_metric_def Counter_Collect_def)
  with scrapes_monotone [OF ok counted_demo_scrape steps counted_demo_scrape mf c] show ?thesis
    using counted_demo_scrape [of "Counter_Increment Counter_default"] by auto
qed

end
