(* ===== verification/Collectables.thy ===== *)
theory Collectables
  imports Registry Exposition
begin

text \<open>
  \<open>pull/src/metrics_collector.cc\<close>, and what the exposer and the push gateway share: weak
  pointers to collectable objects. The objects that are alive are a map from addresses to their
  states; a weak pointer is an address and is expired when nothing is there. An object is a
  registry or an object of a class of the user's that implements \<open>Collectable\<close>, whose \<open>Collect\<close>
  is the argument \<open>user\<close>.
\<close>

subsection \<open>Objects and weak pointers\<close>

type_synonym clock = "nat \<Rightarrow> nat \<Rightarrow> int"

datatype 'o collectable_object = Registry_object registry | User_object 'o

type_synonym 'o heap = "nat \<rightharpoonup> 'o collectable_object"

type_synonym 'o user_collect = "clock \<Rightarrow> 'o \<Rightarrow> (metric_family list \<times> 'o) option"

fun Collectable_Collect :: "'o user_collect \<Rightarrow> clock \<Rightarrow> 'o collectable_object \<Rightarrow>
    (metric_family list \<times> 'o collectable_object) option" where
  "Collectable_Collect user clock (Registry_object r) =
     map_option (apsnd Registry_object) (Registry_Collect clock r)"
| "Collectable_Collect user clock (User_object c) = map_option (apsnd User_object) (user clock c)"

definition weak_expired :: "'o heap \<Rightarrow> nat \<Rightarrow> bool" where
  "weak_expired heap p \<longleftrightarrow> heap p = None"

text \<open>\<open>clocks i\<close> are the clock readings while the \<open>i\<close>-th pointer is collected.\<close>

fun CollectMetrics :: "'o user_collect \<Rightarrow> (nat \<Rightarrow> clock) \<Rightarrow> nat \<Rightarrow> nat list \<Rightarrow> 'o heap \<Rightarrow>
    (metric_family list \<times> 'o heap) option" where
  "CollectMetrics user clocks i [] heap = Some ([], heap)"
| "CollectMetrics user clocks i (p # ps) heap =
     (case heap p of
        None \<Rightarrow> CollectMetrics user clocks (i + 1) ps heap
      | Some object \<Rightarrow>
          do {
            (metrics, object) \<leftarrow> Collectable_Collect user (clocks i) object;
            (collected, heap) \<leftarrow> CollectMetrics user clocks (i + 1) ps (heap(p \<mapsto> object));
            Some (metrics @ collected, heap)
          })"

subsection \<open>What the objects guarantee together\<close>

fun object_ok :: "('o \<Rightarrow> bool) \<Rightarrow> 'o collectable_object \<Rightarrow> bool" where
  "object_ok user_ok (Registry_object r) = registry_ok r"
| "object_ok user_ok (User_object c) = user_ok c"

definition heap_ok :: "('o \<Rightarrow> bool) \<Rightarrow> 'o heap \<Rightarrow> bool" where
  "heap_ok user_ok heap \<longleftrightarrow> (\<forall>c\<in>ran heap. object_ok user_ok c)"

lemma heap_okD: "heap_ok user_ok heap \<Longrightarrow> heap p = Some c \<Longrightarrow> object_ok user_ok c"
  by (auto simp: heap_ok_def ran_def)

lemma heap_ok_update: "heap_ok user_ok heap \<Longrightarrow> object_ok user_ok c \<Longrightarrow> heap_ok user_ok (heap(p \<mapsto> c))"
  by (auto simp: heap_ok_def ran_def)

text \<open>If the user's class keeps the contract of a collectable, so do all objects together.\<close>

locale user_collectable = collectable user user_ok
  for user :: "'o user_collect" and user_ok :: "'o \<Rightarrow> bool"
begin

lemma object_inv: "object_ok user_ok c \<Longrightarrow> Collectable_Collect user clock c = Some (fs, c') \<Longrightarrow> object_ok user_ok c'"
  by (cases c) (auto intro: registry_ok_Collect collect_inv)

lemma object_wf:
  "object_ok user_ok c \<Longrightarrow> Collectable_Collect user clock c = Some (fs, c') \<Longrightarrow> mf \<in> set fs \<Longrightarrow> wf_metric_family mf"
  by (cases c) (auto intro: registry.collect_wf collect_wf)

end

sublocale user_collectable \<subseteq> objects: collectable "Collectable_Collect user" "object_ok user_ok"
  by unfold_locales (rule object_inv object_wf; assumption)+

text \<open>A registry used as the user's object is one.\<close>

interpretation nested: user_collectable Registry_Collect registry_ok
  by (intro user_collectable.intro registry.collectable_axioms)

context user_collectable begin

lemma CollectMetrics_ok:
  "CollectMetrics user clocks i ps heap = Some (fs, heap') \<Longrightarrow> heap_ok user_ok heap \<Longrightarrow>
     heap_ok user_ok heap' \<and> dom heap' = dom heap \<and> (\<forall>mf\<in>set fs. wf_metric_family mf)"
proof (induction ps arbitrary: i heap fs)
  case (Cons p ps)
  show ?case
  proof (cases "heap p")
    case None
    then show ?thesis using Cons by simp
  next
    case (Some c)
    then obtain m1 c' m2 where c: "Collectable_Collect user (clocks i) c = Some (m1, c')"
      "CollectMetrics user clocks (i + 1) ps (heap(p \<mapsto> c')) = Some (m2, heap')" "fs = m1 @ m2"
      using Cons.prems by (auto simp: bind_eq_Some_conv)
    have c': "object_ok user_ok c'" "\<forall>mf\<in>set m1. wf_metric_family mf"
      using heap_okD [OF Cons.prems(2) Some] objects.collect_inv c(1) objects.collect_wf [OF _ c(1)] by blast+
    have "heap_ok user_ok heap' \<and> dom heap' = dom (heap(p \<mapsto> c')) \<and> (\<forall>mf\<in>set m2. wf_metric_family mf)"
      using Cons.IH [OF c(2)] heap_ok_update [OF Cons.prems(2) c'(1)] by blast
    moreover have "dom (heap(p \<mapsto> c')) = dom heap" using Some by auto
    ultimately show ?thesis using c'(2) by (auto simp: c(3))
  qed
qed simp

end

end
