(* ===== verification/Base64.thy ===== *)
theory Base64
  imports Prelude
begin

unbundle bit_operations_syntax

text \<open>
  The base64 routines of \<open>util/include/prometheus/detail/base64.h\<close>. Strings are byte
  lists (\<open>char list\<close>); the accumulator \<open>temp\<close> is a 32-bit word, so shifted-out bits are
  lost as in the code. The two kinds of \<open>std::runtime_error\<close> and the invalid length are the
  left side of the result.
\<close>

subsection \<open>The code\<close>

datatype base64_error = Invalid_length | Invalid_padding | Invalid_character | Past_end

definition kEncodeLookup :: string where
  "kEncodeLookup = ''ABCDEFGHIJKLMNOPQRSTUVWXYZabcdefghijklmnopqrstuvwxyz0123456789+/''"

definition kPadCharacter :: char where
  "kPadCharacter = CHR ''=''"

text \<open>\<open>static_cast<std::uint8_t>(c)\<close>, widened to the type of \<open>temp\<close>.\<close>

definition byte_of :: "char \<Rightarrow> u32" where
  "byte_of c = of_char c"

definition enc_char :: "u32 \<Rightarrow> char" where
  "enc_char w = kEncodeLookup ! unat w"

definition sextet0 :: "u32 \<Rightarrow> u32" where "sextet0 t = drop_bit 18 (t AND 0x00FC0000)"
definition sextet1 :: "u32 \<Rightarrow> u32" where "sextet1 t = drop_bit 12 (t AND 0x0003F000)"
definition sextet2 :: "u32 \<Rightarrow> u32" where "sextet2 t = drop_bit 6 (t AND 0x00000FC0)"
definition sextet3 :: "u32 \<Rightarrow> u32" where "sextet3 t = t AND 0x0000003F"

text \<open>
  The \<open>for\<close> loop over whole groups of three bytes: the encoded text and the iterator's
  remaining input. The switch on the remainder follows.
\<close>

fun encode_groups :: "nat \<Rightarrow> string \<Rightarrow> string \<times> string" where
  "encode_groups (Suc n) (a # b # c # it) =
     (let temp = push_bit 16 (byte_of a);
          temp = temp + push_bit 8 (byte_of b);
          temp = temp + byte_of c;
          (encoded, rest) = encode_groups n it
      in ([enc_char (sextet0 temp), enc_char (sextet1 temp),
           enc_char (sextet2 temp), enc_char (sextet3 temp)] @ encoded, rest))"
| "encode_groups _ it = ([], it)"

fun encode_rest :: "string \<Rightarrow> string" where
  "encode_rest [a] =
     (let temp = push_bit 16 (byte_of a)
      in [enc_char (sextet0 temp), enc_char (sextet1 temp), kPadCharacter, kPadCharacter])"
| "encode_rest [a, b] =
     (let temp = push_bit 16 (byte_of a);
          temp = temp + push_bit 8 (byte_of b)
      in [enc_char (sextet0 temp), enc_char (sextet1 temp), enc_char (sextet2 temp), kPadCharacter])"
| "encode_rest _ = []"

definition base64_encode :: "string \<Rightarrow> string" where
  "base64_encode input =
     (let (encoded, it) = encode_groups (length input div 3) input
      in encoded @ encode_rest it)"

definition url_char :: "char \<Rightarrow> char" where
  "url_char c = (if c = CHR ''+'' then CHR ''-'' else if c = CHR ''/'' then CHR ''_'' else c)"

definition base64url_encode :: "string \<Rightarrow> string" where
  "base64url_encode input = map url_char (base64_encode input)"

text \<open>
  The value a character adds to \<open>temp\<close>, \<open>None\<close> for a character outside the alphabet (the
  pad character among them). A negative \<open>char\<close> fails every range test of the code, as a
  byte above 127 fails every test here.
\<close>

definition dec_char :: "char \<Rightarrow> u32 option" where
  "dec_char c = (let x = byte_of c in
     if 0x41 \<le> x \<and> x \<le> 0x5A then Some (x - 0x41)
     else if 0x61 \<le> x \<and> x \<le> 0x7A then Some (x - 0x47)
     else if 0x30 \<le> x \<and> x \<le> 0x39 then Some (x + 0x04)
     else if x = 0x2B then Some 0x3E
     else if x = 0x2F then Some 0x3F
     else None)"

definition low_byte :: "u32 \<Rightarrow> char" where
  "low_byte t = char_of (unat (t AND 0x000000FF))"

text \<open>
  The two nested loops: \<open>i\<close> is the inner counter, the third argument the rest of the input
  from the iterator on. \<open>Past_end\<close> would be a read behind the end of the input.
\<close>

fun decode_loop :: "u32 \<Rightarrow> nat \<Rightarrow> string \<Rightarrow> string \<Rightarrow> base64_error + string" where
  "decode_loop temp i [] decoded = (if i = 0 then Inr decoded else Inl Past_end)"
| "decode_loop temp i (c # it) decoded =
     (let temp = push_bit 6 temp in
      case dec_char c of
        Some v \<Rightarrow>
          (let temp = temp OR v in
           if i = 3 then
             decode_loop temp 0 it
               (decoded @ [low_byte (drop_bit 16 temp), low_byte (drop_bit 8 temp), low_byte temp])
           else decode_loop temp (i + 1) it decoded)
      | None \<Rightarrow>
          if c = kPadCharacter then
            (case length (c # it) of
               Suc 0 \<Rightarrow> Inr (decoded @ [low_byte (drop_bit 16 temp), low_byte (drop_bit 8 temp)])
             | Suc (Suc 0) \<Rightarrow> Inr (decoded @ [low_byte (drop_bit 10 temp)])
             | _ \<Rightarrow> Inl Invalid_padding)
          else Inl Invalid_character)"

definition base64_decode :: "string \<Rightarrow> base64_error + string" where
  "base64_decode input =
     (if length input mod 4 \<noteq> 0 then Inl Invalid_length else decode_loop 0 0 input [])"

subsection \<open>The alphabet\<close>

definition sextet :: "u32 \<Rightarrow> bool" where
  "sextet w \<longleftrightarrow> unat w < 64"

lemma all_sextets: "list_all (\<lambda>n. dec_char (kEncodeLookup ! n) = Some (of_nat n)) [0..<64]"
  by code_simp

lemma dec_enc_char [simp]: "sextet w \<Longrightarrow> dec_char (enc_char w) = Some w"
  using all_sextets by (auto simp: list_all_iff sextet_def enc_char_def)

lemma dec_char_pad [simp]: "dec_char kPadCharacter = None"
  by code_simp

lemma length_kEncodeLookup [simp]: "length kEncodeLookup = 64"
  by code_simp

lemma enc_char_in: "sextet w \<Longrightarrow> enc_char w \<in> set kEncodeLookup"
  by (simp add: sextet_def enc_char_def)

lemma sextet_parts:
  "sextet0 t = take_bit 6 (drop_bit 18 t)" "sextet1 t = take_bit 6 (drop_bit 12 t)"
  "sextet2 t = take_bit 6 (drop_bit 6 t)" "sextet3 t = take_bit 6 t"
  by (simp_all add: sextet0_def sextet1_def sextet2_def sextet3_def take_bit_eq_mask mask_eq_exp_minus_1
      drop_bit_and)

lemma sextet_take_bit [simp]: "sextet (take_bit 6 w)"
  using take_bit_nat_less_exp [of 6 "unat w"] by (simp add: sextet_def unsigned_take_bit_eq)

lemma sextets [simp]: "sextet (sextet0 t)" "sextet (sextet1 t)" "sextet (sextet2 t)" "sextet (sextet3 t)"
  by (simp_all add: sextet_parts)

subsection \<open>Packing and unpacking a group\<close>

definition unpack4 :: "u32 \<Rightarrow> u32 \<Rightarrow> u32" where
  "unpack4 t w = push_bit 6 (push_bit 6 (push_bit 6 (push_bit 6 t OR sextet0 w) OR sextet1 w)
     OR sextet2 w) OR sextet3 w"

lemma bit_unpack4: "n < 24 \<Longrightarrow> bit (unpack4 t w) n \<longleftrightarrow> bit w n"
  unfolding unpack4_def sextet_parts
  by (cases "n < 6"; cases "n < 12"; cases "n < 18") (auto simp: bit_simps not_less less_diff_conv2)

lemma low_byte_cong: "(\<And>n. n < 8 \<Longrightarrow> bit v n = bit w n) \<Longrightarrow> low_byte v = low_byte w"
proof -
  assume *: "\<And>n. n < 8 \<Longrightarrow> bit v n = bit w n"
  have "take_bit 8 v = take_bit 8 w"
    by (rule bit_word_eqI) (auto simp: bit_simps *)
  then show ?thesis by (simp add: low_byte_def take_bit_eq_mask mask_eq_exp_minus_1)
qed

lemma bit_byte_of: "bit (byte_of c) n \<Longrightarrow> n < 8"
proof -
  assume "bit (byte_of c) n"
  moreover have "byte_of c = take_bit 8 (byte_of c)"
    by (cases c) (simp add: byte_of_def)
  ultimately show ?thesis by (metis bit_take_bit_iff)
qed

lemma unat_byte_of [simp]: "unat (byte_of c) = of_char c"
proof -
  have "byte_of c = of_nat (of_char c)" by (simp add: byte_of_def of_nat_of_char)
  moreover have "(of_char c :: nat) < 2 ^ LENGTH(32)"
    by (rule less_trans [OF nat_of_char_less_256]) simp
  ultimately show ?thesis by (simp only: unat_of_nat mod_less)
qed

lemma low_byte_byte_of [simp]: "low_byte (byte_of c) = c"
proof -
  have "byte_of c AND 255 = take_bit 8 (byte_of c)"
    by (simp add: take_bit_eq_mask mask_eq_exp_minus_1)
  also have "\<dots> = byte_of c"
    by (rule bit_word_eqI) (auto simp: bit_simps dest: bit_byte_of)
  finally show ?thesis by (simp add: low_byte_def)
qed

definition pack3 :: "char \<Rightarrow> char \<Rightarrow> char \<Rightarrow> u32" where
  "pack3 a b c = push_bit 16 (byte_of a) + push_bit 8 (byte_of b) + byte_of c"

lemma pack3_or: "pack3 a b c = (push_bit 16 (byte_of a) OR push_bit 8 (byte_of b)) OR byte_of c"
proof -
  have ab: "push_bit 16 (byte_of a) + push_bit 8 (byte_of b)
      = push_bit 16 (byte_of a) OR push_bit 8 (byte_of b)"
    by (rule disjunctive_add_eq_or) (auto intro!: bit_word_eqI simp: bit_simps dest!: bit_byte_of)
  show ?thesis unfolding pack3_def ab
    by (rule disjunctive_add_eq_or) (auto intro!: bit_word_eqI simp: bit_simps dest!: bit_byte_of)
qed

lemma low_byte_pack3 [simp]:
  "low_byte (drop_bit 16 (pack3 a b c)) = a"
  "low_byte (drop_bit 8 (pack3 a b c)) = b"
  "low_byte (pack3 a b c) = c"
proof -
  have "low_byte (drop_bit 16 (pack3 a b c)) = low_byte (byte_of a)"
    by (rule low_byte_cong) (auto simp: pack3_or bit_simps dest: bit_byte_of)
  then show "low_byte (drop_bit 16 (pack3 a b c)) = a" by simp
  have "low_byte (drop_bit 8 (pack3 a b c)) = low_byte (byte_of b)"
    by (rule low_byte_cong) (auto simp: pack3_or bit_simps dest: bit_byte_of)
  then show "low_byte (drop_bit 8 (pack3 a b c)) = b" by simp
  have "low_byte (pack3 a b c) = low_byte (byte_of c)"
    by (rule low_byte_cong) (auto simp: pack3_or bit_simps dest: bit_byte_of)
  then show "low_byte (pack3 a b c) = c" by simp
qed

text \<open>Whatever the accumulator held before, the low three bytes are those of the group.\<close>

lemma low_byte_unpack4:
  "low_byte (drop_bit 16 (unpack4 t w)) = low_byte (drop_bit 16 w)"
  "low_byte (drop_bit 8 (unpack4 t w)) = low_byte (drop_bit 8 w)"
  "low_byte (unpack4 t w) = low_byte w"
  by (rule low_byte_cong; simp add: bit_simps bit_unpack4)+

subsection \<open>Round trip\<close>

lemma decode_group:
  "decode_loop t 0 (enc_char (sextet0 w) # enc_char (sextet1 w) # enc_char (sextet2 w)
       # enc_char (sextet3 w) # it) decoded
   = decode_loop (unpack4 t w) 0 it
       (decoded @ [low_byte (drop_bit 16 w), low_byte (drop_bit 8 w), low_byte w])"
proof -
  have "decode_loop t 0 (enc_char (sextet0 w) # enc_char (sextet1 w) # enc_char (sextet2 w)
       # enc_char (sextet3 w) # it) decoded
   = decode_loop (unpack4 t w) 0 it (decoded @ [low_byte (drop_bit 16 (unpack4 t w)),
       low_byte (drop_bit 8 (unpack4 t w)), low_byte (unpack4 t w)])"
    by (simp add: Let_def unpack4_def del: push_bit_or drop_bit_or push_bit_push_bit)
  then show ?thesis by (simp only: low_byte_unpack4)
qed

lemma decode_pad2:
  "decode_loop t 0 [enc_char (sextet0 w), enc_char (sextet1 w), kPadCharacter, kPadCharacter] decoded
   = Inr (decoded @ [low_byte (drop_bit 16 w)])"
proof -
  have "low_byte (drop_bit 10 (push_bit 6 (push_bit 6 (push_bit 6 t OR sextet0 w) OR sextet1 w)))
      = low_byte (drop_bit 16 w)"
    unfolding sextet_parts
    by (rule low_byte_cong) (auto simp: bit_simps not_less less_diff_conv2)
  then show ?thesis by (simp add: Let_def)
qed

lemma decode_pad1:
  "decode_loop t 0 [enc_char (sextet0 w), enc_char (sextet1 w), enc_char (sextet2 w), kPadCharacter] decoded
   = Inr (decoded @ [low_byte (drop_bit 16 w), low_byte (drop_bit 8 w)])"
proof -
  let ?x = "push_bit 6 (push_bit 6 (push_bit 6 (push_bit 6 t OR sextet0 w) OR sextet1 w) OR sextet2 w)"
  have "low_byte (drop_bit 16 ?x) = low_byte (drop_bit 16 w)"
    unfolding sextet_parts
    by (rule low_byte_cong) (auto simp: bit_simps not_less less_diff_conv2)
  moreover have "low_byte (drop_bit 8 ?x) = low_byte (drop_bit 8 w)"
    unfolding sextet_parts
    by (rule low_byte_cong) (auto simp: bit_simps not_less less_diff_conv2)
  ultimately show ?thesis by (simp add: Let_def)
qed

lemma encode_step:
  "base64_encode (a # b # c # it) =
     [enc_char (sextet0 (pack3 a b c)), enc_char (sextet1 (pack3 a b c)),
      enc_char (sextet2 (pack3 a b c)), enc_char (sextet3 (pack3 a b c))] @ base64_encode it"
proof -
  have "length (a # b # c # it) div 3 = Suc (length it div 3)" by simp
  then show ?thesis
    unfolding base64_encode_def pack3_def by (simp only: encode_groups.simps Let_def) (simp split: prod.splits)
qed

lemma encode_short:
  "base64_encode [] = []"
  "base64_encode [a] = [enc_char (sextet0 (push_bit 16 (byte_of a))),
     enc_char (sextet1 (push_bit 16 (byte_of a))), kPadCharacter, kPadCharacter]"
  "base64_encode [a, b] =
    (let t = push_bit 16 (byte_of a) + push_bit 8 (byte_of b)
     in [enc_char (sextet0 t), enc_char (sextet1 t), enc_char (sextet2 t), kPadCharacter])"
  by (simp_all add: base64_encode_def Let_def)

text \<open>Induction over the groups of three bytes, as the encoder reads them.\<close>

lemma group_induct [case_names Nil One Two Group]:
  assumes "P []" and "\<And>a. P [a]" and "\<And>a b. P [a, b]"
    and "\<And>a b c it. P it \<Longrightarrow> P (a # b # c # it)"
  shows "P (xs :: 'a list)"
proof (induction "length xs" arbitrary: xs rule: less_induct)
  case less
  consider "xs = []" | a where "xs = [a]" | a b where "xs = [a, b]"
    | a b c it where "xs = a # b # c # it"
    by (metis neq_Nil_conv)
  then show ?case
  proof cases
    case 4
    then have "P it" by (intro less) simp
    then show ?thesis unfolding 4 by (rule assms(4))
  qed (simp_all add: assms)
qed

lemma pack3_two: "push_bit 16 (byte_of a) + push_bit 8 (byte_of b) = pack3 a b (CHR 0x00)"
  by (simp add: pack3_def byte_of_def)

lemma pack3_one: "push_bit 16 (byte_of a) = pack3 a (CHR 0x00) (CHR 0x00)"
  by (simp add: pack3_def byte_of_def)

lemma decode_loop_encode: "decode_loop t 0 (base64_encode s) decoded = Inr (decoded @ s)"
proof (induction s arbitrary: t decoded rule: group_induct)
  case Nil
  then show ?case by (simp add: encode_short)
next
  case (One a)
  then show ?case by (simp only: encode_short pack3_one decode_pad2 low_byte_pack3)
next
  case (Two a b)
  then show ?case by (simp only: encode_short pack3_two Let_def decode_pad1 low_byte_pack3)
next
  case (Group a b c it)
  then show ?case
    by (simp only: encode_step append_Cons append_Nil decode_group low_byte_pack3 append_assoc)
qed

lemma length_base64_encode: "length (base64_encode s) = 4 * ((length s + 2) div 3)"
proof (induction s rule: group_induct)
  case (Group a b c it)
  have "length (a # b # c # it) + 2 = 3 + (length it + 2)" by simp
  also have "(3 + (length it + 2)) div 3 = Suc ((length it + 2) div 3)"
    by (subst div_add_self1) simp_all
  finally have "(length (a # b # c # it) + 2) div 3 = Suc ((length it + 2) div 3)" .
  then show ?case using Group by (simp only: encode_step) simp
qed (simp_all add: encode_short Let_def)

lemma base64_decode_encode [simp]: "base64_decode (base64_encode s) = Inr s"
  by (simp add: base64_decode_def length_base64_encode decode_loop_encode)

subsection \<open>The interface of a byte codec\<close>

text \<open>
  What the clients (the label encoder, the basic authentication, the exposition format)
  rely on: decoding undoes encoding. The encoder is then injective, and the decoder succeeds
  on everything the encoder produces.
\<close>

locale byte_codec =
  fixes enc :: "string \<Rightarrow> string" and dec :: "string \<Rightarrow> 'e + string"
  assumes dec_enc: "dec (enc s) = Inr s"
begin

lemma enc_inject: "enc s = enc t \<longleftrightarrow> s = t"
  by (metis dec_enc Inr_inject)

lemma dec_of_image: "x \<in> range enc \<Longrightarrow> \<exists>s. dec x = Inr s \<and> x = enc s"
  by (auto simp: dec_enc)

lemma enc_eq_dec: "enc s = x \<Longrightarrow> dec x = Inr s"
  by (auto simp: dec_enc)

end

interpretation b64: byte_codec base64_encode base64_decode
  by unfold_locales (rule base64_decode_encode)

subsection \<open>The alphabet of the encoded text\<close>

definition base64_alphabet :: "char set" where
  "base64_alphabet = insert kPadCharacter (set kEncodeLookup)"

definition base64url_alphabet :: "char set" where
  "base64url_alphabet =
     set ''ABCDEFGHIJKLMNOPQRSTUVWXYZabcdefghijklmnopqrstuvwxyz0123456789-_=''"

lemma set_base64_encode: "set (base64_encode s) \<subseteq> base64_alphabet"
  by (induction s rule: group_induct)
    (auto simp: encode_short encode_step Let_def base64_alphabet_def enc_char_in)

lemma url_char_alphabet: "c \<in> base64_alphabet \<Longrightarrow> url_char c \<in> base64url_alphabet"
  by (auto simp: base64_alphabet_def kPadCharacter_def kEncodeLookup_def base64url_alphabet_def url_char_def)

lemma set_base64url_encode: "set (base64url_encode s) \<subseteq> base64url_alphabet"
  using set_base64_encode [of s] url_char_alphabet by (auto simp: base64url_encode_def)

text \<open>The standard alphabet is recovered by mapping the two characters back.\<close>

definition url_char_inv :: "char \<Rightarrow> char" where
  "url_char_inv c = (if c = CHR ''-'' then CHR ''+'' else if c = CHR ''_'' then CHR ''/'' else c)"

lemma url_char_inv: "c \<in> base64_alphabet \<Longrightarrow> url_char_inv (url_char c) = c"
  by (auto simp: base64_alphabet_def kPadCharacter_def kEncodeLookup_def url_char_inv_def url_char_def)

definition base64url_decode :: "string \<Rightarrow> base64_error + string" where
  "base64url_decode input = base64_decode (map url_char_inv input)"

lemma base64url_decode_encode: "base64url_decode (base64url_encode s) = Inr s"
proof -
  have "map (\<lambda>c. url_char_inv (url_char c)) (base64_encode s) = base64_encode s"
    using set_base64_encode [of s] by (intro map_idI url_char_inv) auto
  then show ?thesis by (simp add: base64url_decode_def base64url_encode_def o_def)
qed

interpretation b64url: byte_codec base64url_encode base64url_decode
  by unfold_locales (rule base64url_decode_encode)

subsection \<open>The decoder on arbitrary input\<close>

lemma decode_loop_no_past_end:
  "i < 4 \<Longrightarrow> (i + length it) mod 4 = 0 \<Longrightarrow> decode_loop t i it d \<noteq> Inl Past_end"
proof (induction t i it d rule: decode_loop.induct)
  case (1 temp i decoded)
  then show ?case by simp
next
  case (2 temp i c it decoded)
  show ?case
  proof (cases "dec_char c")
    case None
    then show ?thesis by (auto simp: Let_def split: nat.splits)
  next
    case (Some v)
    show ?thesis
    proof (cases "i = 3")
      case True
      then have "(0 + length it) mod 4 = 0" using "2.prems"(2) by (simp add: mod_Suc split: if_splits)
      then show ?thesis using "2.IH"(1) [OF refl Some refl True] Some True by (simp add: Let_def)
    next
      case False
      then have "i + 1 < 4" "(i + 1 + length it) mod 4 = 0" using "2.prems" by simp_all
      then show ?thesis using "2.IH"(2) [OF refl Some refl False] Some False by (simp add: Let_def)
    qed
  qed
qed

lemma base64_decode_no_past_end: "base64_decode s \<noteq> Inl Past_end"
  by (simp add: base64_decode_def decode_loop_no_past_end)

lemma decode_loop_length:
  "decode_loop t i it d = Inr r \<Longrightarrow> i < 4 \<Longrightarrow> (i + length it) mod 4 = 0 \<Longrightarrow>
   4 * length r \<le> 4 * length d + 3 * (i + length it)"
proof (induction t i it d rule: decode_loop.induct)
  case (1 temp i decoded)
  then show ?case by (simp split: if_splits)
next
  case (2 temp i c it decoded)
  show ?case
  proof (cases "dec_char c")
    case None
    then have "length it = 0 \<or> length it = 1" "length r \<le> length decoded + (2 - length it)"
      using "2.prems" by (auto simp: Let_def split: nat.splits if_splits)
    moreover have "i + length it = 3 \<or> 4 \<le> i + length it" using "2.prems"(2,3) by simp presburger
    ultimately show ?thesis by auto
  next
    case (Some v)
    show ?thesis
    proof (cases "i = 3")
      case True
      then have "(0 + length it) mod 4 = 0" using "2.prems"(3) by (simp add: mod_Suc split: if_splits)
      then show ?thesis using "2.IH"(1) [OF refl Some refl True] "2.prems" Some True by (simp add: Let_def)
    next
      case False
      then show ?thesis using "2.IH"(2) [OF refl Some refl False] "2.prems" Some by (simp add: Let_def)
    qed
  qed
qed

lemma base64_decode_length:
  "base64_decode s = Inr r \<Longrightarrow> length r \<le> 3 * (length s div 4)"
  using decode_loop_length [of 0 0 s "[]" r] by (auto simp: base64_decode_def split: if_splits)

subsection \<open>Properties\<close>

text \<open>C31: Decoding what was encoded gives the bytes back, for every byte string; the encoded
  text has four characters per started group of three and only those of the alphabet.\<close>

theorem base64_roundtrip:
  "base64_decode (base64_encode s) = Inr s \<and>
   length (base64_encode s) = 4 * ((length s + 2) div 3) \<and>
   set (base64_encode s) \<subseteq> base64_alphabet"
  by (simp add: length_base64_encode set_base64_encode b64.dec_enc)

text \<open>The decoder is safe on arbitrary input: its iterator never passes the end of the
  input (no state of the loops reads there), and it returns at most three bytes per group of four.\<close>

theorem base64_decode_safe:
  "base64_decode s \<noteq> Inl Past_end \<and>
   (case base64_decode s of Inr r \<Rightarrow> length r \<le> 3 * (length s div 4) | Inl e \<Rightarrow> True)"
  using base64_decode_no_past_end base64_decode_length by (auto split: sum.splits)

text \<open>A pad character may be followed by any character, and the bits the padding leaves over
  are not checked: several texts decode to the same bytes.\<close>

lemma lax_padding:
  "base64_decode ''Zg=A'' = Inr ''f''" "base64_decode ''Zh=='' = Inr ''f''" "base64_encode ''f'' = ''Zg==''"
  by code_simp+

end
