(* ===== verification/BasicAuth.thy ===== *)
theory BasicAuth
  imports CheckNames Base64
begin

text \<open>
  \<open>pull/src/basic_auth.cc\<close>: HTTP basic authentication. A connection is the header fields of the
  request, as \<open>mg_get_header\<close> gives them, and the text written to it so far, by \<open>mg_printf\<close> and
  \<open>mg_write\<close>.
\<close>

subsection \<open>Connections\<close>

record connection =
  conn_header :: "string \<Rightarrow> string option"
  conn_out :: string

definition conn_write :: "string \<Rightarrow> connection \<Rightarrow> connection" where
  "conn_write s conn = conn\<lparr>conn_out := conn_out conn @ s\<rparr>"

abbreviation crlf :: string where "crlf \<equiv> [CHR 0x0D, CHR 0x0A]"
abbreviation quote_char :: char where "quote_char \<equiv> CHR 0x22"

text \<open>The C string of a \<open>std::string\<close>, and \<open>std::string::find\<close> of a character.\<close>

definition until_null :: "string \<Rightarrow> string" where
  "until_null s = takeWhile (\<lambda>c. c \<noteq> CHR 0x00) s"

fun find_char :: "char \<Rightarrow> string \<Rightarrow> nat option" where
  "find_char c [] = None"
| "find_char c (d # ds) = (if d = c then Some 0 else map_option Suc (find_char c ds))"

lemma find_char_Some: "find_char c s = Some n \<longleftrightarrow> n < length s \<and> s ! n = c \<and> c \<notin> set (take n s)"
proof (induction s arbitrary: n)
  case (Cons d ds)
  then show ?case by (cases n) auto
qed simp

lemma find_char_append: "c \<notin> set u \<Longrightarrow> find_char c (u @ c # p) = Some (length u)"
  by (simp add: find_char_Some)

subsection \<open>The code\<close>

record basic_auth_handler =
  callback :: "string \<Rightarrow> string \<Rightarrow> bool"
  realm :: string

definition BasicAuthHandler_new :: "(string \<Rightarrow> string \<Rightarrow> bool) \<Rightarrow> string \<Rightarrow> basic_auth_handler" where
  "BasicAuthHandler_new cb r = \<lparr>callback = cb, realm = r\<rparr>"

definition AuthorizeInner :: "basic_auth_handler \<Rightarrow> connection \<Rightarrow> bool" where
  "AuthorizeInner h conn =
     (case conn_header conn ''Authorization'' of
        None \<Rightarrow> False
      | Some authHeaderStr \<Rightarrow>
          (let prefix = ''Basic '' in
           if take (length prefix) authHeaderStr \<noteq> prefix then False
           else let b64Auth = drop (length prefix) authHeaderStr in
             (case base64_decode b64Auth of
                Inl e \<Rightarrow> False
              | Inr decoded \<Rightarrow>
                  (case find_char (CHR '':'') decoded of
                     None \<Rightarrow> False
                   | Some splitPos \<Rightarrow>
                       (let username = take splitPos decoded;
                            password = drop (splitPos + 1) decoded
                        in callback h username password)))))"

definition WriteUnauthorizedResponse :: "basic_auth_handler \<Rightarrow> connection \<Rightarrow> connection" where
  "WriteUnauthorizedResponse h conn =
     (let conn = conn_write (''HTTP/1.1 401 Unauthorized'' @ crlf) conn;
          conn = conn_write (''WWW-Authenticate: Basic realm='' @ [quote_char] @ until_null (realm h) @ [quote_char] @ crlf) conn;
          conn = conn_write (''Connection: close'' @ crlf) conn;
          conn = conn_write (''Content-Length: 0'' @ crlf) conn
      in conn_write crlf conn)"

definition authorize :: "basic_auth_handler \<Rightarrow> connection \<Rightarrow> bool \<times> connection" where
  "authorize h conn =
     (if \<not> AuthorizeInner h conn then (False, WriteUnauthorizedResponse h conn)
      else (True, conn))"

subsection \<open>Who is let in\<close>

text \<open>The credentials a header carries: user name up to the first colon, and the rest.\<close>

definition carries :: "string \<Rightarrow> string \<Rightarrow> string \<Rightarrow> bool" where
  "carries header user password \<longleftrightarrow> (\<exists>b64. header = ''Basic '' @ b64 \<and>
     base64_decode b64 = Inr (user @ '':'' @ password) \<and> CHR '':'' \<notin> set user)"

lemma AuthorizeInner_iff:
  "AuthorizeInner h conn \<longleftrightarrow> (\<exists>header user password. conn_header conn ''Authorization'' = Some header \<and>
     carries header user password \<and> callback h user password)"
proof
  assume ok: "AuthorizeInner h conn"
  then obtain header decoded n where d: "conn_header conn ''Authorization'' = Some header"
    "take (length ''Basic '') header = ''Basic ''" "base64_decode (drop (length ''Basic '') header) = Inr decoded"
    "find_char (CHR '':'') decoded = Some n"
    "callback h (take n decoded) (drop (n + 1) decoded)"
    by (cases "conn_header conn ''Authorization''"; cases "base64_decode (drop (length ''Basic '') (the (conn_header conn ''Authorization'')))";
        cases "find_char (CHR '':'') (projr (base64_decode (drop (length ''Basic '') (the (conn_header conn ''Authorization'')))))")
      (auto simp: AuthorizeInner_def Let_def split: if_splits)
  have n: "n < length decoded" "decoded ! n = CHR '':''" "CHR '':'' \<notin> set (take n decoded)"
    using d(4) by (auto simp: find_char_Some)
  then have "decoded = take n decoded @ '':'' @ drop (n + 1) decoded" using id_take_nth_drop [OF n(1)] by simp
  moreover have "header = ''Basic '' @ drop (length ''Basic '') header" using d(2) by (metis append_take_drop_id)
  ultimately have "carries header (take n decoded) (drop (n + 1) decoded)"
    unfolding carries_def using d(3) n(3) by metis
  then show "\<exists>header user password. conn_header conn ''Authorization'' = Some header \<and>
     carries header user password \<and> callback h user password" using d(1,5) by blast
next
  assume "\<exists>header user password. conn_header conn ''Authorization'' = Some header \<and>
     carries header user password \<and> callback h user password"
  then show "AuthorizeInner h conn"
    by (auto simp: AuthorizeInner_def carries_def find_char_append)
qed

subsection \<open>Properties\<close>

text \<open>C39: A request passes exactly when its Authorization header is \<open>Basic\<close> with base64 of a user
  name without colon, a colon and a password that the callback accepts; so the header a client
  makes for a user is judged by the callback on exactly that user and password. Every other
  request, malformed headers included, gets the 401 response and nothing else.\<close>

theorem authorize_exactly:
  "(fst (authorize h conn) \<longleftrightarrow> (\<exists>header user password. conn_header conn ''Authorization'' = Some header \<and>
      carries header user password \<and> callback h user password)) \<and>
   (conn_header conn ''Authorization'' = Some (''Basic '' @ base64_encode (user @ '':'' @ password)) \<and> CHR '':'' \<notin> set user \<longrightarrow>
      fst (authorize h conn) = callback h user password) \<and>
   conn_out (snd (authorize h conn)) = conn_out conn @ (if fst (authorize h conn) then '''' else
     ''HTTP/1.1 401 Unauthorized'' @ crlf @
     ''WWW-Authenticate: Basic realm='' @ [quote_char] @ until_null (realm h) @ [quote_char] @ crlf @
     ''Connection: close'' @ crlf @ ''Content-Length: 0'' @ crlf @ crlf)"
proof -
  have enc: "AuthorizeInner h conn = callback h user password"
    if "conn_header conn ''Authorization'' = Some (''Basic '' @ base64_encode (user @ '':'' @ password))" "CHR '':'' \<notin> set user"
    using that by (simp add: AuthorizeInner_def b64.dec_enc find_char_append)
  have fst: "fst (authorize h conn) = AuthorizeInner h conn" by (simp add: authorize_def)
  show ?thesis
    unfolding fst using AuthorizeInner_iff [of h conn] enc
    by (simp add: authorize_def WriteUnauthorizedResponse_def conn_write_def)
qed

definition demo_auth :: basic_auth_handler where
  "demo_auth = BasicAuthHandler_new (\<lambda>u p. u = ''joe'' \<and> p = ''a:b'') ''metrics''"

definition demo_conn :: connection where
  "demo_conn = \<lparr>conn_header = (\<lambda>n. if n = ''Authorization'' then Some (''Basic '' @ base64_encode (''joe'' @ '':'' @ ''a:b'')) else None),
     conn_out = ''''\<rparr>"

theorem authorize_exactly_witness: "fst (authorize demo_auth demo_conn)"
proof -
  have "conn_header demo_conn ''Authorization'' = Some (''Basic '' @ base64_encode (''joe'' @ '':'' @ ''a:b''))"
    "CHR '':'' \<notin> set ''joe''" by (simp_all add: demo_conn_def)
  with authorize_exactly [of demo_auth demo_conn "''joe''" "''a:b''"]
  have "fst (authorize demo_auth demo_conn) = callback demo_auth ''joe'' ''a:b''" by blast
  then show ?thesis by (simp add: demo_auth_def BasicAuthHandler_new_def)
qed

text \<open>The scheme is compared with the case of its letters, which RFC 7235 says does not count.\<close>

lemma lower_case_scheme_refused:
  "\<not> AuthorizeInner h \<lparr>conn_header = (\<lambda>n. Some (''basic '' @ b64)), conn_out = ''''\<rparr>"
  by (simp add: AuthorizeInner_def)

end
