(* ===== verification/Handler.thy ===== *)
theory Handler
  imports Collectables BasicAuth
begin

text \<open>
  \<open>pull/src/handler.cc\<close>: the handler of scrape requests. It keeps weak pointers to the
  collectables and references to three metrics about itself, which live in a registry of its
  endpoint: the registry is one of the objects on the heap, the references are addresses in it.
  zlib is not part of the sources: a stream is a state of type \<open>'z\<close>, \<open>deflateInit2\<close> and \<open>deflate\<close>
  are arguments. A build without zlib has no such argument.
\<close>

subsection \<open>Compression\<close>

datatype z_result = Z_OK | Z_STREAM_END | Z_ERROR int

record 'z zlib =
  deflateInit2 :: "'z option"
  set_input :: "string \<Rightarrow> 'z \<Rightarrow> 'z"
  deflate_finish :: "'z \<Rightarrow> nat \<Rightarrow> z_result \<times> string \<times> 'z"

definition outputBytesPerRound :: nat where
  "outputBytesPerRound = 32768"

text \<open>The loop; \<open>None\<close> is the value of a loop that never ends.\<close>

partial_function (option) deflate_loop :: "('z \<Rightarrow> nat \<Rightarrow> z_result \<times> string \<times> 'z) \<Rightarrow> 'z \<Rightarrow> string \<Rightarrow>
    (z_result \<times> string) option" where
  "deflate_loop deflate zs output =
     (case deflate zs outputBytesPerRound of (ret, produced, zs') \<Rightarrow>
        (let output' = output @ produced in
         if ret = Z_OK then deflate_loop deflate zs' output' else Some (ret, output')))"

text \<open>\<open>avail_in\<close> has 32 bits.\<close>

definition GZipCompress :: "'z zlib \<Rightarrow> string \<Rightarrow> string option" where
  "GZipCompress zl input =
     (case deflateInit2 zl of
        None \<Rightarrow> Some ''''
      | Some zs \<Rightarrow>
          (let zs = set_input zl (take (length input mod 2 ^ 32) input) zs in
           do {
             (ret, output) \<leftarrow> deflate_loop (deflate_finish zl) zs '''';
             Some (if ret \<noteq> Z_STREAM_END then '''' else output)
           }))"

subsection \<open>The response\<close>

text \<open>\<open>std::strstr\<close>: whether the second string occurs in the first.\<close>

fun strstr :: "string \<Rightarrow> string \<Rightarrow> bool" where
  "strstr [] needle = (needle = [])"
| "strstr (c # cs) needle = (if take (length needle) (c # cs) = needle then True else strstr cs needle)"

definition IsEncodingAccepted :: "connection \<Rightarrow> string \<Rightarrow> bool" where
  "IsEncodingAccepted conn encoding =
     (case conn_header conn ''Accept-Encoding'' of
        None \<Rightarrow> False
      | Some accept_encoding \<Rightarrow> strstr accept_encoding encoding)"

text \<open>Returns the number of bytes of the body written.\<close>

definition WriteResponse :: "'z zlib option \<Rightarrow> string \<Rightarrow> connection \<Rightarrow> (nat \<times> connection) option" where
  "WriteResponse zl body conn =
     (let conn = conn_write (''HTTP/1.1 200 OK'' @ crlf @ ''Content-Type: text/plain; charset=utf-8'' @ crlf) conn;
          plain = Some (length body, conn_write body (conn_write (''Content-Length: '' @ show_nat (length body) @ crlf @ crlf) conn))
      in case zl of
        None \<Rightarrow> plain
      | Some z \<Rightarrow>
          if IsEncodingAccepted conn ''gzip'' then
            (case GZipCompress z body of
               None \<Rightarrow> None
             | Some compressed \<Rightarrow>
                 if compressed \<noteq> '''' then
                   (let conn = conn_write (''Content-Encoding: gzip'' @ crlf @ ''Content-Length: '' @
                          show_nat (length compressed) @ crlf @ crlf) conn
                    in Some (length compressed, conn_write compressed conn))
                 else plain)
          else plain)"

subsection \<open>The handler\<close>

record handler =
  mh_collectables :: "nat list"
  mh_registry :: nat
  bytes_transferred_family :: nat
  bytes_transferred :: nat
  num_scrapes_family :: nat
  num_scrapes :: nat
  request_latencies_family :: nat
  request_latencies :: nat

text \<open>Operations of a metric of a registry, called through references to the metric.\<close>

definition update_at :: "nat \<Rightarrow> ('f \<Rightarrow> 'f option) \<Rightarrow> (nat \<times> 'f) list \<Rightarrow> (nat \<times> 'f) list option" where
  "update_at a g fs = map_opt (\<lambda>(b, f). if b = a then map_option (Pair b) (g f) else Some (b, f)) fs"

definition touch_opt :: "nat \<Rightarrow> ('m \<Rightarrow> 'm option) \<Rightarrow> 'm family \<Rightarrow> 'm family option" where
  "touch_opt a g f = map_option (\<lambda>ms. f\<lparr>fam_metrics := ms\<rparr>)
     (map_opt (\<lambda>(l, b, m). if b = a then map_option (\<lambda>m. (l, b, m)) (g m) else Some (l, b, m)) (fam_metrics f))"

definition counter_at :: "nat \<Rightarrow> nat \<Rightarrow> (counter \<Rightarrow> counter) \<Rightarrow> registry \<Rightarrow> registry option" where
  "counter_at family metric g r = map_option (\<lambda>fs. r\<lparr>reg_counters := fs\<rparr>)
     (update_at family (touch_opt metric (\<lambda>c. Some (g c))) (reg_counters r))"

definition summary_at :: "nat \<Rightarrow> nat \<Rightarrow> (summary \<Rightarrow> summary option) \<Rightarrow> registry \<Rightarrow> registry option" where
  "summary_at family metric g r = map_option (\<lambda>fs. r\<lparr>reg_summaries := fs\<rparr>)
     (update_at family (touch_opt metric g) (reg_summaries r))"

definition with_registry :: "nat \<Rightarrow> (registry \<Rightarrow> registry option) \<Rightarrow> 'o heap \<Rightarrow> 'o heap option" where
  "with_registry p g heap = (case heap p of
     Some (Registry_object r) \<Rightarrow> map_option (\<lambda>r. heap(p \<mapsto> Registry_object r)) (g r)
   | _ \<Rightarrow> None)"

text \<open>Steps that may throw, on a state; \<open>None\<close> is undefined behaviour.\<close>

definition seq_exn :: "((cpp_exception + 'a) \<times> 's) option \<Rightarrow> ('a \<Rightarrow> 's \<Rightarrow> ((cpp_exception + 'b) \<times> 's) option) \<Rightarrow>
    ((cpp_exception + 'b) \<times> 's) option" where
  "seq_exn x f = (case x of None \<Rightarrow> None | Some (Inl e, s) \<Rightarrow> Some (Inl e, s) | Some (Inr a, s) \<Rightarrow> f a s)"

text \<open>\<open>Add\<close> on a family reference; a new family's table holds no other entry, so the place of the
  new one is no choice.\<close>

definition family_ref_add :: "'m metric_class \<Rightarrow> nat \<Rightarrow> label_map \<Rightarrow> nat \<Rightarrow> (cpp_exception + 'm) \<Rightarrow> 'm families \<Rightarrow>
    ((cpp_exception + nat) \<times> 'm families) option" where
  "family_ref_add cls family labels addr made fs =
     map_option (\<lambda>f. apsnd (\<lambda>f. update_family family f fs) (Family_Add (\<lambda>es e. es @ [e]) cls labels addr made f))
       (map_of fs family)"

definition counter_ref_add :: "nat \<Rightarrow> label_map \<Rightarrow> nat \<Rightarrow> registry \<Rightarrow> ((cpp_exception + nat) \<times> registry) option" where
  "counter_ref_add family labels addr r = map_option (apsnd (\<lambda>fs. r\<lparr>reg_counters := fs\<rparr>))
     (family_ref_add counter_class family labels addr (Inr Counter_default) (reg_counters r))"

definition summary_ref_add :: "nat \<Rightarrow> label_map \<Rightarrow> nat \<Rightarrow> (cpp_exception + summary) \<Rightarrow> registry \<Rightarrow>
    ((cpp_exception + nat) \<times> registry) option" where
  "summary_ref_add family labels addr made r = map_option (apsnd (\<lambda>fs. r\<lparr>reg_summaries := fs\<rparr>))
     (family_ref_add summary_class family labels addr made (reg_summaries r))"

text \<open>The addresses of the new objects of the constructor, families before their metrics.\<close>

record handler_addrs =
  addr_bytes_family :: nat
  addr_bytes :: nat
  addr_scrapes_family :: nat
  addr_scrapes :: nat
  addr_latencies_family :: nat
  addr_latencies :: nat

text \<open>A decimal literal is the nearest double.\<close>

definition latency_quantiles :: "quantile list" where
  "latency_quantiles = [Quantile_new (rnd False (5 / 10)) (rnd False (5 / 100)),
     Quantile_new (rnd False (9 / 10)) (rnd False (1 / 100)), Quantile_new (rnd False (99 / 100)) (rnd False (1 / 1000))]"

definition MetricsHandler_new :: "handler_addrs \<Rightarrow> int \<Rightarrow> nat \<Rightarrow> registry \<Rightarrow>
    ((cpp_exception + handler) \<times> registry) option" where
  "MetricsHandler_new a now p r =
     seq_exn (Some (Builder_Register Counter_T (addr_bytes_family a)
         (Builder_Help ''Transferred bytes to metrics services''
           (Builder_Name ''exposer_transferred_bytes_total'' Builder_new)) r)) (\<lambda>bytes_family r.
     seq_exn (counter_ref_add bytes_family [] (addr_bytes a) r) (\<lambda>bytes r.
     seq_exn (Some (Builder_Register Counter_T (addr_scrapes_family a)
         (Builder_Help ''Number of times metrics were scraped''
           (Builder_Name ''exposer_scrapes_total'' Builder_new)) r)) (\<lambda>scrapes_family r.
     seq_exn (counter_ref_add scrapes_family [] (addr_scrapes a) r) (\<lambda>scrapes r.
     seq_exn (Some (Builder_Register Summary_T (addr_latencies_family a)
         (Builder_Help ''Latencies of serving scrape requests, in microseconds''
           (Builder_Name ''exposer_request_latencies'' Builder_new)) r)) (\<lambda>latencies_family r.
     do {
       made \<leftarrow> Summary_default latency_quantiles now;
       seq_exn (summary_ref_add latencies_family [] (addr_latencies a) made r) (\<lambda>latencies r.
         Some (Inr \<lparr>mh_collectables = [], mh_registry = p,
                 bytes_transferred_family = bytes_family, bytes_transferred = bytes,
                 num_scrapes_family = scrapes_family, num_scrapes = scrapes,
                 request_latencies_family = latencies_family, request_latencies = latencies\<rparr>, r))
     })))))"

text \<open>A \<open>duration_cast\<close> from nanoseconds to microseconds truncates toward zero.\<close>

definition to_microseconds :: "int \<Rightarrow> int" where
  "to_microseconds ns = (if ns < 0 then - (- ns div 1000) else ns div 1000)"

definition CleanupStalePointers :: "'o heap \<Rightarrow> nat list \<Rightarrow> nat list" where
  "CleanupStalePointers heap collectables = filter (\<lambda>candidate. \<not> weak_expired heap candidate) collectables"

definition MetricsHandler_RegisterCollectable :: "'o heap \<Rightarrow> nat \<Rightarrow> handler \<Rightarrow> handler" where
  "MetricsHandler_RegisterCollectable heap p h =
     h\<lparr>mh_collectables := CleanupStalePointers heap (mh_collectables h) @ [p]\<rparr>"

text \<open>\<open>lock()\<close> of an expired pointer is null, and two null pointers are equal.\<close>

definition lock_ptr :: "'o heap \<Rightarrow> nat \<Rightarrow> nat option" where
  "lock_ptr heap p = (if weak_expired heap p then None else Some p)"

definition MetricsHandler_RemoveCollectable :: "'o heap \<Rightarrow> nat \<Rightarrow> handler \<Rightarrow> handler" where
  "MetricsHandler_RemoveCollectable heap p h =
     (let locked = lock_ptr heap p in
      h\<lparr>mh_collectables := filter (\<lambda>candidate. \<not> locked = lock_ptr heap candidate) (mh_collectables h)\<rparr>)"

text \<open>\<open>start\<close> and \<open>stop\<close> are the readings of the clock in the function, less than \<open>2^63\<close> ticks apart,
  \<open>now\<close> that of the summary's estimators.\<close>

definition handleGet :: "'o user_collect \<Rightarrow> (nat \<Rightarrow> clock) \<Rightarrow> locale_facets \<Rightarrow> 'z zlib option \<Rightarrow> int \<Rightarrow> int \<Rightarrow> int \<Rightarrow>
    handler \<Rightarrow> connection \<Rightarrow> 'o heap \<Rightarrow> (bool \<times> connection \<times> 'o heap) option" where
  "handleGet user clocks loc zl start stop now h conn heap =
     do {
       (metrics, heap) \<leftarrow> CollectMetrics user clocks 0 (mh_collectables h) heap;
       (bodySize, conn) \<leftarrow> WriteResponse zl (Serializer_Serialize loc metrics) conn;
       let duration = to_microseconds (stop - start);
       heap \<leftarrow> with_registry (mh_registry h)
         (summary_at (request_latencies_family h) (request_latencies h) (Summary_Observe now (dint duration))) heap;
       heap \<leftarrow> with_registry (mh_registry h)
         (counter_at (bytes_transferred_family h) (bytes_transferred h) (Counter_Increment_by (dint (int bodySize)))) heap;
       heap \<leftarrow> with_registry (mh_registry h)
         (counter_at (num_scrapes_family h) (num_scrapes h) Counter_Increment) heap;
       Some (True, conn, heap)
     }"

subsection \<open>The compressed stream\<close>

text \<open>
  The documented behaviour of \<open>deflate\<close> with \<open>Z_FINISH\<close> and enough memory: there is a compressed
  form of the input; each call hands out the next part of what is pending, at most the space it
  is given; \<open>Z_OK\<close> asks for another call and comes with some output, \<open>Z_STREAM_END\<close> says that
  nothing is left.
\<close>

definition deflates :: "('z \<Rightarrow> nat \<Rightarrow> z_result \<times> string \<times> 'z) \<Rightarrow> ('z \<Rightarrow> string) \<Rightarrow> bool" where
  "deflates deflate pending \<longleftrightarrow> (\<forall>z n. 0 < n \<longrightarrow> (case deflate z n of (ret, produced, z') \<Rightarrow>
     pending z = produced @ pending z' \<and> length produced \<le> n \<and>
     (ret = Z_OK \<and> produced \<noteq> '''' \<or> ret = Z_STREAM_END \<and> pending z' = '''')))"

definition zlib_stream :: "'z zlib \<Rightarrow> (string \<Rightarrow> string) \<Rightarrow> bool" where
  "zlib_stream zl squeeze \<longleftrightarrow> (\<exists>pending zs. deflateInit2 zl = Some zs \<and>
     (\<forall>input. pending (set_input zl input zs) = squeeze input) \<and> deflates (deflate_finish zl) pending)"

lemma deflate_loop_pending:
  assumes "deflates deflate pending"
  shows "deflate_loop deflate z outp = Some (Z_STREAM_END, outp @ pending z)"
proof (induction "length (pending z)" arbitrary: z outp rule: less_induct)
  case less
  obtain ret produced z' where d: "deflate z outputBytesPerRound = (ret, produced, z')" by (metis prod_cases3)
  have "0 < outputBytesPerRound" by (simp add: outputBytesPerRound_def)
  then have p: "pending z = produced @ pending z'" "ret = Z_OK \<and> produced \<noteq> '''' \<or> ret = Z_STREAM_END \<and> pending z' = ''''"
    using assms [unfolded deflates_def, rule_format, of outputBytesPerRound z] d by simp_all
  from p(2) show ?case
  proof (elim disjE conjE)
    assume "ret = Z_OK" "produced \<noteq> ''''"
    then show ?thesis
      using less.hyps [of z' "outp @ produced"] p(1) by (subst deflate_loop.simps) (simp add: d)
  next
    assume "ret = Z_STREAM_END" "pending z' = ''''"
    then show ?thesis using p(1) by (subst deflate_loop.simps) (simp add: d)
  qed
qed

lemma GZipCompress_stream:
  assumes "zlib_stream zl squeeze" and "length input < 2 ^ 32"
  shows "GZipCompress zl input = Some (squeeze input)"
  using assms by (auto simp: zlib_stream_def GZipCompress_def deflate_loop_pending)

text \<open>A stream that stores its input: it satisfies the hypothesis, and needs a round of the loop
  for each 32768 bytes.\<close>

definition stored :: "string zlib" where
  "stored = \<lparr>deflateInit2 = Some '''', set_input = (\<lambda>input zs. input),
     deflate_finish = (\<lambda>z n. if length z \<le> n then (Z_STREAM_END, z, '''') else (Z_OK, take n z, drop n z))\<rparr>"

lemma stored_stream: "zlib_stream stored (\<lambda>s. s)"
  unfolding zlib_stream_def deflates_def
  by (intro exI [of _ "\<lambda>z. z"] exI [of _ "''''"]) (auto simp: stored_def)

subsection \<open>The response\<close>

definition response_body :: "'z zlib option \<Rightarrow> (string \<Rightarrow> string) \<Rightarrow> connection \<Rightarrow> string \<Rightarrow> bool \<times> string" where
  "response_body zl squeeze conn body =
     (if zl \<noteq> None \<and> IsEncodingAccepted conn ''gzip'' \<and> squeeze body \<noteq> '''' then (True, squeeze body) else (False, body))"

definition response_text :: "bool \<Rightarrow> string \<Rightarrow> string" where
  "response_text gzip body = ''HTTP/1.1 200 OK'' @ crlf @ ''Content-Type: text/plain; charset=utf-8'' @ crlf @
     (if gzip then ''Content-Encoding: gzip'' @ crlf else '''') @
     ''Content-Length: '' @ show_nat (length body) @ crlf @ crlf @ body"

definition zlib_option :: "'z zlib option \<Rightarrow> (string \<Rightarrow> string) \<Rightarrow> bool" where
  "zlib_option zl squeeze \<longleftrightarrow> (case zl of None \<Rightarrow> True | Some z \<Rightarrow> zlib_stream z squeeze)"

lemma conn_write_write [simp]: "conn_write t (conn_write s conn) = conn_write (s @ t) conn"
  by (simp add: conn_write_def)

lemma IsEncodingAccepted_write [simp]: "IsEncodingAccepted (conn_write s conn) e = IsEncodingAccepted conn e"
  by (simp add: IsEncodingAccepted_def conn_write_def)

lemma WriteResponse_text:
  assumes "zlib_option zl squeeze" and "length body < 2 ^ 32" and "response_body zl squeeze conn body = (gzip, sent)"
  shows "WriteResponse zl body conn = Some (length sent, conn_write (response_text gzip sent) conn)"
proof (cases zl)
  case None
  then show ?thesis
    using assms(3) by (auto simp: WriteResponse_def response_body_def response_text_def Let_def)
next
  case (Some z)
  have "GZipCompress z body = Some (squeeze body)"
    using assms(1,2) Some by (intro GZipCompress_stream) (simp_all add: zlib_option_def)
  then show ?thesis
    using assms(3) Some
    by (auto simp: WriteResponse_def Let_def response_body_def response_text_def split: if_splits)
qed

text \<open>A client: the header lines up to the empty line, the declared length, the decompression.\<close>

fun read_head :: "string \<Rightarrow> string \<Rightarrow> (string list \<times> string) option" where
  "read_head line [] = None"
| "read_head line (c # cs) =
     (if c = CHR 0x0D \<and> take 1 cs = [CHR 0x0A]
      then (if line = '''' then Some ([], tl cs) else map_option (apfst (\<lambda>ls. line # ls)) (read_head '''' (tl cs)))
      else read_head (line @ [c]) cs)"

definition header_field :: "string \<Rightarrow> string list \<Rightarrow> string option" where
  "header_field name ls = map_option (drop (length name + 2)) (find (\<lambda>l. take (length name + 2) l = name @ '': '') ls)"

definition read_response :: "(string \<Rightarrow> string) \<Rightarrow> string \<Rightarrow> string option" where
  "read_response decompress s = (case read_head '''' s of
     None \<Rightarrow> None
   | Some (ls, body) \<Rightarrow>
       if ls = [] \<or> hd ls \<noteq> ''HTTP/1.1 200 OK'' \<or> header_field ''Content-Length'' ls \<noteq> Some (show_nat (length body)) then None
       else if header_field ''Content-Encoding'' ls = Some ''gzip'' then Some (decompress body) else Some body)"

lemma read_head_line:
  "CHR 0x0D \<notin> set l \<Longrightarrow> acc @ l \<noteq> [] \<Longrightarrow>
     read_head acc (l @ crlf @ r) = map_option (apfst (\<lambda>ls. (acc @ l) # ls)) (read_head '''' r)"
  by (induction l arbitrary: acc) auto

lemma read_head_lines:
  "\<forall>l\<in>set ls. l \<noteq> '''' \<and> CHR 0x0D \<notin> set l \<Longrightarrow>
     read_head '''' (concat (map (\<lambda>l. l @ crlf) ls) @ crlf @ b) = Some (ls, b)"
proof (induction ls)
  case (Cons l ls)
  then have "read_head '''' (l @ crlf @ concat (map (\<lambda>l. l @ crlf) ls) @ crlf @ b) = Some (l # ls, b)"
    by (subst read_head_line) simp_all
  then show ?case by simp
qed simp

definition response_lines :: "bool \<Rightarrow> nat \<Rightarrow> string list" where
  "response_lines gzip n = [''HTTP/1.1 200 OK'', ''Content-Type: text/plain; charset=utf-8''] @
     (if gzip then [''Content-Encoding: gzip''] else []) @ [''Content-Length: '' @ show_nat n]"

lemma response_text_lines:
  "response_text gzip body = concat (map (\<lambda>l. l @ crlf) (response_lines gzip (length body))) @ crlf @ body"
  by (simp add: response_text_def response_lines_def)

lemma show_nat_no_cr: "CHR 0x0D \<notin> set (show_nat n)"
  using show_nat_digits [of n] by (auto simp: digits_def)

lemma response_lines_plain: "\<forall>l\<in>set (response_lines gzip n). l \<noteq> '''' \<and> CHR 0x0D \<notin> set l"
  using show_nat_no_cr [of n] by (simp add: response_lines_def)

lemma response_fields:
  "header_field ''Content-Length'' (response_lines gzip n) = Some (show_nat n)"
  "header_field ''Content-Encoding'' (response_lines gzip n) = (if gzip then Some ''gzip'' else None)"
  by (simp_all add: response_lines_def header_field_def)

lemma read_response_text:
  "read_response decompress (response_text gzip sent) = Some (if gzip then decompress sent else sent)"
  using response_fields [of gzip "length sent"]
  unfolding read_response_def response_text_lines read_head_lines [OF response_lines_plain]
  by (simp add: response_lines_def)

subsection \<open>The metrics about the handler\<close>

definition handler_metrics :: "handler \<Rightarrow> registry \<Rightarrow> counter \<Rightarrow> counter \<Rightarrow> summary \<Rightarrow> bool" where
  "handler_metrics h r bytes scrapes latencies \<longleftrightarrow>
     (\<exists>fb fs fl. reg_counters r = [(bytes_transferred_family h, fb), (num_scrapes_family h, fs)] \<and>
        fam_metrics fb = [([], bytes_transferred h, bytes)] \<and> fam_metrics fs = [([], num_scrapes h, scrapes)] \<and>
        bytes_transferred_family h \<noteq> num_scrapes_family h \<and>
        reg_summaries r = [(request_latencies_family h, fl)] \<and> fam_metrics fl = [([], request_latencies h, latencies)])"

lemma update_at_simps [simp]:
  "update_at a g [] = Some []"
  "update_at a g ((b, f) # fs) = (case (if b = a then map_option (Pair b) (g f) else Some (b, f)) of
     None \<Rightarrow> None | Some x \<Rightarrow> map_option (\<lambda>xs. x # xs) (update_at a g fs))"
  by (auto simp: update_at_def split: option.split)

lemma counter_at_bytes:
  assumes "handler_metrics h r cb cn sl"
  shows "\<exists>r'. counter_at (bytes_transferred_family h) (bytes_transferred h) g r = Some r' \<and> handler_metrics h r' (g cb) cn sl"
  using assms by (auto simp: handler_metrics_def counter_at_def touch_opt_def)

lemma counter_at_scrapes:
  assumes "handler_metrics h r cb cn sl"
  shows "\<exists>r'. counter_at (num_scrapes_family h) (num_scrapes h) g r = Some r' \<and> handler_metrics h r' cb (g cn) sl"
  using assms by (auto simp: handler_metrics_def counter_at_def touch_opt_def)

lemma summary_at_latencies:
  assumes "handler_metrics h r cb cn sl" and "g sl = Some sl'"
  shows "\<exists>r'. summary_at (request_latencies_family h) (request_latencies h) g r = Some r' \<and> handler_metrics h r' cb cn sl'"
  using assms by (auto simp: handler_metrics_def summary_at_def touch_opt_def)

text \<open>Collecting changes nothing but the estimators.\<close>

lemma counter_Collect_same: "Family_Collect counter_class clock f = Some (fs, f') \<Longrightarrow> f' = f"
proof -
  have m: "map_opt (\<lambda>(labels, a, m). map_option (\<lambda>(c, m). (c, labels, a, m)) (CollectMetric counter_class (clock a) f labels m)) ms = Some cs
      \<Longrightarrow> map snd cs = ms" for ms cs
  proof (induction ms arbitrary: cs)
    case (Cons e ms)
    then show ?case by (cases e) (auto simp: CollectMetric_def counter_class_def split: option.splits)
  qed simp
  assume "Family_Collect counter_class clock f = Some (fs, f')"
  then show ?thesis using m by (auto simp: Family_Collect_def bind_eq_Some_conv split: if_splits)
qed

lemma counters_CollectAll_same: "CollectAll (Family_Collect counter_class) clock xs = Some (fs, ys) \<Longrightarrow> ys = xs"
  by (induction xs arbitrary: fs ys) (auto simp: bind_eq_Some_conv dest: counter_Collect_same)

lemma handler_metrics_Collect:
  assumes "handler_metrics h r cb cn sl" and "Registry_Collect clock r = Some (fs, r')"
  shows "\<exists>sl'. handler_metrics h r' cb cn sl'"
proof -
  obtain fb fn fl where r: "reg_counters r = [(bytes_transferred_family h, fb), (num_scrapes_family h, fn)]"
      "fam_metrics fb = [([], bytes_transferred h, cb)]" "fam_metrics fn = [([], num_scrapes h, cn)]"
      "bytes_transferred_family h \<noteq> num_scrapes_family h"
      "reg_summaries r = [(request_latencies_family h, fl)]" "fam_metrics fl = [([], request_latencies h, sl)]"
    using assms(1) by (auto simp: handler_metrics_def)
  obtain ss where ss: "CollectAll (Family_Collect summary_class) clock (reg_summaries r) = Some (ss, reg_summaries r')"
    and c: "reg_counters r' = reg_counters r"
    using assms(2) by (auto simp: Registry_Collect_def bind_eq_Some_conv dest!: counters_CollectAll_same)
  from ss obtain f' where f': "Family_Collect summary_class clock fl = Some (ss, f')"
      "reg_summaries r' = [(request_latencies_family h, f')]"
    by (auto simp: r(5) bind_eq_Some_conv)
  from f'(1) obtain sl' where "fam_metrics f' = [([], request_latencies h, sl')]"
    by (auto simp: Family_Collect_def r(6) bind_eq_Some_conv split: option.splits)
  with f' c r show ?thesis by (auto simp: handler_metrics_def)
qed

lemma handler_metrics_CollectMetrics:
  assumes "CollectMetrics user clocks i ps heap = Some (fs, heap')"
    and "heap p = Some (Registry_object r)" and "handler_metrics h r cb cn sl"
  shows "\<exists>r' sl'. heap' p = Some (Registry_object r') \<and> handler_metrics h r' cb cn sl'"
  using assms
proof (induction ps arbitrary: i heap fs r sl)
  case (Cons q ps)
  show ?case
  proof (cases "heap q")
    case None
    then show ?thesis using Cons by simp
  next
    case (Some c)
    then obtain m1 c' m2 where c: "Collectable_Collect user (clocks i) c = Some (m1, c')"
      "CollectMetrics user clocks (i + 1) ps (heap(q \<mapsto> c')) = Some (m2, heap')"
      using Cons.prems(1) by (auto simp: bind_eq_Some_conv)
    show ?thesis
    proof (cases "q = p")
      case True
      then obtain r1 where "c' = Registry_object r1" "Registry_Collect (clocks i) r = Some (m1, r1)"
        using c(1) Some Cons.prems(2) by auto
      then show ?thesis using Cons.IH [OF c(2)] handler_metrics_Collect [OF Cons.prems(3)] True by fastforce
    next
      case False
      then show ?thesis using Cons.IH [OF c(2)] Cons.prems(2,3) by simp
    qed
  qed
qed auto

lemma handleGet_spec:
  assumes "CollectMetrics user clocks 0 (mh_collectables h) heap = Some (fs, heap1)"
    and "zlib_option zl squeeze" and "length (exposition fs) < 2 ^ 32"
    and "response_body zl squeeze conn (exposition fs) = (gzip, sent)"
    and "heap1 (mh_registry h) = Some (Registry_object r1)" and "handler_metrics h r1 bytes scrapes latencies"
    and "Summary_Observe now (dint (to_microseconds (stop - start))) latencies = Some latencies'"
  shows "\<exists>r2. handleGet user clocks loc zl start stop now h conn heap =
      Some (True, conn_write (response_text gzip sent) conn, heap1(mh_registry h \<mapsto> Registry_object r2)) \<and>
    handler_metrics h r2 (Counter_Increment_by (dint (int (length sent))) bytes) (Counter_Increment scrapes) latencies'"
proof -
  obtain ra where ra: "summary_at (request_latencies_family h) (request_latencies h)
      (Summary_Observe now (dint (to_microseconds (stop - start)))) r1 = Some ra" "handler_metrics h ra bytes scrapes latencies'"
    using summary_at_latencies [where g = "Summary_Observe now (dint (to_microseconds (stop - start)))", OF assms(6,7)] by blast
  obtain rb where rb: "counter_at (bytes_transferred_family h) (bytes_transferred h)
      (Counter_Increment_by (dint (int (length sent)))) ra = Some rb"
    "handler_metrics h rb (Counter_Increment_by (dint (int (length sent))) bytes) scrapes latencies'"
    using counter_at_bytes [OF ra(2)] by blast
  obtain rc where rc: "counter_at (num_scrapes_family h) (num_scrapes h) Counter_Increment rb = Some rc"
    "handler_metrics h rc (Counter_Increment_by (dint (int (length sent))) bytes) (Counter_Increment scrapes) latencies'"
    using counter_at_scrapes [OF rb(2)] by blast
  have "handleGet user clocks loc zl start stop now h conn heap =
      Some (True, conn_write (response_text gzip sent) conn, heap1(mh_registry h \<mapsto> Registry_object rc))"
    by (simp add: handleGet_def assms(1) Serializer_exposition WriteResponse_text [OF assms(2,3,4)]
        with_registry_def assms(5) ra(1) rb(1) rc(1))
  with rc(2) show ?thesis by blast
qed

text \<open>What the constructor leaves behind on a new registry.\<close>

lemma names_ok:
  "CheckMetricName ''exposer_transferred_bytes_total''" "CheckMetricName ''exposer_scrapes_total''"
  "CheckMetricName ''exposer_request_latencies''"
  by code_simp+

lemma latencies_new: "\<exists>s. Summary_new latency_quantiles 60000 5 now = Some (Inr s) \<and> 0 < rotation_interval (quantile_values s)"
  using Summary_default_new [of latency_quantiles now] by (auto simp: Summary_default_def)

lemma MetricsHandler_new_ok:
  assumes "addr_bytes_family a \<noteq> addr_scrapes_family a"
  shows "\<exists>h r s. MetricsHandler_new a now p (Registry_new Merge) = Some (Inr h, r) \<and>
    Summary_new latency_quantiles 60000 5 now = Some (Inr s) \<and> mh_registry h = p \<and> mh_collectables h = [] \<and>
    handler_metrics h r Counter_default Counter_default s"
proof -
  obtain s where s: "Summary_new latency_quantiles 60000 5 now = Some (Inr s)" using latencies_new by blast
  note ops = Builder_Register_def Builder_Help_def Builder_Name_def Builder_new_def Registry_Add_def Registry_new_def
    NameExistsInOtherType_def FamilyNameExists_def add_to_families_def Family_new_def Family_GetName_def
  note adds = counter_ref_add_def summary_ref_add_def family_ref_add_def Family_Add_def Family_Add_object_def
    find_entry_def update_family_def
  show ?thesis
    unfolding MetricsHandler_new_def using assms names_ok
    by (simp add: ops adds seq_exn_def s Summary_default_def handler_metrics_def Let_def)
qed

subsection \<open>Properties\<close>

text \<open>Compressing terminates and gives the whole compressed text, however many rounds of output
  it takes, for every input shorter than the 32 bits of the length zlib is told; when the stream
  cannot be set up the result is empty, and the response falls back to the plain text.\<close>

theorem gzip_total:
  assumes "zlib_stream zl squeeze" and "length input < 2 ^ 32"
  shows "GZipCompress zl input = Some (squeeze input) \<and>
    GZipCompress (zl\<lparr>deflateInit2 := None\<rparr>) input = Some ''''"
  using GZipCompress_stream [OF assms] by (simp add: GZipCompress_def)

theorem gzip_total_witness:
  "GZipCompress stored ''metrics'' = Some ''metrics''"
  using gzip_total [OF stored_stream, of "''metrics''"] by simp

text \<open>C16: A scrape whose collection is defined is answered with a response from which a client
  that follows the declared length and encoding reads exactly the text of the collected families,
  compressed or not; the handler's own metrics then count one scrape more, and the transferred
  bytes grow by the length of the body that was sent.\<close>

theorem scrape_served:
  assumes "CollectMetrics user clocks 0 (mh_collectables h) heap = Some (fs, heap1)"
    and "zlib_option zl squeeze" and "\<forall>s. decompress (squeeze s) = s" and "length (exposition fs) < 2 ^ 32"
    and "heap1 (mh_registry h) = Some (Registry_object r1)" and "handler_metrics h r1 bytes scrapes latencies"
    and "Summary_Observe now (dint (to_microseconds (stop - start))) latencies = Some latencies'"
  shows "\<exists>gzip sent conn' r2.
    handleGet user clocks loc zl start stop now h conn heap = Some (True, conn', heap1(mh_registry h \<mapsto> Registry_object r2)) \<and>
    (gzip, sent) = response_body zl squeeze conn (exposition fs) \<and>
    conn_out conn' = conn_out conn @ response_text gzip sent \<and>
    read_response decompress (response_text gzip sent) = Some (exposition fs) \<and>
    handler_metrics h r2 (Counter_Increment_by (dint (int (length sent))) bytes) (Counter_Increment scrapes) latencies'"
proof -
  obtain gzip sent where b: "response_body zl squeeze conn (exposition fs) = (gzip, sent)" by fastforce
  obtain r2 where r2: "handleGet user clocks loc zl start stop now h conn heap =
      Some (True, conn_write (response_text gzip sent) conn, heap1(mh_registry h \<mapsto> Registry_object r2))"
    "handler_metrics h r2 (Counter_Increment_by (dint (int (length sent))) bytes) (Counter_Increment scrapes) latencies'"
    using handleGet_spec [OF assms(1,2,4) b assms(5-7)] by blast
  have "read_response decompress (response_text gzip sent) = Some (exposition fs)"
    using b assms(3) unfolding read_response_text by (auto simp: response_body_def split: if_splits)
  moreover have "conn_out (conn_write (response_text gzip sent) conn) = conn_out conn @ response_text gzip sent"
    by (simp add: conn_write_def)
  ultimately show ?thesis using r2 b by metis
qed

definition demo_handler_registry :: registry where
  "demo_handler_registry = (Registry_new Merge)\<lparr>
     reg_counters := [(1, \<lparr>fam_metrics = [([], 2, Counter_default)], fam_name = ''b'', fam_help = '''', fam_constant_labels = []\<rparr>),
       (3, \<lparr>fam_metrics = [([], 4, Counter_default)], fam_name = ''n'', fam_help = '''', fam_constant_labels = []\<rparr>)],
     reg_summaries := [(5, \<lparr>fam_metrics = [([], 6, demo_summary)], fam_name = ''l'', fam_help = '''', fam_constant_labels = []\<rparr>)]\<rparr>"

definition demo_handler :: handler where
  "demo_handler = \<lparr>mh_collectables = [], mh_registry = 9, bytes_transferred_family = 1, bytes_transferred = 2,
     num_scrapes_family = 3, num_scrapes = 4, request_latencies_family = 5, request_latencies = 6\<rparr>"

lemma demo_observe: "\<exists>s. Summary_Observe 10 (dint (to_microseconds (3000 - 0))) demo_summary = Some s"
proof -
  have v: "dint (to_microseconds (3000 - 0)) = Fin 3"
    using dint_exact [of 3] by (simp add: to_microseconds_def)
  have rel: "summary_rel [demo_quantile] (nat 5) (duration_div (60000 * 1000000) 5) 0 0 [] demo_summary"
    by (rule summary_rel_new [OF demo_summary]) (simp add: demo_summary_def)
  have "window_history [demo_quantile] ([] @ [(10, Fin 3)])"
    by (simp add: window_history_def admissible_history_def proper_quantiles_def ckms_limit_def)
  from summary_rel_Observe [OF rel _ this] show ?thesis unfolding v by (auto simp: steady_def)
qed

theorem scrape_served_witness:
  "\<exists>conn' heap'. handleGet Registry_Collect (\<lambda>i a n. 0) classic_locale (Some stored) 0 3000 10 demo_handler demo_conn
     [9 \<mapsto> Registry_object demo_handler_registry] = Some (True, conn', heap')"
proof -
  have c: "CollectMetrics Registry_Collect (\<lambda>i a n. 0) 0 (mh_collectables demo_handler)
      [9 \<mapsto> Registry_object demo_handler_registry] = Some ([], [9 \<mapsto> Registry_object demo_handler_registry])"
    by (simp add: demo_handler_def)
  have z: "zlib_option (Some stored) (\<lambda>s. s)" by (simp add: zlib_option_def stored_stream)
  have m: "handler_metrics demo_handler demo_handler_registry Counter_default Counter_default demo_summary"
    by (simp add: handler_metrics_def demo_handler_registry_def demo_handler_def)
  have r: "[9 \<mapsto> Registry_object demo_handler_registry] (mh_registry demo_handler) = Some (Registry_object demo_handler_registry)"
    by (simp add: demo_handler_def)
  have l: "length (exposition []) < 2 ^ 32" by (simp add: exposition_def)
  obtain s where s: "Summary_Observe 10 (dint (to_microseconds (3000 - 0))) demo_summary = Some s"
    using demo_observe by blast
  from scrape_served [OF c z _ l r m s, of "\<lambda>s. s" classic_locale demo_conn] show ?thesis by auto
qed

text \<open>The header is searched for the letters \<open>gzip\<close>: a quality of zero, which refuses the encoding,
  is not looked at.\<close>

lemma refused_encoding_used:
  "IsEncodingAccepted \<lparr>conn_header = (\<lambda>n. Some ''gzip;q=0, identity''), conn_out = ''''\<rparr> ''gzip''"
  by (simp add: IsEncodingAccepted_def)

end
