(* ===== verification/Exposer.thy ===== *)
theory Exposer
  imports Handler
begin

text \<open>
  \<open>pull/src/endpoint.cc\<close> and \<open>pull/src/exposer.cc\<close>: one endpoint per URI, made on first use, each
  with a registry of its own for the metrics about it. The web server is not part of the sources:
  it is the list of the calls made on it. The mutex of the exposer makes each call atomic.
\<close>

subsection \<open>Endpoints\<close>

datatype server_call = addHandler string | removeHandler string
  | addAuthHandler string basic_auth_handler | removeAuthHandler string

record endpoint =
  ep_uri :: string
  ep_registry :: nat
  ep_handler :: handler
  ep_auth :: "basic_auth_handler option"

text \<open>What endpoints share: the objects that are alive, and the server.\<close>

record 'o pull_world =
  pw_heap :: "'o heap"
  pw_server :: "server_call list"

definition Endpoint_RegisterCollectable :: "'o heap \<Rightarrow> nat \<Rightarrow> endpoint \<Rightarrow> endpoint" where
  "Endpoint_RegisterCollectable heap p e = e\<lparr>ep_handler := MetricsHandler_RegisterCollectable heap p (ep_handler e)\<rparr>"

definition Endpoint_RemoveCollectable :: "'o heap \<Rightarrow> nat \<Rightarrow> endpoint \<Rightarrow> endpoint" where
  "Endpoint_RemoveCollectable heap p e = e\<lparr>ep_handler := MetricsHandler_RemoveCollectable heap p (ep_handler e)\<rparr>"

text \<open>\<open>p\<close> is the address of the endpoint's registry, \<open>a\<close> those of the objects in it.\<close>

definition Endpoint_new :: "handler_addrs \<Rightarrow> int \<Rightarrow> nat \<Rightarrow> string \<Rightarrow> 'o pull_world \<Rightarrow>
    ((cpp_exception + endpoint) \<times> 'o pull_world) option" where
  "Endpoint_new a now p uri w =
     (case MetricsHandler_new a now p Registry_default of
        None \<Rightarrow> None
      | Some (Inl e, r) \<Rightarrow> Some (Inl e, w)
      | Some (Inr h, r) \<Rightarrow>
          (let w = w\<lparr>pw_heap := (pw_heap w)(p \<mapsto> Registry_object r)\<rparr>;
               e = \<lparr>ep_uri = uri, ep_registry = p, ep_handler = h, ep_auth = None\<rparr>;
               e = Endpoint_RegisterCollectable (pw_heap w) p e;
               w = w\<lparr>pw_server := pw_server w @ [addHandler uri]\<rparr>
           in Some (Inr e, w)))"

text \<open>The destructor; the registry dies with its only owner.\<close>

definition Endpoint_destroy :: "endpoint \<Rightarrow> 'o pull_world \<Rightarrow> 'o pull_world" where
  "Endpoint_destroy e w =
     (let w = w\<lparr>pw_server := pw_server w @ [removeHandler (ep_uri e)]\<rparr>;
          w = (if ep_auth e \<noteq> None then w\<lparr>pw_server := pw_server w @ [removeAuthHandler (ep_uri e)]\<rparr> else w)
      in w\<lparr>pw_heap := (pw_heap w)(ep_registry e := None)\<rparr>)"

definition Endpoint_RegisterAuth :: "(string \<Rightarrow> string \<Rightarrow> bool) \<Rightarrow> string \<Rightarrow> endpoint \<Rightarrow> 'o pull_world \<Rightarrow>
    endpoint \<times> 'o pull_world" where
  "Endpoint_RegisterAuth authCB rlm e w =
     (let new_handler = BasicAuthHandler_new authCB rlm;
          w = w\<lparr>pw_server := pw_server w @ [addAuthHandler (ep_uri e) new_handler]\<rparr>
      in (e\<lparr>ep_auth := Some new_handler\<rparr>, w))"

definition Endpoint_GetURI :: "endpoint \<Rightarrow> string" where
  "Endpoint_GetURI e = ep_uri e"

subsection \<open>The exposer\<close>

type_synonym exposer = "endpoint list"

text \<open>The constructors: the server given may be null; the other makes the options of a new one.\<close>

definition Exposer_new :: "bool \<Rightarrow> cpp_exception + exposer" where
  "Exposer_new server_is_null =
     (if server_is_null then Inl (invalid_argument ''Invalid CivetServer: cannot be null'') else Inr [])"

definition Exposer_options :: "string \<Rightarrow> nat \<Rightarrow> string list" where
  "Exposer_options bind_address num_threads = [''listening_ports'', bind_address, ''num_threads'', show_nat num_threads]"

fun find_index :: "('a \<Rightarrow> bool) \<Rightarrow> 'a list \<Rightarrow> nat option" where
  "find_index P [] = None"
| "find_index P (x # xs) = (if P x then Some 0 else map_option Suc (find_index P xs))"

text \<open>A reference to an endpoint is its position.\<close>

definition GetEndpointForUri :: "handler_addrs \<Rightarrow> int \<Rightarrow> nat \<Rightarrow> string \<Rightarrow> exposer \<times> 'o pull_world \<Rightarrow>
    ((cpp_exception + nat) \<times> exposer \<times> 'o pull_world) option" where
  "GetEndpointForUri a now p uri s =
     (case s of (endpoints, w) \<Rightarrow>
        (case find_index (\<lambda>endpoint. Endpoint_GetURI endpoint = uri) endpoints of
           Some i \<Rightarrow> Some (Inr i, endpoints, w)
         | None \<Rightarrow>
             (case Endpoint_new a now p uri w of
                None \<Rightarrow> None
              | Some (Inl e, w) \<Rightarrow> Some (Inl e, endpoints, w)
              | Some (Inr e, w) \<Rightarrow> Some (Inr (length endpoints), endpoints @ [e], w))))"

definition Exposer_RegisterCollectable :: "handler_addrs \<Rightarrow> int \<Rightarrow> nat \<Rightarrow> nat \<Rightarrow> string \<Rightarrow> exposer \<times> 'o pull_world \<Rightarrow>
    ((cpp_exception + unit) \<times> exposer \<times> 'o pull_world) option" where
  "Exposer_RegisterCollectable a now p collectable_ptr uri s =
     seq_exn (GetEndpointForUri a now p uri s) (\<lambda>i (endpoints, w).
       Some (Inr (), endpoints[i := Endpoint_RegisterCollectable (pw_heap w) collectable_ptr (endpoints ! i)], w))"

definition Exposer_RegisterAuth :: "handler_addrs \<Rightarrow> int \<Rightarrow> nat \<Rightarrow> (string \<Rightarrow> string \<Rightarrow> bool) \<Rightarrow> string \<Rightarrow> string \<Rightarrow>
    exposer \<times> 'o pull_world \<Rightarrow> ((cpp_exception + unit) \<times> exposer \<times> 'o pull_world) option" where
  "Exposer_RegisterAuth a now p authCB rlm uri s =
     seq_exn (GetEndpointForUri a now p uri s) (\<lambda>i (endpoints, w).
       case Endpoint_RegisterAuth authCB rlm (endpoints ! i) w of (e, w) \<Rightarrow> Some (Inr (), endpoints[i := e], w))"

definition Exposer_RemoveCollectable :: "handler_addrs \<Rightarrow> int \<Rightarrow> nat \<Rightarrow> nat \<Rightarrow> string \<Rightarrow> exposer \<times> 'o pull_world \<Rightarrow>
    ((cpp_exception + unit) \<times> exposer \<times> 'o pull_world) option" where
  "Exposer_RemoveCollectable a now p collectable_ptr uri s =
     seq_exn (GetEndpointForUri a now p uri s) (\<lambda>i (endpoints, w).
       Some (Inr (), endpoints[i := Endpoint_RemoveCollectable (pw_heap w) collectable_ptr (endpoints ! i)], w))"

text \<open>The default arguments of the three.\<close>

definition default_uri :: string where
  "default_uri = ''/metrics''"

definition default_realm :: string where
  "default_realm = ''Prometheus-cpp Exporter''"

definition Exposer_RegisterCollectable_default where
  "Exposer_RegisterCollectable_default a now p collectable_ptr = Exposer_RegisterCollectable a now p collectable_ptr default_uri"

definition Exposer_RegisterAuth_default where
  "Exposer_RegisterAuth_default a now p authCB = Exposer_RegisterAuth a now p authCB default_realm default_uri"

definition Exposer_RemoveCollectable_default where
  "Exposer_RemoveCollectable_default a now p collectable_ptr = Exposer_RemoveCollectable a now p collectable_ptr default_uri"

definition Exposer_options_default :: "string \<Rightarrow> string list" where
  "Exposer_options_default bind_address = Exposer_options bind_address 2"

text \<open>The destructor destroys the endpoints in order.\<close>

definition Exposer_destroy :: "exposer \<Rightarrow> 'o pull_world \<Rightarrow> 'o pull_world" where
  "Exposer_destroy endpoints w = fold Endpoint_destroy endpoints w"

subsection \<open>Invariant\<close>

definition endpoint_ok :: "'o heap \<Rightarrow> endpoint \<Rightarrow> bool" where
  "endpoint_ok heap e \<longleftrightarrow> (\<exists>r bytes scrapes latencies. heap (ep_registry e) = Some (Registry_object r) \<and>
     handler_metrics (ep_handler e) r bytes scrapes latencies \<and> mh_registry (ep_handler e) = ep_registry e \<and>
     ep_registry e \<in> set (mh_collectables (ep_handler e)))"

definition handled_uris :: "server_call list \<Rightarrow> string list" where
  "handled_uris calls = concat (map (\<lambda>c. case c of addHandler u \<Rightarrow> [u] | _ \<Rightarrow> []) calls)"

text \<open>The authentication handler the server has for a URI after a sequence of calls.\<close>

definition auth_step :: "string \<Rightarrow> server_call \<Rightarrow> basic_auth_handler option \<Rightarrow> basic_auth_handler option" where
  "auth_step uri c a = (case c of addAuthHandler u h \<Rightarrow> if u = uri then Some h else a
     | removeAuthHandler u \<Rightarrow> if u = uri then None else a | _ \<Rightarrow> a)"

definition auth_in :: "server_call list \<Rightarrow> string \<Rightarrow> basic_auth_handler option" where
  "auth_in calls uri = fold (auth_step uri) calls None"

text \<open>Whether the server has a handler for a URI after a sequence of calls.\<close>

definition handler_step :: "string \<Rightarrow> server_call \<Rightarrow> bool \<Rightarrow> bool" where
  "handler_step uri c b = (case c of addHandler u \<Rightarrow> u = uri \<or> b | removeHandler u \<Rightarrow> u \<noteq> uri \<and> b | _ \<Rightarrow> b)"

definition handler_in :: "server_call list \<Rightarrow> string \<Rightarrow> bool" where
  "handler_in calls uri = fold (handler_step uri) calls False"

fun exposer_ok :: "exposer \<times> 'o pull_world \<Rightarrow> bool" where
  "exposer_ok (es, w) = (distinct (map ep_uri es) \<and> distinct (map ep_registry es) \<and>
     (\<forall>e\<in>set es. endpoint_ok (pw_heap w) e) \<and> handled_uris (pw_server w) = map ep_uri es \<and>
     (\<forall>e\<in>set es. auth_in (pw_server w) (ep_uri e) = ep_auth e) \<and>
     (\<forall>u. u \<notin> ep_uri ` set es \<longrightarrow> auth_in (pw_server w) u = None) \<and>
     (\<forall>u. handler_in (pw_server w) u \<longleftrightarrow> u \<in> ep_uri ` set es))"

lemma log_snoc [simp]:
  "handled_uris (calls @ [addHandler u]) = handled_uris calls @ [u]"
  "handled_uris (calls @ [addAuthHandler u h]) = handled_uris calls"
  "auth_in (calls @ [addHandler u]) v = auth_in calls v"
  "auth_in (calls @ [addAuthHandler u h]) v = (if u = v then Some h else auth_in calls v)"
  "auth_in (calls @ [removeHandler u]) v = auth_in calls v"
  "auth_in (calls @ [removeAuthHandler u]) v = (if u = v then None else auth_in calls v)"
  "handler_in (calls @ [addHandler u]) v \<longleftrightarrow> u = v \<or> handler_in calls v"
  "handler_in (calls @ [addAuthHandler u h]) v \<longleftrightarrow> handler_in calls v"
  "handler_in (calls @ [removeHandler u]) v \<longleftrightarrow> u \<noteq> v \<and> handler_in calls v"
  "handler_in (calls @ [removeAuthHandler u]) v \<longleftrightarrow> handler_in calls v"
  by (simp_all add: handled_uris_def auth_in_def auth_step_def handler_in_def handler_step_def)

lemma log_Nil [simp]: "handled_uris [] = []" "auth_in [] u = None" "\<not> handler_in [] u"
  by (simp_all add: handled_uris_def auth_in_def handler_in_def)

lemma find_index_Some: "find_index P xs = Some i \<Longrightarrow> i < length xs \<and> P (xs ! i)"
  by (induction xs arbitrary: i) (auto split: if_splits)

lemma find_index_None: "find_index P xs = None \<longleftrightarrow> (\<forall>x\<in>set xs. \<not> P x)"
  by (induction xs) auto

text \<open>The end of \<open>GetEndpointForUri\<close>: the endpoint of that URI, an old one or a new last one.\<close>

lemma Endpoint_new_ok:
  assumes "addr_bytes_family a \<noteq> addr_scrapes_family a"
  shows "\<exists>e r. Endpoint_new a now p uri w = Some (Inr e,
      w\<lparr>pw_heap := (pw_heap w)(p \<mapsto> Registry_object r), pw_server := pw_server w @ [addHandler uri]\<rparr>) \<and>
    ep_uri e = uri \<and> ep_registry e = p \<and> ep_auth e = None \<and> mh_collectables (ep_handler e) = [p] \<and>
    endpoint_ok ((pw_heap w)(p \<mapsto> Registry_object r)) e"
proof -
  obtain h r s where n: "MetricsHandler_new a now p (Registry_new Merge) = Some (Inr h, r)"
    "mh_registry h = p" "mh_collectables h = []" "handler_metrics h r Counter_default Counter_default s"
    using MetricsHandler_new_ok [OF assms] by blast
  then show ?thesis
    by (auto simp: Endpoint_new_def Registry_default_def Let_def Endpoint_RegisterCollectable_def MetricsHandler_RegisterCollectable_def
        CleanupStalePointers_def endpoint_ok_def handler_metrics_def)
qed

lemma endpoint_ok_cong: "endpoint_ok heap e \<Longrightarrow> heap' (ep_registry e) = heap (ep_registry e) \<Longrightarrow> endpoint_ok heap' e"
  by (simp add: endpoint_ok_def)

lemma endpoint_ok_alive: "endpoint_ok heap e \<Longrightarrow> heap (ep_registry e) \<noteq> None"
  by (auto simp: endpoint_ok_def)

lemma GetEndpointForUri_ok:
  assumes "exposer_ok (es, w)" and "addr_bytes_family a \<noteq> addr_scrapes_family a" and "p \<notin> dom (pw_heap w)"
  shows "\<exists>i es' w'. GetEndpointForUri a now p uri (es, w) = Some (Inr i, es', w') \<and> exposer_ok (es', w') \<and>
    i < length es' \<and> ep_uri (es' ! i) = uri \<and>
    (if uri \<in> ep_uri ` set es then es' = es \<and> w' = w
     else \<exists>e r. es' = es @ [e] \<and> i = length es \<and> ep_registry e = p \<and> mh_collectables (ep_handler e) = [p] \<and>
       pw_heap w' = (pw_heap w)(p \<mapsto> Registry_object r))"
proof (cases "find_index (\<lambda>e. ep_uri e = uri) es")
  case (Some i)
  then have "i < length es" "ep_uri (es ! i) = uri" using find_index_Some by fastforce+
  moreover from this have "uri \<in> ep_uri ` set es" by force
  ultimately show ?thesis
    using Some assms(1) by (simp add: GetEndpointForUri_def Endpoint_GetURI_def)
next
  case None
  then have fresh: "uri \<notin> ep_uri ` set es" by (auto simp: find_index_None)
  obtain e r where e: "Endpoint_new a now p uri w = Some (Inr e,
      w\<lparr>pw_heap := (pw_heap w)(p \<mapsto> Registry_object r), pw_server := pw_server w @ [addHandler uri]\<rparr>)"
    "ep_uri e = uri" "ep_registry e = p" "ep_auth e = None" "mh_collectables (ep_handler e) = [p]"
    "endpoint_ok ((pw_heap w)(p \<mapsto> Registry_object r)) e"
    using Endpoint_new_ok [OF assms(2)] by blast
  have other: "\<forall>x\<in>set es. ep_registry x \<noteq> p"
    using assms(1,3) endpoint_ok_alive by (fastforce simp: domIff)
  then have "\<forall>x\<in>set es. endpoint_ok ((pw_heap w)(p \<mapsto> Registry_object r)) x"
    using assms(1) by (auto intro: endpoint_ok_cong)
  then have "exposer_ok (es @ [e], w\<lparr>pw_heap := (pw_heap w)(p \<mapsto> Registry_object r), pw_server := pw_server w @ [addHandler uri]\<rparr>)"
    using assms(1) e fresh other by (auto simp: image_iff)
  then show ?thesis
    using None fresh e by (simp add: GetEndpointForUri_def Endpoint_GetURI_def) blast
qed

lemma exposer_ok_update:
  assumes "exposer_ok (es, w)" and "i < length es" and "endpoint_ok (pw_heap w) e"
    and "ep_uri e = ep_uri (es ! i)" and "ep_registry e = ep_registry (es ! i)"
    and "pw_server w' = pw_server w \<and> ep_auth e = ep_auth (es ! i) \<or>
      pw_server w' = pw_server w @ [addAuthHandler (ep_uri e) h] \<and> ep_auth e = Some h"
    and "pw_heap w' = pw_heap w"
  shows "exposer_ok (es[i := e], w')"
proof -
  have uris: "map ep_uri (es[i := e]) = map ep_uri es" "map ep_registry (es[i := e]) = map ep_registry es"
    using assms(2,4,5) by (simp_all add: map_update list_update_same_conv)
  have same: "ep_uri x \<noteq> ep_uri (es ! i)" if "j < length es" "j \<noteq> i" "x = es ! j" for j x
    using that assms(1,2) nth_eq_iff_index_eq [of "map ep_uri es" j i] by simp
  have "\<forall>x\<in>set (es[i := e]). auth_in (pw_server w') (ep_uri x) = ep_auth x"
  proof
    fix x assume "x \<in> set (es[i := e])"
    then obtain j where j: "j < length es" "x = es[i := e] ! j" by (auto simp: in_set_conv_nth)
    show "auth_in (pw_server w') (ep_uri x) = ep_auth x"
      using j assms(1,2,4,6) same [OF j(1) _ refl] by (cases "j = i") auto
  qed
  moreover have "\<forall>x\<in>set (es[i := e]). endpoint_ok (pw_heap w') x"
    using assms(1,3,7) set_update_subset_insert [of es i e] by auto
  moreover have "ep_uri ` set (es[i := e]) = ep_uri ` set es" using uris(1) by (metis list.set_map)
  moreover have "ep_uri e \<in> ep_uri ` set es" using assms(2,4) by simp
  ultimately show ?thesis
    using assms(1,6) unfolding exposer_ok.simps uris by auto
qed

subsection \<open>What the URIs serve\<close>

definition routes :: "exposer \<Rightarrow> string \<Rightarrow> nat list option" where
  "routes es = map_of (map (\<lambda>e. (ep_uri e, mh_collectables (ep_handler e))) es)"

lemma routes_update:
  "distinct (map ep_uri es) \<Longrightarrow> i < length es \<Longrightarrow> ep_uri e = ep_uri (es ! i) \<Longrightarrow>
     routes (es[i := e]) = (routes es)(ep_uri e \<mapsto> mh_collectables (ep_handler e))"
proof (induction es arbitrary: i)
  case (Cons x es)
  show ?case
  proof (cases i)
    case 0
    then show ?thesis using Cons.prems by (auto simp: routes_def fun_eq_iff)
  next
    case (Suc j)
    then have "ep_uri x \<noteq> ep_uri e" using Cons.prems by auto
    then show ?thesis using Cons Suc by (auto simp: routes_def fun_eq_iff)
  qed
qed simp

lemma routes_snoc: "ep_uri e \<notin> ep_uri ` set es \<Longrightarrow> routes (es @ [e]) = (routes es)(ep_uri e \<mapsto> mh_collectables (ep_handler e))"
  by (induction es) (auto simp: routes_def fun_upd_twist)

lemma routes_nth: "distinct (map ep_uri es) \<Longrightarrow> i < length es \<Longrightarrow> routes es (ep_uri (es ! i)) = Some (mh_collectables (ep_handler (es ! i)))"
  unfolding routes_def by (rule map_of_is_SomeI) (auto simp: o_def)

lemma routes_dom: "dom (routes es) = ep_uri ` set es"
  by (simp add: routes_def dom_map_of_conv_image_fst image_image)

text \<open>The list a URI starts from: what it has, or its own registry alone.\<close>

definition route_or_new :: "exposer \<Rightarrow> string \<Rightarrow> nat \<Rightarrow> nat list" where
  "route_or_new es uri p = (case routes es uri of None \<Rightarrow> [p] | Some ps \<Rightarrow> ps)"

lemma route_of_endpoint:
  assumes "exposer_ok (es, w)" and "GetEndpointForUri a now p uri (es, w) = Some (Inr i, es', w')"
    and "addr_bytes_family a \<noteq> addr_scrapes_family a" and "p \<notin> dom (pw_heap w)"
  shows "exposer_ok (es', w') \<and> i < length es' \<and> ep_uri (es' ! i) = uri \<and>
    mh_collectables (ep_handler (es' ! i)) = route_or_new es uri p \<and>
    (\<forall>x. (routes es')(uri \<mapsto> x) = (routes es)(uri \<mapsto> x)) \<and>
    (if uri \<in> ep_uri ` set es then w' = w else \<exists>r. pw_heap w' = (pw_heap w)(p \<mapsto> Registry_object r))"
proof -
  have e: "exposer_ok (es', w')" "i < length es'" "ep_uri (es' ! i) = uri"
    "if uri \<in> ep_uri ` set es then es' = es \<and> w' = w
     else \<exists>e r. es' = es @ [e] \<and> i = length es \<and> ep_registry e = p \<and> mh_collectables (ep_handler e) = [p] \<and>
       pw_heap w' = (pw_heap w)(p \<mapsto> Registry_object r)"
    using GetEndpointForUri_ok [OF assms(1,3,4), of now uri] assms(2) by auto
  show ?thesis
  proof (cases "uri \<in> ep_uri ` set es")
    case True
    then show ?thesis using e routes_nth [of es i] by (auto simp: route_or_new_def)
  next
    case False
    then have "routes es uri = None" using routes_dom [of es] by blast
    with False e routes_snoc show ?thesis by (auto simp: route_or_new_def)
  qed
qed

subsection \<open>Histories of an exposer\<close>

lemma endpoint_ok_Register: "endpoint_ok heap e \<Longrightarrow> endpoint_ok heap (Endpoint_RegisterCollectable heap q e)"
  by (auto simp: endpoint_ok_def Endpoint_RegisterCollectable_def MetricsHandler_RegisterCollectable_def
      CleanupStalePointers_def weak_expired_def handler_metrics_def)

lemma endpoint_ok_Remove:
  "endpoint_ok heap e \<Longrightarrow> q \<noteq> ep_registry e \<Longrightarrow> endpoint_ok heap (Endpoint_RemoveCollectable heap q e)"
  by (auto simp: endpoint_ok_def Endpoint_RemoveCollectable_def MetricsHandler_RemoveCollectable_def
      lock_ptr_def weak_expired_def handler_metrics_def Let_def)

lemma endpoint_ok_Auth: "endpoint_ok heap e \<Longrightarrow> endpoint_ok heap (e\<lparr>ep_auth := a\<rparr>)"
  by (simp add: endpoint_ok_def)

lemma seq_exn_Some:
  "seq_exn x f = Some (y, s') \<longleftrightarrow> (\<exists>e s. x = Some (Inl e, s) \<and> y = Inl e \<and> s' = s) \<or>
     (\<exists>a s. x = Some (Inr a, s) \<and> f a s = Some (y, s'))"
  by (auto simp: seq_exn_def split: option.splits sum.splits)

text \<open>The calls on the exposer, scrapes served by its endpoints, and everything the rest of the
  program does with objects that are not registries of endpoints. New objects get addresses that
  are not in use.\<close>

inductive exposer_step :: "'o user_collect \<Rightarrow> 'z zlib option \<Rightarrow> exposer \<times> 'o pull_world \<Rightarrow> exposer \<times> 'o pull_world \<Rightarrow> bool"
  for user :: "'o user_collect" and zl :: "'z zlib option" where
  register: "addr_bytes_family a \<noteq> addr_scrapes_family a \<Longrightarrow> p \<notin> dom (pw_heap (snd s)) \<Longrightarrow>
    Exposer_RegisterCollectable a now p q uri s = Some (x, s') \<Longrightarrow> exposer_step user zl s s'"
| remove: "addr_bytes_family a \<noteq> addr_scrapes_family a \<Longrightarrow> p \<notin> dom (pw_heap (snd s)) \<Longrightarrow>
    q \<notin> insert p (ep_registry ` set (fst s)) \<Longrightarrow>
    Exposer_RemoveCollectable a now p q uri s = Some (x, s') \<Longrightarrow> exposer_step user zl s s'"
| auth: "addr_bytes_family a \<noteq> addr_scrapes_family a \<Longrightarrow> p \<notin> dom (pw_heap (snd s)) \<Longrightarrow>
    Exposer_RegisterAuth a now p authCB rlm uri s = Some (x, s') \<Longrightarrow> exposer_step user zl s s'"
| scrape: "e \<in> set es \<Longrightarrow> handleGet user clocks loc zl start stop now (ep_handler e) conn (pw_heap w) = Some (b, conn', heap') \<Longrightarrow>
    exposer_step user zl (es, w) (es, w\<lparr>pw_heap := heap'\<rparr>)"
| objects: "\<forall>e\<in>set es. heap' (ep_registry e) = pw_heap w (ep_registry e) \<Longrightarrow>
    exposer_step user zl (es, w) (es, w\<lparr>pw_heap := heap'\<rparr>)"

inductive exposer_reachable :: "'o user_collect \<Rightarrow> 'z zlib option \<Rightarrow> exposer \<times> 'o pull_world \<Rightarrow> bool"
  for user :: "'o user_collect" and zl :: "'z zlib option" where
  start: "Exposer_new False = Inr es \<Longrightarrow> exposer_reachable user zl (es, \<lparr>pw_heap = heap, pw_server = []\<rparr>)"
| step: "exposer_reachable user zl s \<Longrightarrow> exposer_step user zl s s' \<Longrightarrow> exposer_reachable user zl s'"

lemma with_registry_Some:
  "with_registry p g heap = Some heap' \<longleftrightarrow> (\<exists>r r'. heap p = Some (Registry_object r) \<and> g r = Some r' \<and> heap' = heap(p \<mapsto> Registry_object r'))"
  by (auto simp: with_registry_def split: option.splits collectable_object.splits)

lemma handleGet_keeps:
  assumes "handleGet user clocks loc zl start stop now h conn heap = Some (b, conn', heap')"
    and "endpoint_ok heap e" and "mh_registry h = ep_registry e \<Longrightarrow> h = ep_handler e"
  shows "endpoint_ok heap' e"
proof -
  obtain fs heap1 n sent heap2 heap3 where g: "CollectMetrics user clocks 0 (mh_collectables h) heap = Some (fs, heap1)"
    "with_registry (mh_registry h) (summary_at (request_latencies_family h) (request_latencies h)
       (Summary_Observe now (dint (to_microseconds (stop - start))))) heap1 = Some heap2"
    "with_registry (mh_registry h) (counter_at (bytes_transferred_family h) (bytes_transferred h)
       (Counter_Increment_by (dint (int n)))) heap2 = Some heap3"
    "with_registry (mh_registry h) (counter_at (num_scrapes_family h) (num_scrapes h) Counter_Increment) heap3 = Some heap'"
    using assms(1) by (auto simp: handleGet_def bind_eq_Some_conv)
  obtain r cb cn sl where "heap (ep_registry e) = Some (Registry_object r)" "handler_metrics (ep_handler e) r cb cn sl"
    using assms(2) by (auto simp: endpoint_ok_def)
  from handler_metrics_CollectMetrics [OF g(1) this] obtain r1 sl1 where
    r1: "heap1 (ep_registry e) = Some (Registry_object r1)" "handler_metrics (ep_handler e) r1 cb cn sl1" by blast
  have "\<exists>r' cb cn sl. heap' (ep_registry e) = Some (Registry_object r') \<and> handler_metrics (ep_handler e) r' cb cn sl"
  proof (cases "mh_registry h = ep_registry e")
    case False
    then have "heap' (ep_registry e) = heap1 (ep_registry e)" using g(2-4) by (auto simp: with_registry_Some)
    then show ?thesis using r1 by auto
  next
    case True
    then have h: "h = ep_handler e" by (rule assms(3))
    obtain r2 where r2: "summary_at (request_latencies_family h) (request_latencies h)
        (Summary_Observe now (dint (to_microseconds (stop - start)))) r1 = Some r2" "heap2 (ep_registry e) = Some (Registry_object r2)"
      using g(2) r1 True by (auto simp: with_registry_Some)
    then obtain sl2 where m2: "handler_metrics h r2 cb cn sl2"
      using r1(2) unfolding h [symmetric] by (auto simp: summary_at_def handler_metrics_def touch_opt_def split: option.splits)
    obtain r3 where r3: "heap3 (ep_registry e) = Some (Registry_object r3)" "handler_metrics h r3 (Counter_Increment_by (dint (int n)) cb) cn sl2"
      using g(3) r2(2) True counter_at_bytes [OF m2, of "Counter_Increment_by (dint (int n))"] by (auto simp: with_registry_Some)
    obtain r4 where r4: "counter_at (num_scrapes_family h) (num_scrapes h) Counter_Increment r3 = Some r4"
      "handler_metrics h r4 (Counter_Increment_by (dint (int n)) cb) (Counter_Increment cn) sl2"
      using counter_at_scrapes [OF r3(2)] by blast
    then have "heap' (ep_registry e) = Some (Registry_object r4)" using g(4) r3(1) True by (auto simp: with_registry_Some)
    with r4(2) show ?thesis unfolding h by blast
  qed
  then show ?thesis using assms(2) by (auto simp: endpoint_ok_def)
qed

lemma exposer_ok_heap:
  assumes "exposer_ok (es, w)" and "\<forall>e\<in>set es. endpoint_ok heap' e"
  shows "exposer_ok (es, w\<lparr>pw_heap := heap'\<rparr>)"
  using assms by simp

lemma exposer_register_ok:
  assumes ok: "exposer_ok s" and a: "addr_bytes_family a \<noteq> addr_scrapes_family a" "p \<notin> dom (pw_heap (snd s))"
  shows "\<exists>es' w'. Exposer_RegisterCollectable a now p q uri s = Some (Inr (), es', w') \<and> exposer_ok (es', w') \<and>
    routes es' = (routes (fst s))(uri \<mapsto> filter (\<lambda>c. pw_heap w' c \<noteq> None) (route_or_new (fst s) uri p) @ [q]) \<and>
    (if uri \<in> ep_uri ` set (fst s) then w' = snd s else \<exists>r. pw_heap w' = (pw_heap (snd s))(p \<mapsto> Registry_object r))"
proof -
  obtain es w where s: "s = (es, w)" by fastforce
  obtain i es1 w1 where g: "GetEndpointForUri a now p uri (es, w) = Some (Inr i, es1, w1)"
    using GetEndpointForUri_ok [of es w a p now uri] ok a s by auto
  have r: "exposer_ok (es1, w1)" "i < length es1" "ep_uri (es1 ! i) = uri"
    "mh_collectables (ep_handler (es1 ! i)) = route_or_new es uri p" "\<And>x. (routes es1)(uri \<mapsto> x) = (routes es)(uri \<mapsto> x)"
    "if uri \<in> ep_uri ` set es then w1 = w else \<exists>r. pw_heap w1 = (pw_heap w)(p \<mapsto> Registry_object r)"
    using route_of_endpoint [OF _ g] ok a s by auto
  let ?e = "Endpoint_RegisterCollectable (pw_heap w1) q (es1 ! i)"
  have e: "endpoint_ok (pw_heap w1) ?e" using r(1,2) by (auto intro: endpoint_ok_Register)
  have u: "ep_uri ?e = uri" "ep_registry ?e = ep_registry (es1 ! i)" "ep_auth ?e = ep_auth (es1 ! i)"
    "mh_collectables (ep_handler ?e) = filter (\<lambda>c. pw_heap w1 c \<noteq> None) (route_or_new es uri p) @ [q]"
    using r(3,4) by (simp_all add: Endpoint_RegisterCollectable_def MetricsHandler_RegisterCollectable_def
        CleanupStalePointers_def weak_expired_def)
  have "exposer_ok (es1[i := ?e], w1)"
    by (rule exposer_ok_update [OF r(1,2) e, where h = undefined]) (simp_all add: u r(3))
  moreover have "routes (es1[i := ?e]) = (routes es)(uri \<mapsto> filter (\<lambda>c. pw_heap w1 c \<noteq> None) (route_or_new es uri p) @ [q])"
    using routes_update [of es1 i ?e] r(1-3,5) u by simp
  ultimately show ?thesis using g r(6) by (simp add: s Exposer_RegisterCollectable_def seq_exn_def)
qed

lemma exposer_remove_ok:
  assumes ok: "exposer_ok s" and a: "addr_bytes_family a \<noteq> addr_scrapes_family a" "p \<notin> dom (pw_heap (snd s))"
    and q: "q \<notin> insert p (ep_registry ` set (fst s))"
  shows "\<exists>es' w'. Exposer_RemoveCollectable a now p q uri s = Some (Inr (), es', w') \<and> exposer_ok (es', w') \<and>
    routes es' = (routes (fst s))(uri \<mapsto> filter (\<lambda>c. lock_ptr (pw_heap w') c \<noteq> lock_ptr (pw_heap w') q) (route_or_new (fst s) uri p))"
proof -
  obtain es w where s: "s = (es, w)" by fastforce
  obtain i es1 w1 where g: "GetEndpointForUri a now p uri (es, w) = Some (Inr i, es1, w1)"
    and new: "if uri \<in> ep_uri ` set es then es1 = es \<and> w1 = w
     else \<exists>e r. es1 = es @ [e] \<and> i = length es \<and> ep_registry e = p \<and> mh_collectables (ep_handler e) = [p] \<and>
       pw_heap w1 = (pw_heap w)(p \<mapsto> Registry_object r)"
    using GetEndpointForUri_ok [of es w a p now uri] ok a s by auto
  have r: "exposer_ok (es1, w1)" "i < length es1" "ep_uri (es1 ! i) = uri"
    "mh_collectables (ep_handler (es1 ! i)) = route_or_new es uri p" "\<And>x. (routes es1)(uri \<mapsto> x) = (routes es)(uri \<mapsto> x)"
    using route_of_endpoint [OF _ g] ok a s by auto
  have "ep_registry ` set es1 \<subseteq> insert p (ep_registry ` set es)" using new by (auto split: if_splits)
  moreover have "ep_registry (es1 ! i) \<in> ep_registry ` set es1" using r(2) by simp
  ultimately have "ep_registry (es1 ! i) \<in> insert p (ep_registry ` set es)" by blast
  then have "q \<noteq> ep_registry (es1 ! i)" using q s by auto
  let ?e = "Endpoint_RemoveCollectable (pw_heap w1) q (es1 ! i)"
  have e: "endpoint_ok (pw_heap w1) ?e" using r(1,2) \<open>q \<noteq> _\<close> by (auto intro: endpoint_ok_Remove)
  have u: "ep_uri ?e = uri" "ep_registry ?e = ep_registry (es1 ! i)" "ep_auth ?e = ep_auth (es1 ! i)"
    "mh_collectables (ep_handler ?e) = filter (\<lambda>c. lock_ptr (pw_heap w1) c \<noteq> lock_ptr (pw_heap w1) q) (route_or_new es uri p)"
    using r(3,4) by (auto simp: Endpoint_RemoveCollectable_def MetricsHandler_RemoveCollectable_def Let_def intro: filter_cong)
  have "exposer_ok (es1[i := ?e], w1)"
    by (rule exposer_ok_update [OF r(1,2) e, where h = undefined]) (simp_all add: u r(3))
  moreover have "routes (es1[i := ?e]) = (routes es)(uri \<mapsto> filter (\<lambda>c. lock_ptr (pw_heap w1) c \<noteq> lock_ptr (pw_heap w1) q) (route_or_new es uri p))"
    using routes_update [of es1 i ?e] r(1-3,5) u by simp
  ultimately show ?thesis using g by (simp add: s Exposer_RemoveCollectable_def seq_exn_def)
qed

lemma exposer_auth_ok:
  assumes ok: "exposer_ok s" and a: "addr_bytes_family a \<noteq> addr_scrapes_family a" "p \<notin> dom (pw_heap (snd s))"
  shows "\<exists>es' w'. Exposer_RegisterAuth a now p authCB rlm uri s = Some (Inr (), es', w') \<and> exposer_ok (es', w') \<and>
    routes es' = (routes (fst s))(uri \<mapsto> route_or_new (fst s) uri p) \<and>
    auth_in (pw_server w') uri = Some (BasicAuthHandler_new authCB rlm)"
proof -
  obtain es w where s: "s = (es, w)" by fastforce
  obtain i es1 w1 where g: "GetEndpointForUri a now p uri (es, w) = Some (Inr i, es1, w1)"
    using GetEndpointForUri_ok [of es w a p now uri] ok a s by auto
  have r: "exposer_ok (es1, w1)" "i < length es1" "ep_uri (es1 ! i) = uri"
    "mh_collectables (ep_handler (es1 ! i)) = route_or_new es uri p" "\<And>x. (routes es1)(uri \<mapsto> x) = (routes es)(uri \<mapsto> x)"
    using route_of_endpoint [OF _ g] ok a s by auto
  let ?b = "BasicAuthHandler_new authCB rlm"
  let ?e = "(es1 ! i)\<lparr>ep_auth := Some ?b\<rparr>"
  let ?w = "w1\<lparr>pw_server := pw_server w1 @ [addAuthHandler uri ?b]\<rparr>"
  have e: "endpoint_ok (pw_heap w1) ?e" using r(1,2) by (auto intro: endpoint_ok_Auth)
  have "exposer_ok (es1[i := ?e], ?w)"
    by (rule exposer_ok_update [OF r(1,2) e, where h = ?b]) (simp_all add: r(3))
  moreover have "routes (es1[i := ?e]) = (routes es)(uri \<mapsto> route_or_new es uri p)"
    using routes_update [of es1 i ?e] r by simp
  ultimately show ?thesis
    using g r(3) by (simp add: s Exposer_RegisterAuth_def Endpoint_RegisterAuth_def Let_def seq_exn_def)
qed

lemma exposer_ok_step: "exposer_step user zl s s' \<Longrightarrow> exposer_ok s \<Longrightarrow> exposer_ok s'"
proof (induction rule: exposer_step.induct)
  case (register a p s now q uri x s')
  then show ?case using exposer_register_ok [of s a p now q uri] by auto
next
  case (remove a p s q now uri x s')
  then show ?case using exposer_remove_ok [of s a p q now uri] by auto
next
  case (auth a p s now authCB rlm uri x s')
  then show ?case using exposer_auth_ok [of s a p now authCB rlm uri] by auto
next
  case (scrape e es clocks loc start stop now conn w b conn' heap')
  have "endpoint_ok heap' e'" if "e' \<in> set es" for e'
  proof (rule handleGet_keeps [OF scrape(2)])
    show "endpoint_ok (pw_heap w) e'" using scrape(3) that by simp
    assume "mh_registry (ep_handler e) = ep_registry e'"
    moreover have "mh_registry (ep_handler e) = ep_registry e" using scrape(1,3) by (auto simp: endpoint_ok_def)
    ultimately have "e = e'" using scrape(1,3) that by (auto simp: distinct_map inj_on_def)
    then show "ep_handler e = ep_handler e'" by simp
  qed
  with scrape(3) show ?case by (intro exposer_ok_heap) auto
next
  case (objects es heap' w)
  then show ?case by (intro exposer_ok_heap) (auto intro: endpoint_ok_cong)
qed

lemma exposer_reachable_ok: "exposer_reachable user zl s \<Longrightarrow> exposer_ok s"
proof (induction rule: exposer_reachable.induct)
  case (start es heap)
  then show ?case by (simp add: Exposer_new_def)
next
  case (step s s')
  then show ?case by (blast intro: exposer_ok_step)
qed

subsection \<open>The destructor\<close>

lemma Endpoint_destroy_effect:
  "handler_in (pw_server (Endpoint_destroy e w)) u \<longleftrightarrow> u \<noteq> ep_uri e \<and> handler_in (pw_server w) u"
  "auth_in (pw_server (Endpoint_destroy e w)) u = (if u = ep_uri e \<and> ep_auth e \<noteq> None then None else auth_in (pw_server w) u)"
  "pw_heap (Endpoint_destroy e w) = (pw_heap w)(ep_registry e := None)"
  by (auto simp: Endpoint_destroy_def Let_def handler_in_def handler_step_def auth_in_def auth_step_def)

lemma Exposer_destroy_effect:
  "handler_in (pw_server (Exposer_destroy es w)) u \<longleftrightarrow> u \<notin> ep_uri ` set es \<and> handler_in (pw_server w) u"
  "auth_in (pw_server (Exposer_destroy es w)) u =
     (if \<exists>e\<in>set es. u = ep_uri e \<and> ep_auth e \<noteq> None then None else auth_in (pw_server w) u)"
  "pw_heap (Exposer_destroy es w) = pw_heap w |` (- ep_registry ` set es)"
  unfolding Exposer_destroy_def
  by (induction es arbitrary: w) (auto simp: Endpoint_destroy_effect restrict_map_def fun_eq_iff)

lemma Exposer_destroy_clean:
  assumes "exposer_ok (es, w)"
  shows "\<not> handler_in (pw_server (Exposer_destroy es w)) u \<and> auth_in (pw_server (Exposer_destroy es w)) u = None"
  using assms by (cases "u \<in> ep_uri ` set es") (auto simp: Exposer_destroy_effect)

subsection \<open>Properties\<close>

text \<open>C20: In every state an exposer can get into, through its own calls, scrapes of its endpoints
  and whatever happens to other objects, there is one endpoint per URI and the server was given
  one handler for each, in the order of first use; each endpoint's own registry is alive, holds
  the metrics about its handler and is among what the endpoint exposes; and the server
  authenticates each URI with the handler its endpoint owns, or not at all. Destroying the exposer
  in any such state takes back every handler and every authentication handler from the server,
  frees exactly the endpoints' registries and leaves all other objects alive.\<close>

theorem exposer_invariant:
  assumes "exposer_reachable user zl (es, w)"
  shows "distinct (map ep_uri es) \<and> handled_uris (pw_server w) = map ep_uri es \<and>
    (\<forall>e\<in>set es. ep_registry e \<in> set (mh_collectables (ep_handler e)) \<and> mh_registry (ep_handler e) = ep_registry e \<and>
       (\<exists>r bytes scrapes latencies. pw_heap w (ep_registry e) = Some (Registry_object r) \<and>
          handler_metrics (ep_handler e) r bytes scrapes latencies) \<and>
       auth_in (pw_server w) (ep_uri e) = ep_auth e) \<and>
    (\<forall>u. u \<notin> ep_uri ` set es \<longrightarrow> auth_in (pw_server w) u = None) \<and>
    (\<forall>u. handler_in (pw_server w) u \<longleftrightarrow> u \<in> ep_uri ` set es) \<and>
    (\<forall>u. \<not> handler_in (pw_server (Exposer_destroy es w)) u \<and> auth_in (pw_server (Exposer_destroy es w)) u = None) \<and>
    pw_heap (Exposer_destroy es w) = pw_heap w |` (- ep_registry ` set es)"
proof -
  note ok = exposer_reachable_ok [OF assms]
  show ?thesis
    using ok Exposer_destroy_clean [OF ok] Exposer_destroy_effect(3) [of es w]
    unfolding exposer_ok.simps endpoint_ok_def by blast
qed

definition demo_addrs :: handler_addrs where
  "demo_addrs = \<lparr>addr_bytes_family = 1, addr_bytes = 2, addr_scrapes_family = 3, addr_scrapes = 4,
     addr_latencies_family = 5, addr_latencies = 6\<rparr>"

lemma demo_exposer:
  "\<exists>es w. Exposer_RegisterCollectable demo_addrs 0 7 9 ''/metrics'' ([], \<lparr>pw_heap = Map.empty, pw_server = []\<rparr>) = Some (Inr (), es, w) \<and>
     routes es = [''/metrics'' \<mapsto> [7, 9]] \<and> exposer_reachable user zl (es, w)" for user :: "'o user_collect"
proof -
  let ?s = "([], \<lparr>pw_heap = Map.empty, pw_server = []\<rparr>) :: exposer \<times> 'o pull_world"
  have s: "exposer_reachable user zl ?s" by (rule exposer_reachable.start) (simp add: Exposer_new_def)
  have a: "addr_bytes_family demo_addrs \<noteq> addr_scrapes_family demo_addrs" by (simp add: demo_addrs_def)
  have p: "7 \<notin> dom (pw_heap (snd ?s))" by simp
  from exposer_register_ok [OF exposer_reachable_ok [OF s] a p, of 0 9 "''/metrics''"] obtain es w r where
    e: "Exposer_RegisterCollectable demo_addrs 0 7 9 ''/metrics'' ?s = Some (Inr (), es, w)"
    "routes es = [''/metrics'' \<mapsto> filter (\<lambda>c. pw_heap w c \<noteq> None) [7] @ [9]]" "pw_heap w = [7 \<mapsto> Registry_object r]"
    by (auto simp: route_or_new_def routes_def)
  moreover have "exposer_reachable user zl (es, w)"
    using exposer_reachable.step [OF s exposer_step.register [OF a p e(1)]] .
  ultimately show ?thesis by auto
qed

theorem exposer_invariant_witness:
  "\<exists>es w. exposer_reachable Registry_Collect (None :: string zlib option) (es, w) \<and> map ep_uri es = [''/metrics''] \<and>
     handled_uris (pw_server w) = [''/metrics'']"
proof -
  obtain es w where e: "routes es = [''/metrics'' \<mapsto> [7, 9]]" "exposer_reachable Registry_Collect (None :: string zlib option) (es, w)"
    using demo_exposer [of Registry_Collect "None :: string zlib option"] by blast
  note inv = exposer_invariant [OF e(2)]
  have "set (map ep_uri es) = {''/metrics''}" using e(1) routes_dom [of es] by simp
  moreover have "distinct (map ep_uri es)" using inv by blast
  ultimately have "length (map ep_uri es) = 1" using distinct_card [of "map ep_uri es"] by simp
  then have "map ep_uri es = [''/metrics'']"
    using \<open>set (map ep_uri es) = _\<close> by (cases es) auto
  with inv e(2) show ?thesis by (intro exI [of _ es] exI [of _ w]) simp
qed

text \<open>C40: The exposer's calls act on the table of what each URI exposes: registering drops the
  expired pointers of that URI and appends the new one, removing drops the pointers equal to the
  given one (all expired ones, when it has expired itself), setting the authentication leaves the
  table's lists as they are. A URI that is new in any of these calls, removal included, starts with
  an endpoint of its own; no call throws and no other URI is touched.\<close>

theorem exposer_routes:
  assumes "exposer_reachable user zl s" and "addr_bytes_family a \<noteq> addr_scrapes_family a" and "p \<notin> dom (pw_heap (snd s))"
    and "q \<notin> insert p (ep_registry ` set (fst s))"
  shows "(\<exists>es w. Exposer_RegisterCollectable a now p q uri s = Some (Inr (), es, w) \<and>
      routes es = (routes (fst s))(uri \<mapsto> filter (\<lambda>c. pw_heap w c \<noteq> None) (route_or_new (fst s) uri p) @ [q])) \<and>
    (\<exists>es w. Exposer_RemoveCollectable a now p q uri s = Some (Inr (), es, w) \<and>
      routes es = (routes (fst s))(uri \<mapsto> filter (\<lambda>c. lock_ptr (pw_heap w) c \<noteq> lock_ptr (pw_heap w) q) (route_or_new (fst s) uri p))) \<and>
    (\<exists>es w. Exposer_RegisterAuth a now p authCB rlm uri s = Some (Inr (), es, w) \<and>
      routes es = (routes (fst s))(uri \<mapsto> route_or_new (fst s) uri p) \<and>
      auth_in (pw_server w) uri = Some (BasicAuthHandler_new authCB rlm))"
proof -
  note ok = exposer_reachable_ok [OF assms(1)]
  show ?thesis
    using exposer_register_ok [OF ok assms(2,3), of now q uri] exposer_remove_ok [OF ok assms(2-4), of now uri]
      exposer_auth_ok [OF ok assms(2,3), of now authCB rlm uri] by blast
qed

theorem exposer_routes_witness:
  "\<exists>es (w :: registry pull_world) es' w'. routes es = [''/metrics'' \<mapsto> [7, 9]] \<and>
     Exposer_RemoveCollectable demo_addrs 0 8 9 ''/other'' (es, w) = Some (Inr (), es', w') \<and>
     dom (routes es') = {''/metrics'', ''/other''}"
proof -
  obtain es w where e: "Exposer_RegisterCollectable demo_addrs 0 7 9 ''/metrics'' ([], \<lparr>pw_heap = Map.empty, pw_server = []\<rparr>) = Some (Inr (), es, w)"
    "routes es = [''/metrics'' \<mapsto> [7, 9]]" "exposer_reachable Registry_Collect (None :: string zlib option) (es, w)"
    using demo_exposer [of Registry_Collect "None :: string zlib option"] by blast
  have a: "addr_bytes_family demo_addrs \<noteq> addr_scrapes_family demo_addrs" by (simp add: demo_addrs_def)
  have h: "8 \<notin> dom (pw_heap w) \<and> ep_registry ` set es = {7}"
    using e(1) MetricsHandler_new_ok [OF a, of 0 7]
    by (auto simp: Exposer_RegisterCollectable_def GetEndpointForUri_def Endpoint_new_def Registry_default_def Endpoint_RegisterCollectable_def Let_def seq_exn_def)
  then have p: "8 \<notin> dom (pw_heap (snd (es, w)))" and q: "9 \<notin> insert 8 (ep_registry ` set (fst (es, w)))" by simp_all
  obtain es' w' where "Exposer_RemoveCollectable demo_addrs 0 8 9 ''/other'' (es, w) = Some (Inr (), es', w')"
    "routes es' = (routes es)(''/other'' \<mapsto> filter (\<lambda>c. lock_ptr (pw_heap w') c \<noteq> lock_ptr (pw_heap w') 9) (route_or_new es ''/other'' 8))"
    using exposer_routes [OF e(3) a p q, of 0 "''/other''", THEN conjunct2, THEN conjunct1, unfolded fst_conv]
    by (elim conjE exE) (rule that)
  moreover from this(2) e(2) have "dom (routes es') = {''/metrics'', ''/other''}" by (simp add: insert_commute)
  ultimately show ?thesis using e(2) by blast
qed

end
