(* ===== verification/Serving.thy ===== *)
theory Serving
  imports Exposer
begin

text \<open>
  An endpoint from the outside: a client scrapes a new endpoint again and again. The theory joins
  the exposer, the handler, its registry, the summary of the latencies with its estimators, the
  serializer and the response, and reads the responses back.
\<close>

subsection \<open>The registry of a handler\<close>

definition own_family :: "string \<Rightarrow> string \<Rightarrow> nat \<Rightarrow> 'm \<Rightarrow> 'm family" where
  "own_family name descr a m = \<lparr>fam_metrics = [([], a, m)], fam_name = name, fam_help = descr, fam_constant_labels = []\<rparr>"

definition handler_registry :: "handler \<Rightarrow> counter \<Rightarrow> counter \<Rightarrow> summary \<Rightarrow> registry" where
  "handler_registry h bytes scrapes latencies = \<lparr>insert_behavior = Merge,
     reg_counters = [(bytes_transferred_family h, own_family ''exposer_transferred_bytes_total''
         ''Transferred bytes to metrics services'' (bytes_transferred h) bytes),
       (num_scrapes_family h, own_family ''exposer_scrapes_total''
         ''Number of times metrics were scraped'' (num_scrapes h) scrapes)],
     reg_gauges = [], reg_histograms = [], reg_infos = [],
     reg_summaries = [(request_latencies_family h, own_family ''exposer_request_latencies''
         ''Latencies of serving scrape requests, in microseconds'' (request_latencies h) latencies)]\<rparr>"

definition new_handler :: "handler_addrs \<Rightarrow> nat \<Rightarrow> handler" where
  "new_handler a p = \<lparr>mh_collectables = [], mh_registry = p,
     bytes_transferred_family = addr_bytes_family a, bytes_transferred = addr_bytes a,
     num_scrapes_family = addr_scrapes_family a, num_scrapes = addr_scrapes a,
     request_latencies_family = addr_latencies_family a, request_latencies = addr_latencies a\<rparr>"

lemma MetricsHandler_new_registry:
  assumes "addr_bytes_family a \<noteq> addr_scrapes_family a" and "Summary_new latency_quantiles 60000 5 now = Some (Inr s)"
  shows "MetricsHandler_new a now p (Registry_new Merge) =
    Some (Inr (new_handler a p), handler_registry (new_handler a p) Counter_default Counter_default s)"
proof -
  note ops = Builder_Register_def Builder_Help_def Builder_Name_def Builder_new_def Registry_Add_def Registry_new_def
    NameExistsInOtherType_def FamilyNameExists_def add_to_families_def Family_new_def Family_GetName_def
  note adds = counter_ref_add_def summary_ref_add_def family_ref_add_def Family_Add_def Family_Add_object_def
    find_entry_def update_family_def
  show ?thesis
    unfolding MetricsHandler_new_def using assms names_ok
    by (simp add: ops adds seq_exn_def Summary_default_def Let_def handler_registry_def own_family_def new_handler_def)
qed

definition handler_families :: "counter \<Rightarrow> counter \<Rightarrow> client_metric \<Rightarrow> metric_family list" where
  "handler_families bytes scrapes latencies =
     [\<lparr>family_name = ''exposer_transferred_bytes_total'', family_help = ''Transferred bytes to metrics services'',
       family_type = Counter, family_metric = [Counter_Collect bytes]\<rparr>,
      \<lparr>family_name = ''exposer_scrapes_total'', family_help = ''Number of times metrics were scraped'',
       family_type = Counter, family_metric = [Counter_Collect scrapes]\<rparr>,
      \<lparr>family_name = ''exposer_request_latencies'', family_help = ''Latencies of serving scrape requests, in microseconds'',
       family_type = Summary, family_metric = [latencies]\<rparr>]"

lemma no_more_labels [simp]: "c\<lparr>metric_label := metric_label c\<rparr> = c" for c :: client_metric
  by (cases c) simp

lemma handler_registry_Collect:
  assumes "Summary_Collect (clock (request_latencies h)) latencies = Some (c, latencies')"
  shows "Registry_Collect clock (handler_registry h bytes scrapes latencies) =
    Some (handler_families bytes scrapes c, handler_registry h bytes scrapes latencies')"
  using assms
  by (simp add: Registry_Collect_def handler_registry_def own_family_def Family_Collect_def CollectMetric_def
      counter_class_def summary_class_def to_labels_def handler_families_def)

lemma handler_registry_updates:
  assumes "bytes_transferred_family h \<noteq> num_scrapes_family h"
  shows "counter_at (bytes_transferred_family h) (bytes_transferred h) g (handler_registry h bytes scrapes latencies) =
      Some (handler_registry h (g bytes) scrapes latencies)"
    and "counter_at (num_scrapes_family h) (num_scrapes h) g (handler_registry h bytes scrapes latencies) =
      Some (handler_registry h bytes (g scrapes) latencies)"
    and "summary_at (request_latencies_family h) (request_latencies h) k (handler_registry h bytes scrapes latencies) =
      map_option (handler_registry h bytes scrapes) (k latencies)"
  using assms
  by (auto simp: counter_at_def summary_at_def touch_opt_def handler_registry_def own_family_def split: option.split)

lemma plain_WriteResponse:
  "zl = None \<or> \<not> IsEncodingAccepted conn ''gzip'' \<Longrightarrow>
     WriteResponse zl body conn = Some (length body, conn_write (response_text False body) conn)"
  by (auto simp: WriteResponse_def Let_def response_text_def split: option.split)

subsection \<open>One scrape\<close>

lemma handleGet_own:
  assumes "mh_registry h = p" and "mh_collectables h = [p]" and "bytes_transferred_family h \<noteq> num_scrapes_family h"
    and "heap p = Some (Registry_object (handler_registry h bytes scrapes latencies))"
    and "Summary_Collect (clocks 0 (request_latencies h)) latencies = Some (c, latencies')"
    and "Summary_Observe now (dint (to_microseconds (stop - start))) latencies' = Some latencies''"
    and "zl = None \<or> \<not> IsEncodingAccepted conn ''gzip''"
  defines "body \<equiv> exposition (handler_families bytes scrapes c)"
  shows "handleGet user clocks loc zl start stop now h conn heap = Some (True, conn_write (response_text False body) conn,
    heap(p \<mapsto> Registry_object (handler_registry h (Counter_Increment_by (dint (int (length body))) bytes)
      (Counter_Increment scrapes) latencies'')))"
proof -
  have "CollectMetrics user clocks 0 (mh_collectables h) heap =
      Some (handler_families bytes scrapes c, heap(p \<mapsto> Registry_object (handler_registry h bytes scrapes latencies')))"
    using handler_registry_Collect [where clock = "clocks 0" and h = h, OF assms(5)] assms(4) by (simp add: assms(2))
  then show ?thesis
    using plain_WriteResponse [OF assms(7)] assms(1,6)
    by (simp add: handleGet_def Serializer_exposition body_def with_registry_def handler_registry_updates [OF assms(3)])
qed

subsection \<open>Many scrapes\<close>

record scrape_request =
  rq_clocks :: "nat \<Rightarrow> clock"
  rq_start :: int
  rq_stop :: int
  rq_now :: int
  rq_conn :: connection

text \<open>The calls of the server, and the connections after them.\<close>

fun serve :: "'o user_collect \<Rightarrow> locale_facets \<Rightarrow> 'z zlib option \<Rightarrow> handler \<Rightarrow> scrape_request list \<Rightarrow> 'o heap \<Rightarrow>
    (connection list \<times> 'o heap) option" where
  "serve user loc zl h [] heap = Some ([], heap)"
| "serve user loc zl h (rq # rqs) heap =
     do {
       (served, conn, heap) \<leftarrow> handleGet user (rq_clocks rq) loc zl (rq_start rq) (rq_stop rq) (rq_now rq) h (rq_conn rq) heap;
       (conns, heap) \<leftarrow> serve user loc zl h rqs heap;
       Some (conn # conns, heap)
     }"

text \<open>The readings of the steady clock do not go back: those of the summary while it is collected,
  and the one when the latency is observed. The readings around the request need not be in order.\<close>

fun requests_ok :: "nat \<Rightarrow> int \<Rightarrow> scrape_request list \<Rightarrow> bool" where
  "requests_ok a m [] = True"
| "requests_ok a m (rq # rqs) = (clock_from m (length latency_quantiles) (rq_clocks rq 0 a) \<and>
     clock_end m (length latency_quantiles) (rq_clocks rq 0 a) \<le> rq_now rq \<and> requests_ok a (rq_now rq) rqs)"

text \<open>What a client reads in the response written to a connection.\<close>

definition scraped :: "connection \<Rightarrow> connection \<Rightarrow> exposed list option" where
  "scraped before after = do {
     body \<leftarrow> read_response (\<lambda>s. s) (drop (length (conn_out before)) (conn_out after));
     read_exposition body }"

definition reports_scrapes :: "nat \<Rightarrow> connection \<Rightarrow> connection \<Rightarrow> bool" where
  "reports_scrapes k before after \<longleftrightarrow> (\<exists>fams. scraped before after = Some fams \<and>
     map exposed_name fams = [''exposer_transferred_bytes_total'', ''exposer_scrapes_total'', ''exposer_request_latencies''] \<and>
     exposed_samples (fams ! 1) = [\<lparr>sample_name = ''exposer_scrapes_total'', sample_labels = [],
       sample_value = show_nat k, sample_time = 0\<rparr>] \<and>
     hd (exposed_samples (fams ! 2)) = \<lparr>sample_name = ''exposer_request_latencies_count'', sample_labels = [],
       sample_value = show_nat k, sample_time = 0\<rparr>)"

lemma latency_quantiles_ok: "summary_params latency_quantiles" "proper_quantiles latency_quantiles"
proof -
  have half: "rnd False (1 / 2 ^ k) = Fin (1 / 2 ^ k)" if "k \<le> 1074" for k :: nat
  proof -
    have "(1 / 2 ^ k :: rat) = of_int 1 * 2 powi (- int k)" by (simp add: power_int_minus divide_inverse)
    then have "rnd_fin (1 / 2 ^ k) = 1 / 2 ^ k" by (rule rnd_fin_fixed) (use that in auto)
    moreover have "\<bar>1 / 2 ^ k :: rat\<bar> < overflow_bound"
      unfolding overflow_bound_def by (rule le_less_trans [of _ 1]) (simp_all add: field_simps)
    ultimately have "representable (1 / 2 ^ k)" by (simp add: representable_def)
    then show ?thesis by (rule rnd_False_representable)
  qed
  have pos: "dlt (Fin 0) (rnd False q)" if "1 / 2 ^ 10 \<le> q" for q
    using rnd_mono [OF that, of False False] half [of 10] by (simp add: dlt_dle_trans [of _ "Fin (1 / 1024)"])
  have one: "dle (rnd False q) (Fin 1)" if "q \<le> 1" for q
    using rnd_mono [OF that, of False False] half [of 0] by simp
  have level: "level_ok (rnd False q)" if "1 / 2 ^ 10 \<le> q" "q \<le> 1" for q
    using pos [OF that(1)] one [OF that(2)] by (auto simp: level_ok_def intro: dlt_imp_dle)
  have "quantile_ok (Quantile_new (rnd False q) (rnd False e))" if "1 / 2 ^ 10 \<le> q" "q \<le> 1" "0 \<le> e" for q e
    using that pos [OF that(1)] one [OF that(2)] rnd_nonneg [of e False] rnd_no_sign [of e]
    by (auto intro!: quantile_ok_new)
  moreover have "q_quantile (Quantile_new q e) = q" for q e by (simp add: Quantile_new_def)
  ultimately have "\<forall>q\<in>set latency_quantiles. quantile_ok q \<and> level_ok (q_quantile q)"
    by (simp add: latency_quantiles_def level)
  then show "summary_params latency_quantiles" "proper_quantiles latency_quantiles"
    by (simp_all add: summary_params_def proper_quantiles_def)
qed

subsection \<open>The responses\<close>

lemma handler_families_plain: "metric_label c = [] \<Longrightarrow> \<forall>mf\<in>set (handler_families bytes scrapes c). plain_family mf"
  using names_ok by (simp add: handler_families_def plain_family_def Counter_Collect_def empty_client_metric_def)

lemma handler_families_report:
  assumes "metric_label c = []" and "timestamp_ms c = 0" and "summary_sample_count (metric_summary c) = of_nat k"
    and "Counter_Value scrapes = dint (int k)" and "k \<le> 2 ^ 53"
  shows "reports_scrapes k conn (conn_write (response_text False (exposition (handler_families bytes scrapes c))) conn)"
proof -
  let ?fams = "map exposed_family (handler_families bytes scrapes c)"
  have "scraped conn (conn_write (response_text False (exposition (handler_families bytes scrapes c))) conn) = Some ?fams"
    using read_exposition_exposition [OF handler_families_plain [OF assms(1)]]
    by (simp add: scraped_def conn_write_def read_response_text)
  moreover have "value_text (Counter_Value scrapes) = show_nat k"
    using assms(4,5) by (simp add: dint_exact value_text_of_nat [simplified])
  moreover have "count_text (of_nat k) = show_nat k" using assms(5) by (rule count_text_of_nat)
  ultimately show ?thesis
    unfolding reports_scrapes_def using assms(1-3)
    by (intro exI [of _ ?fams] conjI)
      (simp_all add: handler_families_def exposed_family_def family_samples_def sample_of_def Let_def
        Counter_Collect_def empty_client_metric_def)
qed

text \<open>What holds between the scrapes: \<open>k\<close> have been answered, the clock has not passed \<open>m\<close>.\<close>

definition serving :: "handler \<Rightarrow> int \<Rightarrow> nat \<Rightarrow> int \<Rightarrow> 'o heap \<Rightarrow> bool" where
  "serving h t0 k m heap \<longleftrightarrow> (\<exists>bytes scrapes latencies obs.
     heap (mh_registry h) = Some (Registry_object (handler_registry h bytes scrapes latencies)) \<and>
     Counter_Value scrapes = dint (int k) \<and> length obs = k \<and> NaN \<notin> set (map snd obs) \<and>
     summary_rel latency_quantiles 5 12000000000 t0 m obs latencies)"

lemma servingI:
  "heap (mh_registry h) = Some (Registry_object (handler_registry h bytes scrapes latencies)) \<Longrightarrow>
     Counter_Value scrapes = dint (int k) \<Longrightarrow> length obs = k \<Longrightarrow> NaN \<notin> set (map snd obs) \<Longrightarrow>
     summary_rel latency_quantiles 5 12000000000 t0 m obs latencies \<Longrightarrow> serving h t0 k m heap"
  unfolding serving_def by blast

text \<open>A handler that exposes its own registry.\<close>

definition exposes_itself :: "handler \<Rightarrow> bool" where
  "exposes_itself h \<longleftrightarrow> mh_collectables h = [mh_registry h] \<and> bytes_transferred_family h \<noteq> num_scrapes_family h"

lemma latency_history: "NaN \<notin> set (map snd obs) \<Longrightarrow> length obs \<le> ckms_limit \<Longrightarrow> window_history latency_quantiles obs"
  by (simp add: window_history_def admissible_history_def latency_quantiles_ok)

lemma serving_step:
  assumes h: "exposes_itself h" and s: "serving h t0 k m heap" and k: "k < ckms_limit"
    and rq: "requests_ok (request_latencies h) m (rq # rqs)" and steady: "steady t0 (rq_now rq)" and plain: "zl = None \<or> \<not> IsEncodingAccepted (rq_conn rq) ''gzip''"
  shows "\<exists>conn heap'. handleGet user (rq_clocks rq) loc zl (rq_start rq) (rq_stop rq) (rq_now rq) h (rq_conn rq) heap =
      Some (True, conn, heap') \<and> reports_scrapes k (rq_conn rq) conn \<and> serving h t0 (Suc k) (rq_now rq) heap'"
proof -
  obtain bytes scrapes latencies obs where st:
    "heap (mh_registry h) = Some (Registry_object (handler_registry h bytes scrapes latencies))"
    "Counter_Value scrapes = dint (int k)" "length obs = k" "NaN \<notin> set (map snd obs)"
    "summary_rel latency_quantiles 5 12000000000 t0 m obs latencies"
    using s unfolding serving_def by blast
  let ?clock = "rq_clocks rq 0 (request_latencies h)" and ?v = "dint (to_microseconds (rq_stop rq - rq_start rq))"
  let ?m = "clock_end m (length latency_quantiles) ?clock"
  have from_m: "clock_from m (length latency_quantiles) ?clock" using rq by simp
  have "steady t0 ?m"
    using st(5) rq clock_end_ge [OF from_m] by (intro steady_mono [OF steady]) (auto simp: summary_rel_def)
  from summary_rel_Collect [OF st(5) from_m latency_history latency_quantiles_ok(1) this] st(3,4) k obtain cs l1 where
    l1: "Summary_Collect ?clock latencies = Some (empty_client_metric\<lparr>metric_summary :=
      \<lparr>summary_sample_count = of_nat (length obs), summary_sample_sum = foldl dadd (Fin 0) (map snd obs),
       summary_quantile = cs\<rparr>\<rparr>, l1)" "summary_rel latency_quantiles 5 12000000000 t0 ?m obs l1"
    by auto
  have "window_history latency_quantiles (obs @ [(rq_now rq, ?v)])"
    using st(3,4) k dint_not_NaN [of "to_microseconds (rq_stop rq - rq_start rq)", symmetric] by (intro latency_history) auto
  moreover have "?m \<le> rq_now rq" using rq by simp
  ultimately obtain l2 where l2: "Summary_Observe (rq_now rq) ?v l1 = Some l2"
    "summary_rel latency_quantiles 5 12000000000 t0 (rq_now rq) (obs @ [(rq_now rq, ?v)]) l2"
    using summary_rel_Observe [OF l1(2) _ _ steady] by blast
  have small: "k < 2 ^ 53" using k by (simp add: ckms_limit_def)
  let ?c = "empty_client_metric\<lparr>metric_summary := \<lparr>summary_sample_count = of_nat (length obs),
       summary_sample_sum = foldl dadd (Fin 0) (map snd obs), summary_quantile = cs\<rparr>\<rparr>"
  let ?body = "exposition (handler_families bytes scrapes ?c)"
  let ?heap = "heap(mh_registry h \<mapsto> Registry_object (handler_registry h
      (Counter_Increment_by (dint (int (length ?body))) bytes) (Counter_Increment scrapes) l2))"
  have "handleGet user (rq_clocks rq) loc zl (rq_start rq) (rq_stop rq) (rq_now rq) h (rq_conn rq) heap =
      Some (True, conn_write (response_text False ?body) (rq_conn rq), ?heap)"
    using h unfolding exposes_itself_def
    by (intro handleGet_own [where clocks = "rq_clocks rq" and h = h and heap = heap, OF refl _ _ st(1) l1(1) l2(1) plain]) simp_all
  moreover have "reports_scrapes k (rq_conn rq) (conn_write (response_text False ?body) (rq_conn rq))"
    using st(2,3) small by (intro handler_families_report) (simp_all add: empty_client_metric_def)
  moreover have "serving h t0 (Suc k) (rq_now rq) ?heap"
  proof (rule servingI [OF _ _ _ _ l2(2)])
    show "Counter_Value (Counter_Increment scrapes) = dint (int (Suc k))" using st(2) small by (rule Counter_Increment_exact)
    show "NaN \<notin> set (map snd (obs @ [(rq_now rq, ?v)]))"
      using st(4) dint_not_NaN [of "to_microseconds (rq_stop rq - rq_start rq)", symmetric] by auto
  qed (simp_all add: st(3))
  ultimately show ?thesis by blast
qed

lemma serving_run:
  "exposes_itself h \<Longrightarrow> serving h t0 k m heap \<Longrightarrow> requests_ok (request_latencies h) m rqs \<Longrightarrow> k + length rqs \<le> ckms_limit \<Longrightarrow>
   \<forall>rq\<in>set rqs. zl = None \<or> \<not> IsEncodingAccepted (rq_conn rq) ''gzip'' \<Longrightarrow>
   \<forall>rq\<in>set rqs. steady t0 (rq_now rq) \<Longrightarrow>
   \<exists>conns heap'. serve user loc zl h rqs heap = Some (conns, heap') \<and> length conns = length rqs \<and>
     (\<forall>i<length rqs. reports_scrapes (k + i) (rq_conn (rqs ! i)) (conns ! i))"
proof (induction rqs arbitrary: k m heap)
  case (Cons rq rqs)
  have "k < ckms_limit" using Cons.prems(4) by simp
  from serving_step [OF Cons.prems(1,2) this Cons.prems(3), of zl user loc] Cons.prems(5,6) obtain conn heap1 where
    one: "handleGet user (rq_clocks rq) loc zl (rq_start rq) (rq_stop rq) (rq_now rq) h (rq_conn rq) heap =
      Some (True, conn, heap1)" "reports_scrapes k (rq_conn rq) conn" "serving h t0 (Suc k) (rq_now rq) heap1"
    by auto
  have "\<exists>conns heap'. serve user loc zl h rqs heap1 = Some (conns, heap') \<and> length conns = length rqs \<and>
     (\<forall>i<length rqs. reports_scrapes (Suc k + i) (rq_conn (rqs ! i)) (conns ! i))"
    using Cons.prems by (intro Cons.IH [OF Cons.prems(1) one(3)]) auto
  then obtain conns heap2 where rest: "serve user loc zl h rqs heap1 = Some (conns, heap2)" "length conns = length rqs"
    "\<forall>i<length rqs. reports_scrapes (Suc k + i) (rq_conn (rqs ! i)) (conns ! i)"
    by blast
  have "reports_scrapes (k + i) (rq_conn ((rq # rqs) ! i)) ((conn # conns) ! i)" if "i < length (rq # rqs)" for i
    using that rest(3) one(2) by (cases i) auto
  then show ?case
    using one(1) rest(1,2) by (intro exI [of _ "conn # conns"] exI [of _ heap2]) simp
qed simp

lemma new_endpoint_serves:
  assumes "addr_bytes_family a \<noteq> addr_scrapes_family a"
  shows "\<exists>e w'. Endpoint_new a now p uri w = Some (Inr e, w') \<and> exposes_itself (ep_handler e) \<and>
    request_latencies (ep_handler e) = addr_latencies a \<and> serving (ep_handler e) now 0 now (pw_heap w')"
proof -
  obtain s where s: "Summary_new latency_quantiles 60000 5 now = Some (Inr s)" "0 < rotation_interval (quantile_values s)"
    using latencies_new by blast
  note new = MetricsHandler_new_registry [OF assms s(1)]
  have rel: "summary_rel latency_quantiles 5 12000000000 now now [] s"
    using summary_rel_new [OF s] by (simp add: duration_div_def)
  show ?thesis
    using assms rel
    by (auto simp: Endpoint_new_def Registry_default_def new Let_def Endpoint_RegisterCollectable_def MetricsHandler_RegisterCollectable_def
        CleanupStalePointers_def exposes_itself_def new_handler_def serving_def handler_registry_def
        intro!: exI [of _ Counter_default] exI [of _ s])
qed

subsection \<open>Properties\<close>

text \<open>C3: A new endpoint answers every one of up to a thousand million scrapes that do not ask for
  compression, as long as the steady clock does not go back and the time since the endpoint was made
  fits the clock's 64 bits: no call runs into undefined behaviour or hangs, and from the \<open>k\<close>-th response, counted from zero, a client reads the three families of
  the endpoint, with \<open>k\<close> scrapes and \<open>k\<close> observed latencies.\<close>

theorem endpoint_serves:
  assumes "addr_bytes_family a \<noteq> addr_scrapes_family a"
    and "requests_ok (addr_latencies a) now rqs" and "\<forall>rq\<in>set rqs. steady now (rq_now rq)"
    and "length rqs \<le> ckms_limit" and "\<forall>rq\<in>set rqs. zl = None \<or> \<not> IsEncodingAccepted (rq_conn rq) ''gzip''"
  shows "\<exists>e w' conns heap'. Endpoint_new a now p uri w = Some (Inr e, w') \<and>
    serve user loc zl (ep_handler e) rqs (pw_heap w') = Some (conns, heap') \<and> length conns = length rqs \<and>
    (\<forall>k<length rqs. reports_scrapes k (rq_conn (rqs ! k)) (conns ! k))"
proof -
  obtain e w' where e: "Endpoint_new a now p uri w = Some (Inr e, w')" "exposes_itself (ep_handler e)"
    "request_latencies (ep_handler e) = addr_latencies a" "serving (ep_handler e) now 0 now (pw_heap w')"
    using new_endpoint_serves [OF assms(1)] by blast
  from serving_run [OF e(2,4) _ _ assms(5,3), of user loc] assms(2,4) e(3) obtain conns heap' where
    "serve user loc zl (ep_handler e) rqs (pw_heap w') = Some (conns, heap')" "length conns = length rqs"
    "\<forall>k<length rqs. reports_scrapes k (rq_conn (rqs ! k)) (conns ! k)"
    by auto
  with e(1) show ?thesis by blast
qed

definition demo_request :: "int \<Rightarrow> scrape_request" where
  "demo_request t = \<lparr>rq_clocks = (\<lambda>i a n. t), rq_start = 0, rq_stop = 3000, rq_now = t, rq_conn = demo_conn\<rparr>"

theorem endpoint_serves_witness:
  "\<exists>e w' conns heap'. Endpoint_new demo_addrs 0 9 ''/metrics'' \<lparr>pw_heap = (Map.empty :: registry heap), pw_server = []\<rparr> = Some (Inr e, w') \<and>
    serve Registry_Collect classic_locale (None :: string zlib option) (ep_handler e) [demo_request 10, demo_request 20] (pw_heap w') =
      Some (conns, heap') \<and> length conns = 2 \<and> reports_scrapes 1 demo_conn (conns ! 1)"
proof -
  have a: "addr_bytes_family demo_addrs \<noteq> addr_scrapes_family demo_addrs" by (simp add: demo_addrs_def)
  have q: "requests_ok (addr_latencies demo_addrs) 0 [demo_request 10, demo_request 20]"
    by (simp add: demo_request_def clock_from_def clock_end_def latency_quantiles_def)
  have t: "\<forall>rq\<in>set [demo_request 10, demo_request 20]. steady 0 (rq_now rq)"
    by (simp add: demo_request_def steady_def)
  have n: "length [demo_request 10, demo_request 20] \<le> ckms_limit" by (simp add: ckms_limit_def)
  obtain e w' conns heap' where s: "Endpoint_new demo_addrs 0 9 ''/metrics'' \<lparr>pw_heap = (Map.empty :: registry heap), pw_server = []\<rparr> = Some (Inr e, w')"
    "serve Registry_Collect classic_locale (None :: string zlib option) (ep_handler e) [demo_request 10, demo_request 20] (pw_heap w') =
      Some (conns, heap')" "length conns = length [demo_request 10, demo_request 20]"
    "\<forall>k<length [demo_request 10, demo_request 20]. reports_scrapes k (rq_conn ([demo_request 10, demo_request 20] ! k)) (conns ! k)"
    using endpoint_serves [OF a q t n, of None 9 "''/metrics''" "\<lparr>pw_heap = Map.empty, pw_server = []\<rparr>" Registry_Collect classic_locale]
    by blast
  from s(4) [rule_format, of 1] have "reports_scrapes 1 demo_conn (conns ! 1)" by (simp add: demo_request_def)
  with s(1-3) show ?thesis by auto
qed

end
