(* ===== verification/Protection.thy ===== *)
theory Protection
  imports Serving
begin

text \<open>
  An endpoint with authentication from the outside: the calls of the exposer, the web server that
  asks an authentication handler before a handler, the check of the credentials and the scrape.
  The web server, CivetWeb, is not part of the repository: what it does with a request is the
  argument \<open>server\<close>, of which the documented behaviour is assumed.
\<close>

subsection \<open>The web server\<close>

text \<open>A server answers a GET request for a URI, given the calls made on it in their order, what the
  authentication handlers and handlers do, the connection and the state of the program.\<close>

type_synonym 'w web_server = "server_call list \<Rightarrow> string \<Rightarrow> (basic_auth_handler \<Rightarrow> connection \<Rightarrow> bool \<times> connection) \<Rightarrow>
  (string \<Rightarrow> connection \<Rightarrow> 'w \<Rightarrow> (bool \<times> connection \<times> 'w) option) \<Rightarrow> connection \<Rightarrow> 'w \<Rightarrow> (connection \<times> 'w) option"

text \<open>
  What CivetWeb documents of a request for a URI that has, at that moment, a handler and an
  authentication handler of its own, both given to the server and not removed since. The
  authentication handler is called before the handler: access is denied when it returns 0, so that
  nothing else is done (\<open>mg_set_auth_handler\<close>, \<open>CivetAuthHandler::authorize\<close>). The handler is called
  otherwise; when it returns that it has processed the request, the server adds nothing
  (\<open>mg_set_request_handler\<close>, \<open>CivetHandler::handleGet\<close>). When the handler returns that it has not, the
  server goes on as if there were none: nothing is assumed of that, nor of a URI that lacks either
  of the two. A handler whose behaviour is undefined leaves the server's undefined.
\<close>

definition asks_first :: "'w web_server \<Rightarrow> bool" where
  "asks_first server \<longleftrightarrow> (\<forall>calls uri a auth get conn w. handler_in calls uri \<and> auth_in calls uri = Some a \<longrightarrow>
     (case auth a conn of (granted, conn1) \<Rightarrow>
        if granted then
          (case get uri conn1 w of
             None \<Rightarrow> server calls uri auth get conn w = None
           | Some (handled, conn', w') \<Rightarrow> handled \<longrightarrow> server calls uri auth get conn w = Some (conn', w'))
        else server calls uri auth get conn w = Some (conn1, w)))"

text \<open>The handler of an endpoint of the exposer. \<open>rq\<close> has the clock readings of the scrape.\<close>

definition endpoint_get :: "'o user_collect \<Rightarrow> locale_facets \<Rightarrow> 'z zlib option \<Rightarrow> scrape_request \<Rightarrow> exposer \<Rightarrow>
    string \<Rightarrow> connection \<Rightarrow> 'o heap \<Rightarrow> (bool \<times> connection \<times> 'o heap) option" where
  "endpoint_get user loc zl rq es uri conn heap =
     (case find_index (\<lambda>e. ep_uri e = uri) es of
        None \<Rightarrow> Some (False, conn, heap)
      | Some i \<Rightarrow> handleGet user (rq_clocks rq) loc zl (rq_start rq) (rq_stop rq) (rq_now rq) (ep_handler (es ! i)) conn heap)"

definition exposer_get :: "'o heap web_server \<Rightarrow> 'o user_collect \<Rightarrow> locale_facets \<Rightarrow> 'z zlib option \<Rightarrow> scrape_request \<Rightarrow>
    exposer \<times> 'o pull_world \<Rightarrow> string \<Rightarrow> (connection \<times> 'o heap) option" where
  "exposer_get server user loc zl rq s uri =
     server (pw_server (snd s)) uri authorize (endpoint_get user loc zl rq (fst s)) (rq_conn rq) (pw_heap (snd s))"

subsection \<open>The authentication of a URI stays until it is set again\<close>

lemma GetEndpointForUri_auth:
  "GetEndpointForUri a now p u (es, w) = Some (r, es', w') \<Longrightarrow> auth_in (pw_server w') v = auth_in (pw_server w) v"
  by (auto simp: GetEndpointForUri_def Endpoint_new_def Registry_default_def Let_def split: option.splits sum.splits prod.splits)

lemma Exposer_calls_auth:
  "Exposer_RegisterCollectable a now p q u s = Some (x, s') \<Longrightarrow> auth_in (pw_server (snd s')) v = auth_in (pw_server (snd s)) v"
  "Exposer_RemoveCollectable a now p q u s = Some (x, s') \<Longrightarrow> auth_in (pw_server (snd s')) v = auth_in (pw_server (snd s)) v"
  by (cases s; force simp: Exposer_RegisterCollectable_def Exposer_RemoveCollectable_def seq_exn_Some dest: GetEndpointForUri_auth [where v = v])+

lemma Exposer_RegisterAuth_other:
  assumes "exposer_ok s" and "addr_bytes_family a \<noteq> addr_scrapes_family a" and "p \<notin> dom (pw_heap (snd s))"
    and "Exposer_RegisterAuth a now p authCB rlm u s = Some (x, s')" and "u \<noteq> v"
  shows "auth_in (pw_server (snd s')) v = auth_in (pw_server (snd s)) v"
proof -
  obtain es w where s: "s = (es, w)" by fastforce
  obtain i es1 w1 where g: "GetEndpointForUri a now p u (es, w) = Some (Inr i, es1, w1)" "ep_uri (es1 ! i) = u"
    using GetEndpointForUri_ok [of es w a p now u] assms(1-3) s by auto
  then show ?thesis
    using assms(4,5) GetEndpointForUri_auth [OF g(1), of v]
    by (auto simp: s Exposer_RegisterAuth_def seq_exn_def Endpoint_RegisterAuth_def Let_def)
qed

text \<open>A step that is no call of \<open>RegisterAuth\<close> for the URI.\<close>

definition other_step :: "'o user_collect \<Rightarrow> 'z zlib option \<Rightarrow> string \<Rightarrow> exposer \<times> 'o pull_world \<Rightarrow> exposer \<times> 'o pull_world \<Rightarrow> bool" where
  "other_step user zl uri s s' \<longleftrightarrow> exposer_step user zl s s' \<and>
     (\<forall>a now p authCB rlm x. Exposer_RegisterAuth a now p authCB rlm uri s \<noteq> Some (x, s'))"

lemma other_step_auth:
  assumes "other_step user zl uri s s'" and "exposer_ok s"
  shows "auth_in (pw_server (snd s')) uri = auth_in (pw_server (snd s)) uri"
proof -
  have "exposer_step user zl s s'" using assms(1) by (simp add: other_step_def)
  then show ?thesis
    using assms
  proof (cases rule: exposer_step.cases)
    case (auth a p now authCB rlm u x)
    then have "u \<noteq> uri" using assms(1) by (auto simp: other_step_def)
    then show ?thesis using Exposer_RegisterAuth_other [OF assms(2)] auth by blast
  qed (auto dest: Exposer_calls_auth)
qed

lemma other_steps_auth:
  "(other_step user zl uri)\<^sup>*\<^sup>* s s' \<Longrightarrow> exposer_ok s \<Longrightarrow>
     exposer_ok s' \<and> auth_in (pw_server (snd s')) uri = auth_in (pw_server (snd s)) uri"
proof (induction rule: rtranclp_induct)
  case (step s1 s2)
  then show ?case using other_step_auth exposer_ok_step by (metis other_step_def)
qed simp

lemma exposer_ok_handled:
  assumes "exposer_ok s" and "auth_in (pw_server (snd s)) uri = Some a"
  shows "handler_in (pw_server (snd s)) uri" and "uri \<in> ep_uri ` set (fst s)"
  using assms by (cases s; force)+

text \<open>A scrape that is defined has been processed.\<close>

lemma handleGet_handled: "handleGet user clocks loc zl start stop now h conn heap = Some (b, r) \<Longrightarrow> b"
  by (auto simp: handleGet_def bind_eq_Some_conv Let_def split: prod.splits)

lemma asks_firstD:
  assumes "asks_first server" and "handler_in calls uri" and "auth_in calls uri = Some a"
  shows "case auth a conn of (granted, conn1) \<Rightarrow>
        if granted then
          (case get uri conn1 w of
             None \<Rightarrow> server calls uri auth get conn w = None
           | Some (handled, conn', w') \<Rightarrow> handled \<longrightarrow> server calls uri auth get conn w = Some (conn', w'))
        else server calls uri auth get conn w = Some (conn1, w)"
  by (rule assms(1) [unfolded asks_first_def, THEN spec, THEN spec, THEN spec, THEN spec, THEN spec, THEN spec, THEN spec,
        THEN mp, OF conjI [OF assms(2,3)]])

lemma asks_first_denied:
  assumes "asks_first server" and "handler_in calls uri" and "auth_in calls uri = Some a" and "auth a conn = (False, conn')"
  shows "server calls uri auth get conn w = Some (conn', w)"
  using asks_firstD [OF assms(1-3), where auth = auth and conn = conn and get = get and w = w] assms(4) by simp

lemma asks_first_granted:
  assumes "asks_first server" and "handler_in calls uri" and "auth_in calls uri = Some a" and "auth a conn = (True, conn')"
    and "\<And>b r. get uri conn' w = Some (b, r) \<Longrightarrow> b"
  shows "server calls uri auth get conn w = map_option snd (get uri conn' w)"
proof -
  have "case get uri conn' w of None \<Rightarrow> server calls uri auth get conn w = None
      | Some (handled, conn', w') \<Rightarrow> handled \<longrightarrow> server calls uri auth get conn w = Some (conn', w')"
    using asks_firstD [OF assms(1-3), where auth = auth and conn = conn and get = get and w = w] assms(4) by simp
  then show ?thesis using assms(5) by (cases "get uri conn' w") auto
qed

lemma authorize_refuses: "\<not> AuthorizeInner h conn \<Longrightarrow> authorize h conn = (False, WriteUnauthorizedResponse h conn)"
  by (simp add: authorize_def)

lemma authorize_accepts: "AuthorizeInner h conn \<Longrightarrow> authorize h conn = (True, conn)"
  by (simp add: authorize_def)

definition refusal :: "string \<Rightarrow> string" where
  "refusal rlm = ''HTTP/1.1 401 Unauthorized'' @ crlf @
     ''WWW-Authenticate: Basic realm='' @ [quote_char] @ until_null rlm @ [quote_char] @ crlf @
     ''Connection: close'' @ crlf @ ''Content-Length: 0'' @ crlf @ crlf"

lemma refusal_written: "WriteUnauthorizedResponse (BasicAuthHandler_new authCB rlm) conn = conn_write (refusal rlm) conn"
  by (simp add: WriteUnauthorizedResponse_def refusal_def conn_write_def BasicAuthHandler_new_def)

text \<open>The credentials of a request that the callback accepts.\<close>

definition presents :: "(string \<Rightarrow> string \<Rightarrow> bool) \<Rightarrow> connection \<Rightarrow> bool" where
  "presents authCB conn \<longleftrightarrow> (\<exists>header name password. conn_header conn ''Authorization'' = Some header \<and>
     carries header name password \<and> authCB name password)"

lemma presents_iff: "AuthorizeInner (BasicAuthHandler_new authCB rlm) conn \<longleftrightarrow> presents authCB conn"
  by (simp add: AuthorizeInner_iff presents_def BasicAuthHandler_new_def)

lemma endpoint_get_found:
  assumes "uri \<in> ep_uri ` set es"
  shows "\<exists>e\<in>set es. ep_uri e = uri \<and> endpoint_get user loc zl rq es uri conn heap =
    handleGet user (rq_clocks rq) loc zl (rq_start rq) (rq_stop rq) (rq_now rq) (ep_handler e) conn heap"
proof (cases "find_index (\<lambda>e. ep_uri e = uri) es")
  case None
  then show ?thesis using assms by (auto simp: find_index_None)
next
  case (Some i)
  then show ?thesis using find_index_Some [OF Some] by (auto simp: endpoint_get_def)
qed

subsection \<open>Properties\<close>

text \<open>C17: With a web server that does what CivetWeb documents: from the call of \<open>RegisterAuth\<close> for a
  URI on, whatever the exposer does until the next such
  call (collectables come and go, other URIs get authentication, scrapes are served), a request
  for the URI whose header carries no user name and password accepted by the callback is answered
  with the 401 response alone and changes nothing: no metric is collected or shown, no scrape is
  counted. A request that presents accepted credentials is served by the handler of that URI's
  endpoint, as if there were no authentication.\<close>

theorem protected_endpoint:
  assumes "exposer_reachable user zl s" and "addr_bytes_family a \<noteq> addr_scrapes_family a" and "p \<notin> dom (pw_heap (snd s))"
    and "Exposer_RegisterAuth a now p authCB rlm uri s = Some (Inr (), s1)"
    and "(other_step user zl uri)\<^sup>*\<^sup>* s1 s2" and "asks_first server"
  shows "if presents authCB (rq_conn rq)
    then \<exists>e\<in>set (fst s2). ep_uri e = uri \<and> exposer_get server user loc zl rq s2 uri =
      map_option snd (handleGet user (rq_clocks rq) loc zl (rq_start rq) (rq_stop rq) (rq_now rq) (ep_handler e)
        (rq_conn rq) (pw_heap (snd s2)))
    else exposer_get server user loc zl rq s2 uri = Some (conn_write (refusal rlm) (rq_conn rq), pw_heap (snd s2))"
proof -
  let ?b = "BasicAuthHandler_new authCB rlm"
  have s1: "exposer_ok s1" "auth_in (pw_server (snd s1)) uri = Some ?b"
    using exposer_auth_ok [OF exposer_reachable_ok [OF assms(1)] assms(2,3), of now authCB rlm uri] assms(4) by auto
  have s2: "exposer_ok s2" "auth_in (pw_server (snd s2)) uri = Some ?b"
    using other_steps_auth [OF assms(5) s1(1)] s1(2) by auto
  note handled = exposer_ok_handled [OF s2]
  show ?thesis
  proof (cases "presents authCB (rq_conn rq)")
    case False
    then have "authorize ?b (rq_conn rq) = (False, conn_write (refusal rlm) (rq_conn rq))"
      by (simp add: authorize_refuses presents_iff refusal_written)
    with asks_first_denied [OF assms(6) handled(1) s2(2), of authorize "rq_conn rq"] False show ?thesis
      by (simp add: exposer_get_def)
  next
    case True
    obtain e where e: "e \<in> set (fst s2)" "ep_uri e = uri"
      "endpoint_get user loc zl rq (fst s2) uri (rq_conn rq) (pw_heap (snd s2)) =
        handleGet user (rq_clocks rq) loc zl (rq_start rq) (rq_stop rq) (rq_now rq) (ep_handler e) (rq_conn rq) (pw_heap (snd s2))"
      using endpoint_get_found [OF handled(2), of user loc zl rq "rq_conn rq" "pw_heap (snd s2)"] by blast
    have "authorize ?b (rq_conn rq) = (True, rq_conn rq)"
      using True by (simp add: authorize_accepts presents_iff)
    with asks_first_granted [OF assms(6) handled(1) s2(2), of authorize "rq_conn rq" "rq_conn rq"
        "endpoint_get user loc zl rq (fst s2)" "pw_heap (snd s2)"]
    have "exposer_get server user loc zl rq s2 uri =
        map_option snd (endpoint_get user loc zl rq (fst s2) uri (rq_conn rq) (pw_heap (snd s2)))"
      using handleGet_handled unfolding e(3) exposer_get_def by blast
    with True e show ?thesis by auto
  qed
qed

text \<open>A server with the documented behaviour, which answers with a page of its own where there is no
  handler or it does not process the request; and a request without credentials.\<close>

definition not_found :: "'w \<Rightarrow> connection \<Rightarrow> connection \<times> 'w" where
  "not_found w conn = (conn_write (''HTTP/1.1 404 Not Found'' @ crlf @ crlf) conn, w)"

definition demo_server :: "'w web_server" where
  "demo_server calls uri auth get conn w =
     (case (case auth_in calls uri of None \<Rightarrow> (True, conn) | Some a \<Rightarrow> auth a conn) of (granted, conn) \<Rightarrow>
        if \<not> granted then Some (conn, w)
        else if \<not> handler_in calls uri then Some (not_found w conn)
        else (case get uri conn w of
                None \<Rightarrow> None
              | Some (handled, conn', w') \<Rightarrow> Some (if handled then (conn', w') else not_found w' conn')))"

lemma demo_server_asks_first: "asks_first (demo_server :: 'w web_server)"
  unfolding asks_first_def
proof (intro allI impI)
  fix calls uri a conn and w :: 'w and auth :: "basic_auth_handler \<Rightarrow> connection \<Rightarrow> bool \<times> connection"
    and get :: "string \<Rightarrow> connection \<Rightarrow> 'w \<Rightarrow> (bool \<times> connection \<times> 'w) option"
  assume on: "handler_in calls uri \<and> auth_in calls uri = Some a"
  obtain granted conn1 where a: "auth a conn = (granted, conn1)" by fastforce
  show "case auth a conn of (granted, conn1) \<Rightarrow>
      if granted then
        (case get uri conn1 w of
           None \<Rightarrow> demo_server calls uri auth get conn w = None
         | Some (handled, conn', w') \<Rightarrow> handled \<longrightarrow> demo_server calls uri auth get conn w = Some (conn', w'))
      else demo_server calls uri auth get conn w = Some (conn1, w)"
    using on a by (cases "get uri conn1 w") (auto simp: demo_server_def)
qed

definition demo_rejected :: scrape_request where
  "demo_rejected = \<lparr>rq_clocks = (\<lambda>_ _ _. 0), rq_start = 0, rq_stop = 0, rq_now = 0,
     rq_conn = \<lparr>conn_header = (\<lambda>n. None), conn_out = ''''\<rparr>\<rparr>"

theorem protected_endpoint_witness:
  "\<exists>s1. Exposer_RegisterAuth demo_addrs 0 7 (\<lambda>u p. p = ''secret'') ''metrics'' ''/metrics''
       ([], \<lparr>pw_heap = Map.empty, pw_server = []\<rparr>) = Some (Inr (), s1) \<and>
     exposer_get demo_server Registry_Collect classic_locale (None :: string zlib option) demo_rejected s1 ''/metrics'' =
       Some (conn_write (refusal ''metrics'') (rq_conn demo_rejected), pw_heap (snd s1))"
proof -
  let ?s = "([], \<lparr>pw_heap = Map.empty, pw_server = []\<rparr>) :: exposer \<times> registry pull_world"
  let ?cb = "\<lambda>u p. p = ''secret''"
  have s: "exposer_reachable Registry_Collect (None :: string zlib option) ?s" by (rule exposer_reachable.start) (simp add: Exposer_new_def)
  have a: "addr_bytes_family demo_addrs \<noteq> addr_scrapes_family demo_addrs" by (simp add: demo_addrs_def)
  have p: "7 \<notin> dom (pw_heap (snd ?s))" by simp
  obtain s1 where s1: "Exposer_RegisterAuth demo_addrs 0 7 ?cb ''metrics'' ''/metrics'' ?s = Some (Inr (), s1)"
    using exposer_auth_ok [OF exposer_reachable_ok [OF s] a p, of 0 ?cb "''metrics''" "''/metrics''"] by auto
  have "\<not> presents ?cb (rq_conn demo_rejected)" by (simp add: presents_def demo_rejected_def)
  then show ?thesis
    using protected_endpoint [OF s a p s1 rtranclp.rtrancl_refl demo_server_asks_first, of demo_rejected] s1 by auto
qed

end
