(* ===== verification/Locks.thy ===== *)
theory Locks
  imports Prelude
begin

text \<open>
  Threads and mutexes, apart from any program: what a thread does with the mutexes is a list of
  actions, a system of threads moves one action at a time, and a discipline on the lists (mutexes
  are taken in descending levels, released in the reverse order, and nothing is awaited while one
  is held) under which no reachable state is stuck and guarded data is never touched by two
  threads at once. \<open>std::mutex\<close> is not recursive: a thread that locks a mutex it holds waits for
  ever.
\<close>

subsection \<open>Actions and threads\<close>

text \<open>\<open>Touch m\<close> is an access to the data that the mutex \<open>m\<close> guards, or several accesses with no
  other action between them; \<open>Await j\<close> waits for the end of the thread \<open>j\<close>, as
  \<open>std::future::get\<close> does.\<close>

datatype 'm action = Acquire 'm | Release 'm | Touch 'm | Await nat

text \<open>The scope of a \<open>std::lock_guard\<close>: its destructor releases the mutex however the scope ends.\<close>

definition lock_guard :: "'m \<Rightarrow> 'm action list \<Rightarrow> 'm action list" where
  "lock_guard m body = Acquire m # body @ [Release m]"

text \<open>A thread: the mutexes it holds, the last one taken first, and what it has still to do.\<close>

type_synonym 'm thread = "'m list \<times> 'm action list"

inductive lock_step :: "'m thread list \<Rightarrow> 'm thread list \<Rightarrow> bool" where
  acquire: "i < length ts \<Longrightarrow> ts ! i = (held, Acquire m # p) \<Longrightarrow> \<forall>t\<in>set ts. m \<notin> set (fst t) \<Longrightarrow>
    lock_step ts (ts[i := (m # held, p)])"
| release: "i < length ts \<Longrightarrow> ts ! i = (held, Release m # p) \<Longrightarrow> m \<in> set held \<Longrightarrow>
    lock_step ts (ts[i := (remove1 m held, p)])"
| touch: "i < length ts \<Longrightarrow> ts ! i = (held, Touch m # p) \<Longrightarrow> lock_step ts (ts[i := (held, p)])"
| await: "i < length ts \<Longrightarrow> ts ! i = (held, Await j # p) \<Longrightarrow> j < length ts \<Longrightarrow> snd (ts ! j) = [] \<Longrightarrow>
    lock_step ts (ts[i := (held, p)])"

inductive_cases lock_stepE: "lock_step ts ts'"

definition lock_start :: "'m action list list \<Rightarrow> 'm thread list" where
  "lock_start ps = map (Pair []) ps"

definition remaining :: "'m thread list \<Rightarrow> nat" where
  "remaining ts = sum_list (map (\<lambda>t. length (snd t)) ts)"

lemma remaining_update:
  "i < length ts \<Longrightarrow> ts ! i = (held, a # p) \<Longrightarrow> remaining ts = Suc (remaining (ts[i := (held', p)]))"
proof (induction ts arbitrary: i)
  case (Cons t ts)
  then show ?case by (cases i) (auto simp: remaining_def)
qed simp

lemma lock_step_remaining: "lock_step ts ts' \<Longrightarrow> remaining ts = Suc (remaining ts')"
  by (erule lock_stepE) (simp_all only: remaining_update)

lemma lock_step_length: "lock_step ts ts' \<Longrightarrow> length ts' = length ts"
  by (erule lock_stepE) simp_all

lemma remaining_0: "remaining ts = 0 \<longleftrightarrow> (\<forall>t\<in>set ts. snd t = [])"
  by (auto simp: remaining_def)

lemma lock_steps_remaining: "(lock_step ^^ n) ts ts' \<Longrightarrow> n + remaining ts' = remaining ts"
proof (induction n arbitrary: ts')
  case (Suc n)
  then obtain u where "(lock_step ^^ n) ts u" "lock_step u ts'" by auto
  then show ?case using Suc.IH [of u] lock_step_remaining [of u ts'] by simp
qed simp

subsection \<open>The discipline\<close>

text \<open>What the thread \<open>i\<close> may do while it holds \<open>held\<close>.\<close>

fun ordered :: "('m \<Rightarrow> nat) \<Rightarrow> nat \<Rightarrow> 'm list \<Rightarrow> 'm action list \<Rightarrow> bool" where
  "ordered level i held [] \<longleftrightarrow> held = []"
| "ordered level i held (Acquire m # p) \<longleftrightarrow> (\<forall>k\<in>set held. level m < level k) \<and> ordered level i (m # held) p"
| "ordered level i held (Release m # p) \<longleftrightarrow> held \<noteq> [] \<and> hd held = m \<and> ordered level i (tl held) p"
| "ordered level i held (Touch m # p) \<longleftrightarrow> m \<in> set held \<and> ordered level i held p"
| "ordered level i held (Await j # p) \<longleftrightarrow> held = [] \<and> j < i \<and> ordered level i held p"

lemma ordered_append: "ordered level i held p \<Longrightarrow> ordered level i [] q \<Longrightarrow> ordered level i held (p @ q)"
  by (induction level i held p rule: ordered.induct) auto

lemma ordered_concat: "(\<And>c. c \<in> set cs \<Longrightarrow> ordered level i [] c) \<Longrightarrow> ordered level i [] (concat cs)"
  by (induction cs) (auto intro: ordered_append)

text \<open>A part of a program that only takes mutexes below a level, whatever is held from there on.\<close>

definition guarded :: "('m \<Rightarrow> nat) \<Rightarrow> nat \<Rightarrow> 'm action list \<Rightarrow> bool" where
  "guarded level n p \<longleftrightarrow> (\<forall>i held q. (\<forall>k\<in>set held. n \<le> level k) \<longrightarrow> ordered level i held q \<longrightarrow> ordered level i held (p @ q))"

lemma guardedD: "guarded level n p \<Longrightarrow> (\<And>k. k \<in> set held \<Longrightarrow> n \<le> level k) \<Longrightarrow> ordered level i held q \<Longrightarrow>
    ordered level i held (p @ q)"
  by (auto simp: guarded_def)

lemma guarded_Nil [intro, simp]: "guarded level n []"
  by (simp add: guarded_def)

lemma guarded_append [intro]: "guarded level n p \<Longrightarrow> guarded level n q \<Longrightarrow> guarded level n (p @ q)"
  by (simp add: guarded_def)

lemma guarded_concat [intro]: "(\<And>p. p \<in> set ps \<Longrightarrow> guarded level n p) \<Longrightarrow> guarded level n (concat ps)"
  by (induction ps) auto

lemma guarded_mono: "guarded level n p \<Longrightarrow> n \<le> n' \<Longrightarrow> guarded level n' p"
  unfolding guarded_def by (meson le_trans)

text \<open>A part of a program that runs inside the scope of the mutex \<open>m\<close>: it may touch the data of \<open>m\<close>,
  and takes only mutexes below it.\<close>

definition in_scope :: "('m \<Rightarrow> nat) \<Rightarrow> 'm \<Rightarrow> 'm action list \<Rightarrow> bool" where
  "in_scope level m p \<longleftrightarrow> (\<forall>i held q. m \<in> set held \<longrightarrow> (\<forall>k\<in>set held. level m \<le> level k) \<longrightarrow>
     ordered level i held q \<longrightarrow> ordered level i held (p @ q))"

lemma in_scopeD: "in_scope level m p \<Longrightarrow> m \<in> set held \<Longrightarrow> (\<And>k. k \<in> set held \<Longrightarrow> level m \<le> level k) \<Longrightarrow>
    ordered level i held q \<Longrightarrow> ordered level i held (p @ q)"
  by (simp add: in_scope_def)

lemma in_scope_guarded: "guarded level n p \<Longrightarrow> n \<le> level m \<Longrightarrow> in_scope level m p"
  using guarded_mono [of level n p "level m"] by (simp add: guarded_def in_scope_def)

lemma in_scope_Nil [intro, simp]: "in_scope level m []"
  by (simp add: in_scope_def)

lemma in_scope_Touch [intro]: "in_scope level m p \<Longrightarrow> in_scope level m (Touch m # p)"
  by (simp add: in_scope_def)

lemma in_scope_append [intro]: "in_scope level m p \<Longrightarrow> in_scope level m q \<Longrightarrow> in_scope level m (p @ q)"
  by (simp add: in_scope_def)

lemma in_scope_concat [intro]: "(\<And>p. p \<in> set ps \<Longrightarrow> in_scope level m p) \<Longrightarrow> in_scope level m (concat ps)"
  by (induction ps) auto

lemma guarded_lock_guard [intro]:
  assumes "in_scope level m body" and "level m < n"
  shows "guarded level n (lock_guard m body)"
  unfolding guarded_def
proof (intro allI impI)
  fix i held q assume held: "\<forall>k\<in>set held. n \<le> level k" and q: "ordered level i held q"
  then have "ordered level i (m # held) (body @ Release m # q)"
    using assms(2) by (intro in_scopeD [OF assms(1)]) (auto dest: order.strict_trans2)
  then show "ordered level i held (lock_guard m body @ q)"
    using held assms(2) by (auto simp: lock_guard_def dest: order.strict_trans2)
qed

lemma guarded_ordered: "guarded level n p \<Longrightarrow> ordered level i [] p"
  using guardedD [of level n p "[]" i "[]"] by simp

lemma awaits_ordered: "(\<And>j. j \<in> set js \<Longrightarrow> j < i) \<Longrightarrow> ordered level i [] (map Await js)"
  by (induction js) auto

subsection \<open>Systems that keep the discipline\<close>

definition descending :: "('m \<Rightarrow> nat) \<Rightarrow> 'm list \<Rightarrow> bool" where
  "descending level held \<longleftrightarrow> sorted_wrt (\<lambda>m k. level m < level k) held"

definition system_ok :: "('m \<Rightarrow> nat) \<Rightarrow> 'm thread list \<Rightarrow> bool" where
  "system_ok level ts \<longleftrightarrow>
     (\<forall>i<length ts. ordered level i (fst (ts ! i)) (snd (ts ! i)) \<and> descending level (fst (ts ! i))) \<and>
     (\<forall>i<length ts. \<forall>j<length ts. i \<noteq> j \<longrightarrow> set (fst (ts ! i)) \<inter> set (fst (ts ! j)) = {})"

lemma system_ok_thread:
  "system_ok level ts \<Longrightarrow> i < length ts \<Longrightarrow> ts ! i = (held, p) \<Longrightarrow> ordered level i held p \<and> descending level held"
  by (auto simp: system_ok_def)

lemma system_ok_owner:
  "system_ok level ts \<Longrightarrow> i < length ts \<Longrightarrow> j < length ts \<Longrightarrow> m \<in> set (fst (ts ! i)) \<Longrightarrow> m \<in> set (fst (ts ! j)) \<Longrightarrow> i = j"
  unfolding system_ok_def by blast

lemma lock_start_ok: "(\<And>i. i < length ps \<Longrightarrow> ordered level i [] (ps ! i)) \<Longrightarrow> system_ok level (lock_start ps)"
  by (simp add: system_ok_def lock_start_def descending_def)

lemma system_ok_update:
  assumes "system_ok level ts" and "i < length ts" and "ordered level i held p" and "descending level held"
    and "\<And>j m. j < length ts \<Longrightarrow> j \<noteq> i \<Longrightarrow> m \<in> set held \<Longrightarrow> m \<notin> set (fst (ts ! j))"
  shows "system_ok level (ts[i := (held, p)])"
  using assms unfolding system_ok_def by (auto simp: nth_list_update)

lemma system_ok_keep:
  assumes "system_ok level ts" and "i < length ts" and "ts ! i = (held, q)" and "ordered level i held' p"
    and "descending level held'" and "set held' \<subseteq> set held"
  shows "system_ok level (ts[i := (held', p)])"
proof (rule system_ok_update [OF assms(1,2,4,5)])
  fix j m assume j: "j < length ts" "j \<noteq> i" "m \<in> set held'"
  then show "m \<notin> set (fst (ts ! j))" using system_ok_owner [OF assms(1) j(1) assms(2), of m] assms(3,6) by auto
qed

lemma lock_step_ok:
  assumes "lock_step ts ts'" and ok: "system_ok level ts"
  shows "system_ok level ts'"
  using assms(1)
proof (cases rule: lock_step.cases)
  case (acquire i held m p)
  have "ordered level i held (Acquire m # p)" "descending level held" using system_ok_thread [OF ok acquire(2,3)] by auto
  then have o: "ordered level i (m # held) p" "descending level (m # held)" by (auto simp: descending_def)
  show ?thesis unfolding acquire(1)
  proof (rule system_ok_update [OF ok acquire(2) o])
    fix j k assume j: "j < length ts" "j \<noteq> i" "k \<in> set (m # held)"
    then show "k \<notin> set (fst (ts ! j))"
      using acquire(4) system_ok_owner [OF ok j(1) acquire(2), of k] acquire(3) by (cases "k = m") auto
  qed
next
  case (release i held m p)
  have o: "ordered level i held (Release m # p)" "descending level held" using system_ok_thread [OF ok release(2,3)] by auto
  then obtain rest where "held = m # rest" by (cases held) auto
  then show ?thesis unfolding release(1)
    using o by (intro system_ok_keep [OF ok release(2,3)]) (auto simp: descending_def)
next
  case (touch i held m p)
  show ?thesis unfolding touch(1)
    using system_ok_thread [OF ok touch(2,3)] by (intro system_ok_keep [OF ok touch(2,3)]) auto
next
  case (await i held j p)
  show ?thesis unfolding await(1)
    using system_ok_thread [OF ok await(2,3)] by (intro system_ok_keep [OF ok await(2,3)]) auto
qed

lemma lock_steps_ok: "lock_step\<^sup>*\<^sup>* ts ts' \<Longrightarrow> system_ok level ts \<Longrightarrow> system_ok level ts'"
  by (induction rule: rtranclp_induct) (auto intro: lock_step_ok)

text \<open>In a stuck system every unfinished thread that holds a mutex waits for a lower one.\<close>

lemma blocked_descent:
  assumes ok: "system_ok level ts" and stuck: "\<nexists>ts'. lock_step ts ts'"
    and i: "i < length ts" "ts ! i = (held, Acquire m # p)"
  shows "\<exists>j held' m' p'. j < length ts \<and> ts ! j = (held', Acquire m' # p') \<and> level m' < level m"
proof -
  have "\<not> (\<forall>t\<in>set ts. m \<notin> set (fst t))" using stuck acquire [OF i] by blast
  then obtain j where j: "j < length ts" "m \<in> set (fst (ts ! j))" by (metis in_set_conv_nth)
  obtain held' p' where t: "ts ! j = (held', p')" by (cases "ts ! j")
  have o: "ordered level j held' p'" using system_ok_thread [OF ok j(1) t] by simp
  have m: "m \<in> set held'" using j(2) t by simp
  show ?thesis
  proof (cases p')
    case (Cons a q)
    show ?thesis
    proof (cases a)
      case (Acquire m')
      then show ?thesis using j(1) t o m Cons by auto
    next
      case (Release m')
      have "m' \<in> set held'" using o Cons Release by (cases held') auto
      then have False using stuck release [OF j(1), of held' m' q] t Cons Release by auto
      then show ?thesis ..
    next
      case (Touch m')
      then have False using stuck touch [OF j(1), of held' m' q] t Cons by auto
      then show ?thesis ..
    qed (use o m Cons in auto)
  qed (use o m in auto)
qed

lemma no_blocked:
  assumes ok: "system_ok level ts" and stuck: "\<nexists>ts'. lock_step ts ts'"
  shows "i < length ts \<Longrightarrow> ts ! i = (held, Acquire m # p) \<Longrightarrow> False"
proof (induction "level m" arbitrary: i held m p rule: less_induct)
  case less
  then show ?case using blocked_descent [OF ok stuck less.prems] by blast
qed

lemma system_progress:
  assumes ok: "system_ok level ts" and "remaining ts \<noteq> 0"
  shows "\<exists>ts'. lock_step ts ts'"
proof (rule ccontr)
  assume stuck: "\<nexists>ts'. lock_step ts ts'"
  have fin: "snd (ts ! i) = []" if "i < length ts" for i
    using that
  proof (induction i rule: less_induct)
    case (less i)
    obtain held q where t: "ts ! i = (held, q)" by (cases "ts ! i")
    have o: "ordered level i held q" using system_ok_thread [OF ok less.prems t] by simp
    show ?case
    proof (cases q)
      case (Cons a p)
      have False
      proof (cases a)
        case (Acquire m)
        then show ?thesis using no_blocked [OF ok stuck less.prems] t Cons by blast
      next
        case (Release m)
        have "m \<in> set held" using o Cons Release by (cases held) auto
        then show ?thesis using stuck release [OF less.prems, of held m p] t Cons Release by auto
      next
        case (Touch m)
        then show ?thesis using stuck touch [OF less.prems, of held m p] t Cons by auto
      next
        case (Await j)
        then have "j < i" using o Cons by simp
        then show ?thesis using stuck await [OF less.prems, of held j p] less t Cons Await by auto
      qed
      then show ?thesis ..
    qed (use t in simp)
  qed
  then have "\<forall>t\<in>set ts. snd t = []" by (metis in_set_conv_nth)
  then show False using assms(2) by (simp add: remaining_0)
qed

lemma system_finishes: "system_ok level ts \<Longrightarrow> \<exists>ts'. lock_step\<^sup>*\<^sup>* ts ts' \<and> remaining ts' = 0"
proof (induction "remaining ts" arbitrary: ts)
  case (Suc n)
  then obtain u where u: "lock_step ts u" using system_progress [OF Suc.prems] by auto
  then have "n = remaining u" "system_ok level u"
    using Suc.hyps(2) lock_step_remaining [OF u] lock_step_ok [OF u Suc.prems] by simp_all
  from Suc.hyps(1) [OF this] u show ?case by (meson converse_rtranclp_into_rtranclp)
qed auto

lemma finished_free:
  assumes "system_ok level ts" and "remaining ts = 0" and "t \<in> set ts"
  shows "t = ([], [])"
proof -
  obtain i where i: "i < length ts" "ts ! i = t" using assms(3) by (auto simp: in_set_conv_nth)
  obtain held p where t: "t = (held, p)" by (cases t)
  then show ?thesis using system_ok_thread [OF assms(1) i(1), of held p] i(2) assms(2,3) by (auto simp: remaining_0)
qed

lemma touch_excludes:
  assumes "system_ok level ts" and "i < length ts" and "j < length ts"
    and "ts ! i = (held, Touch m # p)" and "ts ! j = (held', Touch m # p')"
  shows "i = j"
  using system_ok_thread [OF assms(1,2,4)] system_ok_thread [OF assms(1,3,5)] assms(4,5)
  by (intro system_ok_owner [OF assms(1-3), of m]) auto

subsection \<open>Threads that call a library\<close>

text \<open>
  The contract between a library and the threads that use it: whatever is called, the call keeps
  the discipline. \<open>call i c\<close> says that the actions \<open>c\<close> are those of a call the thread \<open>i\<close> may make; a
  thread makes any calls, one after the other.
\<close>

definition runs :: "(nat \<Rightarrow> 'm action list \<Rightarrow> bool) \<Rightarrow> nat \<Rightarrow> 'm action list \<Rightarrow> bool" where
  "runs call i p \<longleftrightarrow> (\<exists>cs. p = concat cs \<and> (\<forall>c\<in>set cs. call i c))"

lemma runs_single: "call i c \<Longrightarrow> runs call i c"
  unfolding runs_def by (rule exI [of _ "[c]"]) simp

locale lock_discipline =
  fixes level :: "'m \<Rightarrow> nat"
    and call :: "nat \<Rightarrow> 'm action list \<Rightarrow> bool"
  assumes call_ordered: "call i c \<Longrightarrow> ordered level i [] c"
begin

lemma runs_ordered: "runs call i p \<Longrightarrow> ordered level i [] p"
  unfolding runs_def by (elim exE conjE) (simp add: ordered_concat call_ordered)

lemma reached_ok:
  assumes "\<forall>i<length ps. runs call i (ps ! i)" and "lock_step\<^sup>*\<^sup>* (lock_start ps) ts"
  shows "system_ok level ts"
  using lock_steps_ok [OF assms(2) lock_start_ok] runs_ordered assms(1) by blast

lemma deadlock_free:
  assumes "\<forall>i<length ps. runs call i (ps ! i)" and n: "(lock_step ^^ n) (lock_start ps) ts"
  shows "n + remaining ts = remaining (lock_start ps) \<and>
    (remaining ts \<noteq> 0 \<longleftrightarrow> (\<exists>ts'. lock_step ts ts')) \<and>
    (\<exists>ts'. lock_step\<^sup>*\<^sup>* ts ts' \<and> (\<forall>t\<in>set ts'. t = ([], [])))"
proof -
  have ok: "system_ok level ts" using reached_ok [OF assms(1)] n by (simp add: relpowp_imp_rtranclp)
  obtain ts' where ts': "lock_step\<^sup>*\<^sup>* ts ts'" "remaining ts' = 0" using system_finishes [OF ok] by blast
  then have "\<forall>t\<in>set ts'. t = ([], [])" using finished_free [OF lock_steps_ok [OF ts'(1) ok]] by blast
  moreover have "remaining ts \<noteq> 0 \<longleftrightarrow> (\<exists>u. lock_step ts u)"
    using system_progress [OF ok] lock_step_remaining by fastforce
  ultimately show ?thesis using lock_steps_remaining [OF n] ts'(1) by blast
qed

lemma touch_owned:
  assumes "\<forall>i<length ps. runs call i (ps ! i)" and "lock_step\<^sup>*\<^sup>* (lock_start ps) ts"
    and "i < length ts" and "ts ! i = (held, Touch m # p)"
  shows "m \<in> set held \<and> (\<forall>j<length ts. j \<noteq> i \<longrightarrow> m \<notin> set (fst (ts ! j)) \<and> (\<nexists>q. snd (ts ! j) = Touch m # q))"
proof -
  have ok: "system_ok level ts" by (rule reached_ok [OF assms(1,2)])
  have m: "m \<in> set held" using system_ok_thread [OF ok assms(3,4)] by simp
  have "m \<notin> set (fst (ts ! j)) \<and> (\<nexists>q. snd (ts ! j) = Touch m # q)" if j: "j < length ts" "j \<noteq> i" for j
    using system_ok_owner [OF ok j(1) assms(3), of m] touch_excludes [OF ok assms(3) j(1) assms(4)] m j assms(4)
    by (metis fst_conv prod.collapse)
  then show ?thesis using m by blast
qed

end

end
