(* ===== verification/LabelEncoder.thy ===== *)
theory LabelEncoder
  imports CheckNames Base64
begin

text \<open>
  \<open>push/src/detail/label_encoder.cc\<close>: labels as pairs of segments of a URL path. The output
  stream is the text written so far. The reader follows the rules of the push gateway: a name
  that ends in \<open>@base64\<close> announces a value in URL-safe base64, and \<open>=\<close> is the empty value.
\<close>

subsection \<open>The code\<close>

definition needsEncoding :: "char \<Rightarrow> bool" where
  "needsEncoding c =
     (if CHR ''a'' \<le> c \<and> c \<le> CHR ''z'' then False
      else if CHR ''A'' \<le> c \<and> c \<le> CHR ''Z'' then False
      else if CHR ''0'' \<le> c \<and> c \<le> CHR ''9'' then False
      else if c = CHR ''-'' \<or> c = CHR ''.'' \<or> c = CHR ''_'' \<or> c = CHR ''~'' then False
      else True)"

definition encodeLabel :: "string \<times> string \<Rightarrow> string \<Rightarrow> string" where
  "encodeLabel lab os =
     (if snd lab = [] then os @ ''/'' @ fst lab @ ''@base64/=''
      else if list_ex needsEncoding (snd lab)
      then os @ ''/'' @ fst lab @ ''@base64/'' @ base64url_encode (snd lab)
      else os @ ''/'' @ fst lab @ ''/'' @ snd lab)"

definition encode_labels :: "label_map \<Rightarrow> string" where
  "encode_labels labels = fold encodeLabel labels ''''"

subsection \<open>Segments of a path\<close>

abbreviation slash :: char where "slash \<equiv> CHR ''/''"

definition value_segments :: "string \<times> string \<Rightarrow> string list" where
  "value_segments lab =
     (if snd lab = [] then [fst lab @ ''@base64'', ''='']
      else if list_ex needsEncoding (snd lab) then [fst lab @ ''@base64'', base64url_encode (snd lab)]
      else [fst lab, snd lab])"

definition join_path :: "string list \<Rightarrow> string" where
  "join_path segs = concat (map (\<lambda>s. slash # s) segs)"

lemma join_path_append: "join_path (ss @ ts) = join_path ss @ join_path ts"
  by (simp add: join_path_def)

lemma encodeLabel_segments: "encodeLabel lab os = os @ join_path (value_segments lab)"
  by (simp add: encodeLabel_def value_segments_def join_path_def)

lemma fold_encodeLabel: "fold encodeLabel labels os = os @ join_path (concat (map value_segments labels))"
  by (induction labels arbitrary: os) (simp_all add: encodeLabel_segments join_path_append, simp add: join_path_def)

lemma encode_labels_segments: "encode_labels labels = join_path (concat (map value_segments labels))"
  by (simp add: encode_labels_def fold_encodeLabel)

subsection \<open>Reading a path\<close>

fun split_path :: "string \<Rightarrow> string list" where
  "split_path [] = [[]]"
| "split_path (c # cs) = (if c = slash then [] # split_path cs
     else case split_path cs of [] \<Rightarrow> [[c]] | s # ss \<Rightarrow> (c # s) # ss)"

definition base64_suffix :: "string \<Rightarrow> string option" where
  "base64_suffix s = (let n = length s - 7 in if drop n s = ''@base64'' then Some (take n s) else None)"

definition read_pair :: "string \<Rightarrow> string \<Rightarrow> (string \<times> string) option" where
  "read_pair n v = (case base64_suffix n of
     None \<Rightarrow> Some (n, v)
   | Some name \<Rightarrow> if v = ''='' then Some (name, [])
       else case base64url_decode v of Inl e \<Rightarrow> None | Inr d \<Rightarrow> Some (name, d))"

fun read_pairs :: "string list \<Rightarrow> (string \<times> string) list option" where
  "read_pairs [] = Some []"
| "read_pairs [s] = None"
| "read_pairs (n # v # ss) =
     (case read_pair n v of None \<Rightarrow> None | Some l \<Rightarrow> map_option (\<lambda>ls. l # ls) (read_pairs ss))"

text \<open>The grouping key of a path that starts with a slash.\<close>

definition read_path :: "string \<Rightarrow> (string \<times> string) list option" where
  "read_path path = (case split_path path of [] \<Rightarrow> None | s # ss \<Rightarrow> if s = [] then read_pairs ss else None)"

lemma split_path_append: "slash \<notin> set s \<Longrightarrow> split_path (s @ slash # r) = s # split_path r"
  by (induction s) auto

lemma split_path_plain: "slash \<notin> set s \<Longrightarrow> split_path s = [s]"
  by (induction s) auto

lemma split_join_path: "\<forall>s\<in>set ss. slash \<notin> set s \<Longrightarrow> split_path (join_path ss) = [] # ss"
proof (induction ss)
  case (Cons s ss)
  then have IH: "split_path (join_path ss) = [] # ss" and s: "slash \<notin> set s" by simp_all
  show ?case
  proof (cases ss)
    case Nil
    then show ?thesis using s by (simp add: join_path_def split_path_plain)
  next
    case (Cons t ts)
    then have "join_path ss = slash # t @ join_path ts" by (simp add: join_path_def)
    then have "split_path (s @ join_path ss) = s # tl (split_path (join_path ss))"
      using s by (simp add: split_path_append)
    then show ?thesis using IH by (simp add: join_path_def)
  qed
qed (simp add: join_path_def)

definition label_name_free :: "string \<Rightarrow> bool" where
  "label_name_free name \<longleftrightarrow> slash \<notin> set name \<and> CHR ''@'' \<notin> set name"

lemma base64_suffix_append [simp]: "base64_suffix (n @ ''@base64'') = Some n"
  by (simp add: base64_suffix_def)

lemma base64_suffix_free: "CHR ''@'' \<notin> set n \<Longrightarrow> base64_suffix n = None"
proof -
  assume n: "CHR ''@'' \<notin> set n"
  have "drop k n \<noteq> ''@base64''" for k
  proof
    assume "drop k n = ''@base64''"
    then have "CHR ''@'' \<in> set (drop k n)" by simp
    then show False using n in_set_dropD by metis
  qed
  then show ?thesis by (simp add: base64_suffix_def)
qed

lemma length_base64url: "length (base64url_encode s) = 4 * ((length s + 2) div 3)"
  by (simp add: base64url_encode_def length_base64_encode)

lemma base64url_not_pad: "s \<noteq> [] \<Longrightarrow> base64url_encode s \<noteq> ''=''"
proof
  assume "base64url_encode s = ''=''"
  then have "length (base64url_encode s) = 1" by simp
  then show False unfolding length_base64url by presburger
qed

lemma read_value_segments:
  assumes "CHR ''@'' \<notin> set (fst lab)"
  shows "\<exists>n v. value_segments lab = [n, v] \<and> read_pair n v = Some lab"
  using assms base64url_not_pad [of "snd lab"]
  by (cases lab) (auto simp: value_segments_def read_pair_def base64_suffix_free b64url.dec_enc)

lemma read_pairs_segments:
  "\<forall>l\<in>set labels. CHR ''@'' \<notin> set (fst l) \<Longrightarrow> read_pairs (concat (map value_segments labels)) = Some labels"
proof (induction labels)
  case (Cons lab labels)
  then obtain n v where "value_segments lab = [n, v]" "read_pair n v = Some lab"
    using read_value_segments [of lab] by auto
  with Cons show ?case by simp
qed simp

lemma plain_no_slash: "\<not> list_ex needsEncoding s \<Longrightarrow> slash \<notin> set s"
  by (auto simp: list_ex_iff needsEncoding_def)

lemma base64url_no_slash: "slash \<notin> set (base64url_encode s)"
proof -
  have "slash \<notin> base64url_alphabet" by (simp add: base64url_alphabet_def)
  then show ?thesis using set_base64url_encode [of s] by blast
qed

lemma segments_no_slash: "slash \<notin> set (fst l) \<Longrightarrow> s \<in> set (value_segments l) \<Longrightarrow> slash \<notin> set s"
  using plain_no_slash [of "snd l"] base64url_no_slash [of "snd l"]
  by (auto simp: value_segments_def split: if_splits)

lemma read_path_labels:
  assumes "\<forall>l\<in>set labels. label_name_free (fst l)"
  shows "read_path (encode_labels labels) = Some labels"
proof -
  have "\<forall>s\<in>set (concat (map value_segments labels)). slash \<notin> set s"
    using assms segments_no_slash by (fastforce simp: label_name_free_def)
  then have "split_path (encode_labels labels) = [] # concat (map value_segments labels)"
    unfolding encode_labels_segments by (rule split_join_path)
  then show ?thesis
    using assms read_pairs_segments [of labels] by (simp add: read_path_def label_name_free_def)
qed

subsection \<open>Characters of the path\<close>

text \<open>RFC 3986: the unreserved characters, and those a path segment may hold besides them.\<close>

definition unreserved :: "char set" where
  "unreserved = {c. letter c \<or> digit c \<or> c \<in> set ''-._~''}"

lemma not_needsEncoding: "\<not> needsEncoding c \<Longrightarrow> c \<in> unreserved"
  by (auto simp: needsEncoding_def unreserved_def letter_def digit_def split: if_splits)

lemma base64url_unreserved: "base64url_alphabet \<subseteq> insert (CHR ''='') unreserved"
  by (auto simp: base64url_alphabet_def unreserved_def letter_def digit_def)

lemma set_encodeLabel:
  "set (encodeLabel l os) \<subseteq> set os \<union> set (fst l) \<union> unreserved \<union> set ''/@=''"
proof -
  have "set ''base64'' \<subseteq> unreserved" by (simp add: unreserved_def letter_def digit_def)
  moreover have "set (base64url_encode (snd l)) \<subseteq> insert (CHR ''='') unreserved"
    using set_base64url_encode base64url_unreserved by (rule order_trans)
  moreover have "\<not> list_ex needsEncoding (snd l) \<Longrightarrow> set (snd l) \<subseteq> unreserved"
    using not_needsEncoding by (auto simp: list_ex_iff)
  ultimately show ?thesis by (auto simp: encodeLabel_def)
qed

lemma set_fold_encodeLabel:
  "set (fold encodeLabel labels os) \<subseteq> set os \<union> (\<Union>l\<in>set labels. set (fst l)) \<union> unreserved \<union> set ''/@=''"
proof (induction labels arbitrary: os)
  case (Cons l labels)
  from Cons.IH [of "encodeLabel l os"] set_encodeLabel [of l os] show ?case by fastforce
qed auto

subsection \<open>Properties\<close>

text \<open>The path the labels are encoded to can be read back to the same labels, whatever bytes
  their values hold, as long as no name holds a slash or an at sign; besides the names it holds
  only characters that need no escaping in a URL path.\<close>

theorem label_path_roundtrip:
  assumes "\<forall>l\<in>set labels. label_name_free (fst l)"
  shows "read_path (encode_labels labels) = Some labels \<and>
    set (encode_labels labels) \<subseteq> (\<Union>l\<in>set labels. set (fst l)) \<union> unreserved \<union> set ''/@=''"
  using read_path_labels [OF assms] set_fold_encodeLabel [of labels "''''"] by (simp add: encode_labels_def)

theorem label_path_roundtrip_witness:
  "encode_labels [(''instance'', ''a b/c''), (''zone'', ''eu-1''), (''x'', '''')] =
     ''/instance@base64/YSBiL2M=/zone/eu-1/x@base64/='' \<and>
   read_path ''/instance@base64/YSBiL2M=/zone/eu-1/x@base64/='' =
     Some [(''instance'', ''a b/c''), (''zone'', ''eu-1''), (''x'', '''')]"
proof -
  let ?ls = "[(''instance'', ''a b/c''), (''zone'', ''eu-1''), (''x'', '''')]"
  have whole: "encode_labels ?ls = ''/instance@base64/YSBiL2M=/zone/eu-1/x@base64/=''" by code_simp
  have "\<forall>l\<in>set ?ls. label_name_free (fst l)" by (simp add: label_name_free_def)
  from label_path_roundtrip [OF this] whole show ?thesis by (simp only: simp_thms)
qed

text \<open>
  RFC 3986, section 5.2.4, on the segments of a path: what a URL library does before it sends a
  request. A value that consists of dots is unreserved, is written as it is, and gets lost.
\<close>

fun remove_dots :: "string list \<Rightarrow> string list \<Rightarrow> string list" where
  "remove_dots acc [] = rev acc"
| "remove_dots acc [s] = (if s = ''.'' then rev ('''' # acc) else if s = ''..'' then rev ('''' # tl acc) else rev (s # acc))"
| "remove_dots acc (s # ss) = (if s = ''.'' then remove_dots acc ss
     else if s = ''..'' then remove_dots (tl acc) ss else remove_dots (s # acc) ss)"

lemma dot_value_lost:
  "encode_labels [(''job'', ''batch''), (''dir'', ''..'')] = ''/job/batch/dir/..'' \<and>
   join_path (remove_dots [] (tl (split_path ''/job/batch/dir/..''))) = ''/job/batch/''"
  by code_simp

end
