(* ===== verification/CurlWrapper.thy ===== *)
theory CurlWrapper
  imports Prelude
begin

text \<open>
  \<open>push/src/detail/curl_wrapper.cc\<close>. libcurl is not part of the sources: an easy handle is the
  list of the options set on it since its last reset, \<open>curl_easy_perform\<close> is the argument
  \<open>perform\<close>, from those options and the state of the network to the error code, the response
  code and the next state, and whether an allocation succeeds is an argument. The mutex makes
  each call atomic. What the constructor acquires and the destructor gives back is counted.
\<close>

subsection \<open>The interface to libcurl\<close>

datatype curl_option =
    CURLOPT_URL string
  | CURLOPT_HTTPHEADER "string list"
  | CURLOPT_POSTFIELDSIZE int
  | CURLOPT_POSTFIELDS string
  | CURLOPT_POST int
  | CURLOPT_NOBODY int
  | CURLOPT_HTTPGET int
  | CURLOPT_CUSTOMREQUEST string
  | CURLOPT_HTTPAUTH string
  | CURLOPT_USERPWD string
  | CURLOPT_TIMEOUT int

type_synonym curl_handle = "curl_option list"

definition curl_easy_setopt :: "curl_option \<Rightarrow> curl_handle \<Rightarrow> curl_handle" where
  "curl_easy_setopt opt curl = curl @ [opt]"

definition curl_easy_reset :: "curl_handle \<Rightarrow> curl_handle" where
  "curl_easy_reset curl = []"

text \<open>A string as C sees it: up to the first null byte.\<close>

definition c_str :: "string \<Rightarrow> string" where
  "c_str s = takeWhile (\<lambda>c. c \<noteq> CHR 0x00) s"

text \<open>A \<open>long\<close> returned as an \<open>int\<close>.\<close>

definition int_of_long :: "int \<Rightarrow> int" where
  "int_of_long n = sint (word_of_int n :: u32)"

subsection \<open>The code\<close>

datatype HttpMethod = Post | Put | Delete

definition CONTENT_TYPE :: string where
  "CONTENT_TYPE = ''Content-Type: text/plain; version=0.0.4; charset=utf-8''"

record curl_wrapper =
  curl_easy :: curl_handle
  optHttpHeader :: "string list"
  presetupCurl :: "(curl_handle \<Rightarrow> curl_handle) option"

definition run_presetup :: "(curl_handle \<Rightarrow> curl_handle) option \<Rightarrow> curl_handle \<Rightarrow> curl_handle" where
  "run_presetup presetup curl = (case presetup of None \<Rightarrow> curl | Some f \<Rightarrow> f curl)"

record curl_resources =
  global_inits :: nat
  easy_handles :: nat
  header_lists :: nat

definition CurlWrapper_new :: "(curl_handle \<Rightarrow> curl_handle) option \<Rightarrow> int \<Rightarrow> bool \<Rightarrow> bool \<Rightarrow> curl_resources \<Rightarrow>
    (cpp_exception + curl_wrapper) \<times> curl_resources" where
  "CurlWrapper_new presetup global_error easy_ok append_ok res =
     (if global_error \<noteq> 0 then (Inl (runtime_error ''Cannot initialize global curl!''), res)
      else let res = res\<lparr>global_inits := global_inits res + 1\<rparr> in
      if \<not> easy_ok
      then (Inl (runtime_error ''Cannot initialize easy curl!''), res\<lparr>global_inits := global_inits res - 1\<rparr>)
      else let res = res\<lparr>easy_handles := easy_handles res + 1\<rparr>;
               curl = run_presetup presetup [] in
      if \<not> append_ok
      then (Inl (runtime_error ''Cannot append the header of the content type''), res)
      else (Inr \<lparr>curl_easy = curl, optHttpHeader = [c_str CONTENT_TYPE], presetupCurl = presetup\<rparr>,
            res\<lparr>header_lists := header_lists res + 1\<rparr>))"

definition CurlWrapper_destroy :: "curl_resources \<Rightarrow> curl_resources" where
  "CurlWrapper_destroy res =
     (let res = res\<lparr>header_lists := header_lists res - 1\<rparr>;
          res = res\<lparr>easy_handles := easy_handles res - 1\<rparr>
      in res\<lparr>global_inits := global_inits res - 1\<rparr>)"

definition set_body :: "string \<Rightarrow> curl_handle \<Rightarrow> curl_handle" where
  "set_body body curl =
     (if body \<noteq> []
      then curl_easy_setopt (CURLOPT_POSTFIELDS body) (curl_easy_setopt (CURLOPT_POSTFIELDSIZE (int (length body))) curl)
      else curl_easy_setopt (CURLOPT_POSTFIELDSIZE 0) curl)"

definition set_method :: "HttpMethod \<Rightarrow> curl_handle \<Rightarrow> curl_handle" where
  "set_method method curl = (case method of
     Post \<Rightarrow> curl_easy_setopt (CURLOPT_POST 1) curl
   | Put \<Rightarrow> curl_easy_setopt (CURLOPT_CUSTOMREQUEST ''PUT'') (curl_easy_setopt (CURLOPT_NOBODY 0) curl)
   | Delete \<Rightarrow> curl_easy_setopt (CURLOPT_CUSTOMREQUEST ''DELETE'')
       (curl_easy_setopt (CURLOPT_NOBODY 0) (curl_easy_setopt (CURLOPT_HTTPGET 0) curl)))"

definition performHttpRequest :: "(curl_handle \<Rightarrow> 'net \<Rightarrow> int \<times> int \<times> 'net) \<Rightarrow> HttpMethod \<Rightarrow> string \<Rightarrow> string \<Rightarrow>
    curl_wrapper \<Rightarrow> 'net \<Rightarrow> int \<times> curl_wrapper \<times> 'net" where
  "performHttpRequest perform method uri body w net =
     (let curl = curl_easy_reset (curl_easy w);
          curl = curl_easy_setopt (CURLOPT_URL (c_str uri)) curl;
          curl = curl_easy_setopt (CURLOPT_HTTPHEADER (optHttpHeader w)) curl;
          curl = run_presetup (presetupCurl w) curl;
          curl = set_body body curl;
          curl = set_method method curl;
          (curl_error, response_code, net) = perform curl net;
          w = w\<lparr>curl_easy := curl\<rparr>
      in if curl_error \<noteq> 0 then (- curl_error, w, net)
         else (int_of_long response_code, w, net))"

text \<open>\<open>append_ok\<close>: whether \<open>curl_slist_append\<close> could allocate the entry.\<close>

definition addHttpHeader :: "bool \<Rightarrow> string \<Rightarrow> curl_wrapper \<Rightarrow> bool \<times> curl_wrapper" where
  "addHttpHeader append_ok header w =
     (if \<not> append_ok then (False, w)
      else (True, w\<lparr>optHttpHeader := optHttpHeader w @ [c_str header]\<rparr>))"

subsection \<open>What a request consists of\<close>

definition request_options :: "(curl_handle \<Rightarrow> curl_handle) option \<Rightarrow> string list \<Rightarrow> HttpMethod \<Rightarrow> string \<Rightarrow> string \<Rightarrow>
    curl_handle" where
  "request_options presetup headers method uri body =
     run_presetup presetup [CURLOPT_URL (c_str uri), CURLOPT_HTTPHEADER headers] @
     (if body = [] then [CURLOPT_POSTFIELDSIZE 0] else [CURLOPT_POSTFIELDSIZE (int (length body)), CURLOPT_POSTFIELDS body]) @
     (case method of
        Post \<Rightarrow> [CURLOPT_POST 1]
      | Put \<Rightarrow> [CURLOPT_NOBODY 0, CURLOPT_CUSTOMREQUEST ''PUT'']
      | Delete \<Rightarrow> [CURLOPT_HTTPGET 0, CURLOPT_NOBODY 0, CURLOPT_CUSTOMREQUEST ''DELETE''])"

definition request_status :: "int \<times> int \<times> 'net \<Rightarrow> int" where
  "request_status r = (case r of (err, code, net) \<Rightarrow> if err \<noteq> 0 then - err else int_of_long code)"

lemma performHttpRequest_options:
  "performHttpRequest perform method uri body w net =
     (let curl = request_options (presetupCurl w) (optHttpHeader w) method uri body
      in (request_status (perform curl net), w\<lparr>curl_easy := curl\<rparr>, snd (snd (perform curl net))))"
proof -
  have b: "set_body body curl = curl @ (if body = [] then [CURLOPT_POSTFIELDSIZE 0]
      else [CURLOPT_POSTFIELDSIZE (int (length body)), CURLOPT_POSTFIELDS body])" for curl
    by (simp add: set_body_def curl_easy_setopt_def)
  have m: "set_method http curl = curl @ (case http of
        Post \<Rightarrow> [CURLOPT_POST 1]
      | Put \<Rightarrow> [CURLOPT_NOBODY 0, CURLOPT_CUSTOMREQUEST ''PUT'']
      | Delete \<Rightarrow> [CURLOPT_HTTPGET 0, CURLOPT_NOBODY 0, CURLOPT_CUSTOMREQUEST ''DELETE''])" for http curl
    by (cases http) (simp_all add: set_method_def curl_easy_setopt_def)
  show ?thesis
    unfolding performHttpRequest_def Let_def b m
    by (simp add: request_options_def request_status_def curl_easy_reset_def curl_easy_setopt_def split: prod.splits)
qed

subsection \<open>Histories of a wrapper\<close>

datatype curl_call = Add_header bool string | Request HttpMethod string string

text \<open>The statuses of the requests of a sequence of calls.\<close>

fun curl_calls :: "(curl_handle \<Rightarrow> 'net \<Rightarrow> int \<times> int \<times> 'net) \<Rightarrow> curl_call list \<Rightarrow> curl_wrapper \<Rightarrow> 'net \<Rightarrow>
    int list \<times> curl_wrapper \<times> 'net" where
  "curl_calls perform [] w net = ([], w, net)"
| "curl_calls perform (Add_header ok h # cs) w net = curl_calls perform cs (snd (addHttpHeader ok h w)) net"
| "curl_calls perform (Request m uri body # cs) w net =
     (case performHttpRequest perform m uri body w net of
        (status, w, net) \<Rightarrow> (case curl_calls perform cs w net of (ss, w, net) \<Rightarrow> (status # ss, w, net)))"

text \<open>The specification keeps the headers only.\<close>

fun curl_spec :: "(curl_handle \<Rightarrow> curl_handle) option \<Rightarrow> (curl_handle \<Rightarrow> 'net \<Rightarrow> int \<times> int \<times> 'net) \<Rightarrow>
    curl_call list \<Rightarrow> string list \<Rightarrow> 'net \<Rightarrow> int list \<times> string list \<times> 'net" where
  "curl_spec presetup perform [] headers net = ([], headers, net)"
| "curl_spec presetup perform (Add_header ok h # cs) headers net =
     curl_spec presetup perform cs (if ok then headers @ [c_str h] else headers) net"
| "curl_spec presetup perform (Request m uri body # cs) headers net =
     (let r = perform (request_options presetup headers m uri body) net in
      case curl_spec presetup perform cs headers (snd (snd r)) of
        (ss, headers, net) \<Rightarrow> (request_status r # ss, headers, net))"

lemma curl_calls_spec:
  "curl_spec (presetupCurl w) perform cs (optHttpHeader w) net =
     (case curl_calls perform cs w net of (ss, w', net') \<Rightarrow> (ss, optHttpHeader w', net'))"
proof (induction cs arbitrary: w net)
  case (Cons c cs)
  show ?case
  proof (cases c)
    case (Add_header ok h)
    have "presetupCurl (snd (addHttpHeader ok h w)) = presetupCurl w"
      "optHttpHeader (snd (addHttpHeader ok h w)) = (if ok then optHttpHeader w @ [c_str h] else optHttpHeader w)"
      by (simp_all add: addHttpHeader_def)
    with Cons.IH [of "snd (addHttpHeader ok h w)" net] Add_header show ?thesis by simp
  next
    case (Request m uri body)
    let ?o = "request_options (presetupCurl w) (optHttpHeader w) m uri body"
    from Cons.IH [of "w\<lparr>curl_easy := ?o\<rparr>" "snd (snd (perform ?o net))"] Request show ?thesis
      by (simp add: performHttpRequest_options Let_def split: prod.splits)
  qed
qed simp

subsection \<open>Properties\<close>

text \<open>C35: The constructor on every branch: when it succeeds it has acquired one global
  initialisation, one handle and one header list, which the destructor gives back; when global
  or handle initialisation fails it throws and holds nothing. Only when the first header cannot
  be allocated it throws and keeps the global initialisation and the handle.\<close>

theorem curl_constructor_resources:
  assumes "CurlWrapper_new presetup global_error easy_ok append_ok res = (r, res')"
  shows "case r of
      Inr w \<Rightarrow> global_error = 0 \<and> easy_ok \<and> append_ok \<and> optHttpHeader w = [CONTENT_TYPE] \<and> CurlWrapper_destroy res' = res
    | Inl e \<Rightarrow>
        if global_error \<noteq> 0 then e = runtime_error ''Cannot initialize global curl!'' \<and> res' = res
        else if \<not> easy_ok then e = runtime_error ''Cannot initialize easy curl!'' \<and> res' = res
        else e = runtime_error ''Cannot append the header of the content type'' \<and>
          res' = res\<lparr>global_inits := global_inits res + 1, easy_handles := easy_handles res + 1\<rparr>"
proof -
  have "c_str CONTENT_TYPE = CONTENT_TYPE" by code_simp
  then show ?thesis
    using assms by (auto simp: CurlWrapper_new_def CurlWrapper_destroy_def Let_def split: if_splits)
qed

theorem curl_constructor_resources_witness:
  "\<exists>e res'. CurlWrapper_new None 0 True False \<lparr>global_inits = 0, easy_handles = 0, header_lists = 0\<rparr> = (Inl e, res') \<and>
     e = runtime_error ''Cannot append the header of the content type'' \<and> global_inits res' = 1 \<and> easy_handles res' = 1"
proof -
  let ?r = "\<lparr>global_inits = 0, easy_handles = 0, header_lists = 0\<rparr>"
  obtain e res' where c: "CurlWrapper_new None 0 True False ?r = (Inl e, res')"
    by (simp add: CurlWrapper_new_def)
  from curl_constructor_resources [OF c] c show ?thesis by auto
qed

text \<open>C36: Requests do not influence each other through the shared handle: in every sequence of
  calls each request is performed with exactly the options of its own method, address and body,
  the headers accepted so far and the caller's setup, and its status is the negated error code of
  a failed transfer or the response code.\<close>

theorem curl_requests_independent:
  "(case curl_calls perform cs w net of (ss, w', net') \<Rightarrow> (ss, optHttpHeader w', net')) =
     curl_spec (presetupCurl w) perform cs (optHttpHeader w) net"
  by (rule curl_calls_spec [symmetric])

end
