(* ===== verification/Gateway.thy ===== *)
theory Gateway
  imports Collectables LabelEncoder CurlWrapper
begin

text \<open>
  \<open>push/src/gateway.cc\<close>: the client of a push gateway. The state is the gateway's members; the
  objects its weak pointers refer to, and the network, are passed beside it. The mutex makes a
  synchronous push atomic. The requests of an asynchronous push run as tasks of their own in any
  order, among other users of the same curl handle; they are the steps of a relation.
\<close>

subsection \<open>The code\<close>

record setup_adapter =
  adapter_auth :: string
  adapter_timeout :: int

definition SetupAdapter_new :: "string \<Rightarrow> string \<Rightarrow> int \<Rightarrow> setup_adapter" where
  "SetupAdapter_new username password timeout =
     \<lparr>adapter_auth = (if username \<noteq> '''' then username @ '':'' @ password else ''''), adapter_timeout = timeout\<rparr>"

definition SetupAdapter_call :: "setup_adapter \<Rightarrow> curl_handle \<Rightarrow> curl_handle" where
  "SetupAdapter_call a curl =
     (let curl = (if adapter_auth a \<noteq> ''''
            then curl_easy_setopt (CURLOPT_USERPWD (c_str (adapter_auth a)))
                   (curl_easy_setopt (CURLOPT_HTTPAUTH ''CURLAUTH_BASIC'') curl)
            else curl)
      in curl_easy_setopt (CURLOPT_TIMEOUT (adapter_timeout a)) curl)"

definition concatenate :: "string \<Rightarrow> string \<Rightarrow> string" where
  "concatenate host port = host @ '':'' @ port"

type_synonym collectable_entry = "nat \<times> string"

record gateway =
  jobUri :: string
  gw_labels :: string
  curlWrapper :: curl_wrapper
  gw_collectables :: "collectable_entry list"

text \<open>The three constructors; the arguments after the labels are the outcomes of the calls of
  libcurl in the constructor of the wrapper.\<close>

definition Gateway_new :: "string \<Rightarrow> (curl_handle \<Rightarrow> curl_handle) option \<Rightarrow> string \<Rightarrow> label_map \<Rightarrow>
    int \<Rightarrow> bool \<Rightarrow> bool \<Rightarrow> curl_resources \<Rightarrow> (cpp_exception + gateway) \<times> curl_resources" where
  "Gateway_new url presetup jobname labels global_error easy_ok append_ok res =
     (case CurlWrapper_new presetup global_error easy_ok append_ok res of
        (Inl e, res) \<Rightarrow> (Inl e, res)
      | (Inr w, res) \<Rightarrow>
          (let jobUriStream = url;
               jobUriStream = jobUriStream @ (if url \<noteq> '''' \<and> last url \<noteq> slash then ''/'' else '''');
               jobUriStream = jobUriStream @ ''metrics'';
               jobUriStream = encodeLabel (''job'', jobname) jobUriStream;
               labelStream = fold encodeLabel labels ''''
           in (Inr \<lparr>jobUri = jobUriStream, gw_labels = labelStream, curlWrapper = w, gw_collectables = []\<rparr>, res)))"

definition Gateway_new_at :: "string \<Rightarrow> string \<Rightarrow> (curl_handle \<Rightarrow> curl_handle) option \<Rightarrow> string \<Rightarrow> label_map \<Rightarrow>
    int \<Rightarrow> bool \<Rightarrow> bool \<Rightarrow> curl_resources \<Rightarrow> (cpp_exception + gateway) \<times> curl_resources" where
  "Gateway_new_at host port presetup jobname labels = Gateway_new (concatenate host port) presetup jobname labels"

definition Gateway_new_auth :: "string \<Rightarrow> string \<Rightarrow> string \<Rightarrow> label_map \<Rightarrow> string \<Rightarrow> string \<Rightarrow> int \<Rightarrow>
    int \<Rightarrow> bool \<Rightarrow> bool \<Rightarrow> curl_resources \<Rightarrow> (cpp_exception + gateway) \<times> curl_resources" where
  "Gateway_new_auth host port jobname labels username password timeout =
     Gateway_new_at host port (Some (SetupAdapter_call (SetupAdapter_new username password timeout))) jobname labels"

definition Gateway_default :: "string \<Rightarrow> string \<Rightarrow> string \<Rightarrow>
    int \<Rightarrow> bool \<Rightarrow> bool \<Rightarrow> curl_resources \<Rightarrow> (cpp_exception + gateway) \<times> curl_resources" where
  "Gateway_default host port jobname = Gateway_new_auth host port jobname [] '''' '''' 0"

definition GetInstanceLabel :: "string \<Rightarrow> label_map" where
  "GetInstanceLabel hostname = (if hostname = '''' then labels_of [] else labels_of [(''instance'', hostname)])"

definition CleanupStaleEntries :: "'o heap \<Rightarrow> collectable_entry list \<Rightarrow> collectable_entry list" where
  "CleanupStaleEntries heap collectables = filter (\<lambda>candidate. \<not> weak_expired heap (fst candidate)) collectables"

text \<open>\<open>labels\<close> is a pointer that may be null.\<close>

definition Gateway_RegisterCollectable :: "'o heap \<Rightarrow> nat \<Rightarrow> label_map option \<Rightarrow> gateway \<Rightarrow> gateway" where
  "Gateway_RegisterCollectable heap collectable_ptr labels gw =
     (let ss = (case labels of None \<Rightarrow> '''' | Some ls \<Rightarrow> fold encodeLabel ls '''');
          collectables = CleanupStaleEntries heap (gw_collectables gw)
      in gw\<lparr>gw_collectables := collectables @ [(collectable_ptr, ss)]\<rparr>)"

definition getUri :: "gateway \<Rightarrow> collectable_entry \<Rightarrow> string" where
  "getUri gw entry = jobUri gw @ gw_labels gw @ snd entry"

definition status_failed :: "int \<Rightarrow> bool" where
  "status_failed status_code \<longleftrightarrow> status_code < 100 \<or> 400 \<le> status_code"

fun push_loop :: "'o user_collect \<Rightarrow> (nat \<Rightarrow> clock) \<Rightarrow> locale_facets \<Rightarrow> (curl_handle \<Rightarrow> 'net \<Rightarrow> int \<times> int \<times> 'net) \<Rightarrow>
    HttpMethod \<Rightarrow> nat \<Rightarrow> collectable_entry list \<Rightarrow> gateway \<Rightarrow> 'o heap \<Rightarrow> 'net \<Rightarrow>
    (int \<times> gateway \<times> 'o heap \<times> 'net) option" where
  "push_loop user clocks loc perform method i [] gw heap net = Some (200, gw, heap, net)"
| "push_loop user clocks loc perform method i (entry # entries) gw heap net =
     (case heap (fst entry) of
        None \<Rightarrow> push_loop user clocks loc perform method (i + 1) entries gw heap net
      | Some object \<Rightarrow>
          do {
            (metrics, object) \<leftarrow> Collectable_Collect user (clocks i) object;
            let heap = heap(fst entry \<mapsto> object);
            let body = Serializer_Serialize loc metrics;
            let uri = getUri gw entry;
            let (status_code, w, net) = performHttpRequest perform method uri body (curlWrapper gw) net;
            let gw = gw\<lparr>curlWrapper := w\<rparr>;
            if status_failed status_code then Some (status_code, gw, heap, net)
            else push_loop user clocks loc perform method (i + 1) entries gw heap net
          })"

definition Gateway_push where
  "Gateway_push user clocks loc perform method gw heap net =
     push_loop user clocks loc perform method 0 (gw_collectables gw) gw heap net"

definition Gateway_Push where
  "Gateway_Push user clocks loc perform gw heap net = Gateway_push user clocks loc perform Post gw heap net"

definition Gateway_PushAdd where
  "Gateway_PushAdd user clocks loc perform gw heap net = Gateway_push user clocks loc perform Put gw heap net"

text \<open>The first part of an asynchronous push, under the lock: the requests to make.\<close>

type_synonym push_task = "HttpMethod \<times> string \<times> string"

fun collect_tasks :: "'o user_collect \<Rightarrow> (nat \<Rightarrow> clock) \<Rightarrow> locale_facets \<Rightarrow> HttpMethod \<Rightarrow> nat \<Rightarrow>
    collectable_entry list \<Rightarrow> gateway \<Rightarrow> 'o heap \<Rightarrow> (push_task list \<times> 'o heap) option" where
  "collect_tasks user clocks loc method i [] gw heap = Some ([], heap)"
| "collect_tasks user clocks loc method i (entry # entries) gw heap =
     (case heap (fst entry) of
        None \<Rightarrow> collect_tasks user clocks loc method (i + 1) entries gw heap
      | Some object \<Rightarrow>
          do {
            (metrics, object) \<leftarrow> Collectable_Collect user (clocks i) object;
            let heap = heap(fst entry \<mapsto> object);
            let body = Serializer_Serialize loc metrics;
            let uri = getUri gw entry;
            (futures, heap) \<leftarrow> collect_tasks user clocks loc method (i + 1) entries gw heap;
            Some ((method, uri, body) # futures, heap)
          })"

definition async_push where
  "async_push user clocks loc method gw heap = collect_tasks user clocks loc method 0 (gw_collectables gw) gw heap"

definition Gateway_AsyncPush where
  "Gateway_AsyncPush user clocks loc gw heap = async_push user clocks loc Post gw heap"

definition Gateway_AsyncPushAdd where
  "Gateway_AsyncPushAdd user clocks loc gw heap = async_push user clocks loc Put gw heap"

definition reduceFutures :: "int list \<Rightarrow> int" where
  "reduceFutures statuses =
     fold (\<lambda>status_code final. if status_failed status_code then status_code else final) statuses 200"

definition Gateway_Delete where
  "Gateway_Delete perform gw net =
     (case performHttpRequest perform Delete (jobUri gw) '''' (curlWrapper gw) net of
        (status, w, net) \<Rightarrow> (status, gw\<lparr>curlWrapper := w\<rparr>, net))"

definition Gateway_DeleteForInstance where
  "Gateway_DeleteForInstance perform gw net =
     (case performHttpRequest perform Delete (jobUri gw @ gw_labels gw) '''' (curlWrapper gw) net of
        (status, w, net) \<Rightarrow> (status, gw\<lparr>curlWrapper := w\<rparr>, net))"

text \<open>The task an asynchronous deletion starts runs the synchronous one.\<close>

definition Gateway_AsyncDelete where
  "Gateway_AsyncDelete perform gw net = Gateway_Delete perform gw net"

definition Gateway_AsyncDeleteForInstance where
  "Gateway_AsyncDeleteForInstance perform gw net = Gateway_DeleteForInstance perform gw net"

definition Gateway_AddHttpHeader :: "bool \<Rightarrow> string \<Rightarrow> gateway \<Rightarrow> bool \<times> gateway" where
  "Gateway_AddHttpHeader append_ok header gw =
     apsnd (\<lambda>w. gw\<lparr>curlWrapper := w\<rparr>) (addHttpHeader append_ok header (curlWrapper gw))"

subsection \<open>The path of a push\<close>

lemma Gateway_new_Inr:
  assumes "Gateway_new url presetup jobname labels e1 e2 e3 res = (Inr gw, res')"
  shows "jobUri gw = url @ (if url \<noteq> '''' \<and> last url \<noteq> slash then ''/'' else '''') @ ''metrics'' @ encode_labels [(''job'', jobname)]
     \<and> gw_labels gw = encode_labels labels \<and> gw_collectables gw = [] \<and> presetupCurl (curlWrapper gw) = presetup"
proof -
  obtain w where w: "CurlWrapper_new presetup e1 e2 e3 res = (Inr w, res')"
    using assms by (auto simp: Gateway_new_def split: prod.splits sum.splits)
  then have "presetupCurl w = presetup" by (auto simp: CurlWrapper_new_def Let_def split: if_splits)
  then show ?thesis
    using assms w by (auto simp: Gateway_new_def Let_def encode_labels_def encodeLabel_segments)
qed

lemma encode_labels_append: "encode_labels (ls @ ms) = encode_labels ls @ encode_labels ms"
  by (simp add: encode_labels_segments join_path_append)

text \<open>The labels given with a collectable.\<close>

definition extra_labels :: "label_map option \<Rightarrow> label_map" where
  "extra_labels labels = (case labels of None \<Rightarrow> [] | Some ls \<Rightarrow> ls)"

lemma registered_entry:
  "gw_collectables (Gateway_RegisterCollectable heap p labels gw) =
     filter (\<lambda>e. heap (fst e) \<noteq> None) (gw_collectables gw) @ [(p, encode_labels (extra_labels labels))]"
  by (simp add: Gateway_RegisterCollectable_def CleanupStaleEntries_def weak_expired_def Let_def
      encode_labels_def extra_labels_def split: option.split)

lemma getUri_path:
  assumes "Gateway_new url presetup jobname labels e1 e2 e3 res = (Inr gw, res')"
  shows "getUri gw (p, encode_labels ls) =
    url @ (if url \<noteq> '''' \<and> last url \<noteq> slash then ''/'' else '''') @ ''metrics'' @ encode_labels ((''job'', jobname) # labels @ ls)"
  using Gateway_new_Inr [OF assms]
  by (simp add: getUri_def encode_labels_append [symmetric])

subsection \<open>Synchronous pushes\<close>

lemma gateway_wrapper_simps:
  "curlWrapper (gw\<lparr>curlWrapper := w\<rparr>) = w" "gw\<lparr>curlWrapper := w, curlWrapper := w'\<rparr> = gw\<lparr>curlWrapper := w'\<rparr>"
  by simp_all

lemma getUri_curlWrapper [simp]: "getUri (gw\<lparr>curlWrapper := w\<rparr>) e = getUri gw e"
  by (simp add: getUri_def)

lemma collect_tasks_curlWrapper [simp]:
  "collect_tasks user clocks loc m i es (gw\<lparr>curlWrapper := w\<rparr>) heap = collect_tasks user clocks loc m i es gw heap"
  by (induction es arbitrary: i heap) (simp_all split: option.split)

abbreviation task_request :: "push_task \<Rightarrow> curl_call" where
  "task_request t \<equiv> (case t of (m, uri, body) \<Rightarrow> Request m uri body)"

text \<open>What a task stands for: the entry's address and the exposition of some families.\<close>

definition task_of :: "HttpMethod \<Rightarrow> gateway \<Rightarrow> collectable_entry \<Rightarrow> push_task \<Rightarrow> bool" where
  "task_of method gw entry t \<longleftrightarrow> (\<exists>fs. t = (method, getUri gw entry, exposition fs) \<and> (\<forall>mf\<in>set fs. wf_metric_family mf))"

context user_collectable begin

lemma collect_tasks_live:
  "collect_tasks user clocks loc m i es gw heap = Some (ts, heap') \<Longrightarrow> heap_ok user_ok heap \<Longrightarrow>
     heap_ok user_ok heap' \<and> list_all2 (task_of m gw) (filter (\<lambda>e. heap (fst e) \<noteq> None) es) ts"
proof (induction es arbitrary: i heap ts)
  case (Cons e es)
  show ?case
  proof (cases "heap (fst e)")
    case None
    then show ?thesis using Cons by simp
  next
    case (Some c)
    then obtain fs c' ts' where c: "Collectable_Collect user (clocks i) c = Some (fs, c')"
      "collect_tasks user clocks loc m (i + 1) es gw (heap(fst e \<mapsto> c')) = Some (ts', heap')"
      "ts = (m, getUri gw e, Serializer_Serialize loc fs) # ts'"
      using Cons.prems by (auto simp: bind_eq_Some_conv Let_def)
    have ok: "object_ok user_ok c'" "\<forall>mf\<in>set fs. wf_metric_family mf"
      using heap_okD [OF Cons.prems(2) Some] objects.collect_inv c(1) objects.collect_wf [OF _ c(1)] by blast+
    have same: "(\<lambda>x. (heap(fst e \<mapsto> c')) (fst x) \<noteq> None) = (\<lambda>x. heap (fst x) \<noteq> None)"
      using Some by (auto simp: fun_eq_iff)
    have "task_of m gw e (m, getUri gw e, Serializer_Serialize loc fs)"
      using ok(2) by (auto simp: task_of_def Serializer_exposition)
    then show ?thesis
      using Cons.IH [OF c(2) heap_ok_update [OF Cons.prems(2) ok(1)]] Some unfolding same by (simp add: c(3))
  qed
qed simp

end

lemma push_loop_tasks:
  assumes "collect_tasks user clocks loc m i es gw heap = Some (ts, heap1)"
  shows "\<exists>k status ss w' heap' net'. k \<le> length ts \<and>
    push_loop user clocks loc perform m i es gw heap net = Some (status, gw\<lparr>curlWrapper := w'\<rparr>, heap', net') \<and>
    curl_calls perform (map task_request (take k ts)) (curlWrapper gw) net = (ss, w', net') \<and>
    (if status_failed status then \<exists>oks. ss = oks @ [status] \<and> (\<forall>s\<in>set oks. \<not> status_failed s)
     else status = 200 \<and> k = length ts \<and> (\<forall>s\<in>set ss. \<not> status_failed s))"
  using assms
proof (induction es arbitrary: i gw heap net ts)
  case Nil
  then show ?case by (intro exI [of _ 0] exI [of _ 200]) (simp add: status_failed_def)
next
  case (Cons e es)
  show ?case
  proof (cases "heap (fst e)")
    case None
    then show ?thesis using Cons by simp
  next
    case (Some c)
    then obtain fs c' ts' where c: "Collectable_Collect user (clocks i) c = Some (fs, c')"
      "collect_tasks user clocks loc m (i + 1) es gw (heap(fst e \<mapsto> c')) = Some (ts', heap1)"
      "ts = (m, getUri gw e, Serializer_Serialize loc fs) # ts'"
      using Cons.prems by (auto simp: bind_eq_Some_conv Let_def)
    obtain s w net1 where r: "performHttpRequest perform m (getUri gw e) (Serializer_Serialize loc fs) (curlWrapper gw) net = (s, w, net1)"
      using prod_cases3 by blast
    show ?thesis
    proof (cases "status_failed s")
      case True
      then show ?thesis
        unfolding c(3) by (intro exI [of _ 1] exI [of _ s]) (simp add: Some c(1) r)
    next
      case False
      have "collect_tasks user clocks loc m (i + 1) es (gw\<lparr>curlWrapper := w\<rparr>) (heap(fst e \<mapsto> c')) = Some (ts', heap1)"
        using c(2) by simp
      from Cons.IH [OF this, of net1] obtain k status ss w' heap' net' where IH: "k \<le> length ts'"
        "push_loop user clocks loc perform m (i + 1) es (gw\<lparr>curlWrapper := w\<rparr>) (heap(fst e \<mapsto> c')) net1 =
           Some (status, gw\<lparr>curlWrapper := w'\<rparr>, heap', net')"
        "curl_calls perform (map task_request (take k ts')) w net1 = (ss, w', net')"
        "if status_failed status then \<exists>oks. ss = oks @ [status] \<and> (\<forall>s\<in>set oks. \<not> status_failed s)
         else status = 200 \<and> k = length ts' \<and> (\<forall>s\<in>set ss. \<not> status_failed s)"
        unfolding gateway_wrapper_simps by (elim exE conjE) (rule that; assumption)
      have "if status_failed status then \<exists>oks. s # ss = oks @ [status] \<and> (\<forall>s\<in>set oks. \<not> status_failed s)
         else status = 200 \<and> Suc k = length ts \<and> (\<forall>s\<in>set (s # ss). \<not> status_failed s)"
      proof (cases "status_failed status")
        case True
        then obtain oks where "ss = oks @ [status]" "\<forall>s\<in>set oks. \<not> status_failed s" using IH(4) by auto
        then have "\<exists>oks. s # ss = oks @ [status] \<and> (\<forall>s\<in>set oks. \<not> status_failed s)"
          using False by (intro exI [of _ "s # oks"]) simp
        then show ?thesis using True by (rule if_P [THEN iffD2, rotated])
      next
        case ok: False
        then show ?thesis using IH(4) False by (simp add: c(3))
      qed
      moreover have "push_loop user clocks loc perform m i (e # es) gw heap net = Some (status, gw\<lparr>curlWrapper := w'\<rparr>, heap', net')"
        using IH(2) by (simp add: Some c(1) r False)
      moreover have "curl_calls perform (map task_request (take (Suc k) ts)) (curlWrapper gw) net = (s # ss, w', net')"
        using IH(3) by (simp add: c(3) r)
      moreover have "Suc k \<le> length ts" using IH(1) by (simp add: c(3))
      ultimately show ?thesis by blast
    qed
  qed
qed

subsection \<open>Asynchronous pushes\<close>

text \<open>The tasks of one asynchronous push. Beside them other threads use the wrapper: they make
  requests of their own and add headers. \<open>as_sent\<close> records which task performed which request.\<close>

record 'net async_state =
  as_status :: "int option list"
  as_curl :: curl_wrapper
  as_net :: 'net
  as_sent :: "(nat \<times> curl_handle \<times> int) list"

inductive async_step :: "(curl_handle \<Rightarrow> 'net \<Rightarrow> int \<times> int \<times> 'net) \<Rightarrow> push_task list \<Rightarrow>
    'net async_state \<Rightarrow> 'net async_state \<Rightarrow> bool"
  for perform :: "curl_handle \<Rightarrow> 'net \<Rightarrow> int \<times> int \<times> 'net" and tasks :: "push_task list" where
  run: "i < length tasks \<Longrightarrow> as_status st ! i = None \<Longrightarrow> tasks ! i = (m, uri, body) \<Longrightarrow>
    performHttpRequest perform m uri body (as_curl st) (as_net st) = (s, w, net) \<Longrightarrow>
    async_step perform tasks st (st\<lparr>as_status := (as_status st)[i := Some s], as_curl := w, as_net := net,
      as_sent := as_sent st @ [(i, curl_easy w, s)]\<rparr>)"
| other: "performHttpRequest perform m uri body (as_curl st) (as_net st) = (s, w, net) \<Longrightarrow>
    async_step perform tasks st (st\<lparr>as_curl := w, as_net := net\<rparr>)"
| header: "addHttpHeader ok h (as_curl st) = (b, w) \<Longrightarrow> async_step perform tasks st (st\<lparr>as_curl := w\<rparr>)"

inductive_cases async_stepE: "async_step perform tasks st st'"

definition async_start :: "push_task list \<Rightarrow> curl_wrapper \<Rightarrow> 'net \<Rightarrow> 'net async_state" where
  "async_start tasks w net = \<lparr>as_status = replicate (length tasks) None, as_curl = w, as_net = net, as_sent = []\<rparr>"

definition async_reachable :: "(curl_handle \<Rightarrow> 'net \<Rightarrow> int \<times> int \<times> 'net) \<Rightarrow> push_task list \<Rightarrow> curl_wrapper \<Rightarrow> 'net \<Rightarrow>
    'net async_state \<Rightarrow> bool" where
  "async_reachable perform tasks w net = rtranclp (async_step perform tasks) (async_start tasks w net)"

text \<open>A request sent for task \<open>i\<close> with the headers accepted by then.\<close>

definition sent_ok :: "push_task list \<Rightarrow> curl_wrapper \<Rightarrow> nat \<times> curl_handle \<times> int \<Rightarrow> bool" where
  "sent_ok tasks w r \<longleftrightarrow> (case r of (i, curl, s) \<Rightarrow> case tasks ! i of (m, uri, body) \<Rightarrow>
     \<exists>added. curl = request_options (presetupCurl w) (optHttpHeader w @ added) m uri body)"

definition async_inv :: "push_task list \<Rightarrow> curl_wrapper \<Rightarrow> 'net async_state \<Rightarrow> bool" where
  "async_inv tasks w st \<longleftrightarrow>
     length (as_status st) = length tasks \<and> presetupCurl (as_curl st) = presetupCurl w \<and>
     (\<exists>added. optHttpHeader (as_curl st) = optHttpHeader w @ added) \<and>
     distinct (map fst (as_sent st)) \<and>
     (\<forall>i<length tasks. (as_status st ! i = None) = (i \<notin> fst ` set (as_sent st))) \<and>
     (\<forall>r\<in>set (as_sent st). fst r < length tasks \<and> as_status st ! fst r = Some (snd (snd r))) \<and>
     (\<forall>r\<in>set (as_sent st). sent_ok tasks w r)"

lemma performHttpRequest_frame:
  assumes "performHttpRequest perform m uri body w net = (s, w', net')"
  shows "presetupCurl w' = presetupCurl w \<and> optHttpHeader w' = optHttpHeader w \<and>
    curl_easy w' = request_options (presetupCurl w) (optHttpHeader w) m uri body"
  using assms by (auto simp: performHttpRequest_options Let_def)

lemma addHttpHeader_frame:
  assumes "addHttpHeader ok h w = (b, w')"
  shows "presetupCurl w' = presetupCurl w \<and> (\<exists>added. optHttpHeader w' = optHttpHeader w @ added)"
  using assms by (auto simp: addHttpHeader_def split: if_splits)

lemma async_inv_step: "async_step perform tasks st st' \<Longrightarrow> async_inv tasks w st \<Longrightarrow> async_inv tasks w st'"
proof (induction rule: async_step.induct)
  case (run i st m uri body s w' net)
  note fr = performHttpRequest_frame [OF run(4)]
  have new: "i \<notin> fst ` set (as_sent st)" "i < length (as_status st)" using run by (auto simp: async_inv_def)
  have "sent_ok tasks w (i, curl_easy w', s)"
    using run fr by (auto simp: sent_ok_def async_inv_def)
  moreover have "\<forall>r\<in>set (as_sent st). fst r \<noteq> i" using new(1) by blast
  ultimately show ?case
    using run fr new by (auto simp: async_inv_def nth_list_update)
next
  case (other m uri body st s w' net)
  then show ?case using performHttpRequest_frame [OF other(1)] by (simp add: async_inv_def)
next
  case (header ok h st b w')
  then show ?case using addHttpHeader_frame [OF header(1)] by (auto simp: async_inv_def)
qed

lemma async_inv_reachable: "async_reachable perform tasks w net st \<Longrightarrow> async_inv tasks w st"
  unfolding async_reachable_def
proof (induction rule: rtranclp_induct)
  case base
  then show ?case by (simp add: async_inv_def async_start_def)
next
  case (step st st')
  then show ?case by (blast intro: async_inv_step)
qed

lemma pending_update:
  "i < length xs \<Longrightarrow> xs ! i = None \<Longrightarrow>
     length (filter (\<lambda>s. s = None) (xs[i := Some s])) < length (filter (\<lambda>s. s = None) xs)"
proof (induction xs arbitrary: i)
  case (Cons x xs)
  then show ?case by (cases i) simp_all
qed simp

lemma pending_done:
  assumes "i < length tasks" and "as_status st ! i = None" and "length (as_status st) = length tasks"
  shows "\<exists>st'. async_step perform tasks st st' \<and> length (as_status st') = length tasks \<and>
    length (filter (\<lambda>s. s = None) (as_status st')) < length (filter (\<lambda>s. s = None) (as_status st))"
proof -
  obtain m uri body s w net where r: "tasks ! i = (m, uri, body)"
    "performHttpRequest perform m uri body (as_curl st) (as_net st) = (s, w, net)"
    by (metis prod_cases3)
  have "length (filter (\<lambda>s. s = None) ((as_status st)[i := Some s])) < length (filter (\<lambda>s. s = None) (as_status st))"
    using assms by (intro pending_update) simp_all
  then show ?thesis
    using async_step.run [OF assms(1,2) r] assms(3) by (intro exI conjI) (assumption, simp_all)
qed

lemma async_can_finish:
  assumes "length (as_status st) = length tasks"
  shows "\<exists>st'. rtranclp (async_step perform tasks) st st' \<and> None \<notin> set (as_status st')"
  using assms
proof (induction "length (filter (\<lambda>s. s = None) (as_status st))" arbitrary: st rule: less_induct)
  case less
  show ?case
  proof (cases "None \<in> set (as_status st)")
    case True
    then obtain i where i: "i < length tasks" "as_status st ! i = None"
      using less.prems by (auto simp: in_set_conv_nth)
    obtain st1 where st1: "async_step perform tasks st st1" "length (as_status st1) = length tasks"
      "length (filter (\<lambda>s. s = None) (as_status st1)) < length (filter (\<lambda>s. s = None) (as_status st))"
      using pending_done [OF i less.prems] by blast
    from less.hyps [OF st1(3,2)] st1(1) show ?thesis by (blast intro: converse_rtranclp_into_rtranclp)
  qed blast
qed

lemma reduceFutures_last:
  "reduceFutures ss = (case filter status_failed ss of [] \<Rightarrow> 200 | f # fs \<Rightarrow> last (f # fs))"
proof (induction ss rule: rev_induct)
  case (snoc s ss)
  then show ?case by (simp add: reduceFutures_def split: list.splits)
qed (simp add: reduceFutures_def)

subsection \<open>Properties\<close>

lemma read_after_base: "\<forall>l\<in>set ls. label_name_free (fst l) \<Longrightarrow> read_path (drop (length base) (base @ encode_labels ls)) = Some ls"
  by (simp add: read_path_labels)

lemma job_name_free: "label_name_free ''job''"
  by (simp add: label_name_free_def)

text \<open>C37: The address a gateway pushes a registered collectable to is the given address with a
  slash, \<open>metrics\<close>, and a path from which the grouping key can be read back: the job, the labels
  of the gateway, the labels of the collectable, with their exact values. Deleting for the
  instance addresses the job with the gateway's labels, deleting the job alone.\<close>

theorem gateway_group_path:
  assumes "Gateway_new url presetup jobname labels e1 e2 e3 res = (Inr gw, res')"
    and "\<forall>l\<in>set (labels @ extra_labels extra). label_name_free (fst l)"
    and "gw' = Gateway_RegisterCollectable heap p extra gw"
    and "base = url @ (if url \<noteq> '''' \<and> last url \<noteq> slash then ''/'' else '''') @ ''metrics''"
  shows "fst (last (gw_collectables gw')) = p \<and>
    (\<forall>uri\<in>{getUri gw' (last (gw_collectables gw')), jobUri gw @ gw_labels gw, jobUri gw}. take (length base) uri = base) \<and>
    read_path (drop (length base) (getUri gw' (last (gw_collectables gw')))) = Some ((''job'', jobname) # labels @ extra_labels extra) \<and>
    read_path (drop (length base) (jobUri gw @ gw_labels gw)) = Some ((''job'', jobname) # labels) \<and>
    read_path (drop (length base) (jobUri gw)) = Some [(''job'', jobname)]"
proof -
  have u: "getUri gw' e = getUri gw e" for e
    by (simp add: assms(3) Gateway_RegisterCollectable_def getUri_def Let_def)
  have push: "getUri gw' (last (gw_collectables gw')) = base @ encode_labels ((''job'', jobname) # labels @ extra_labels extra)"
    unfolding u unfolding assms(3) registered_entry using getUri_path [OF assms(1)] by (simp add: assms(4))
  have inst: "jobUri gw @ gw_labels gw = base @ encode_labels ((''job'', jobname) # labels)"
    and job: "jobUri gw = base @ encode_labels [(''job'', jobname)]"
    using Gateway_new_Inr [OF assms(1)] by (simp_all add: assms(4) encode_labels_append [symmetric])
  have "read_path (drop (length base) (getUri gw' (last (gw_collectables gw')))) = Some ((''job'', jobname) # labels @ extra_labels extra)"
    unfolding push using assms(2) job_name_free by (intro read_after_base) simp
  moreover have "read_path (drop (length base) (jobUri gw @ gw_labels gw)) = Some ((''job'', jobname) # labels)"
    unfolding inst using assms(2) job_name_free by (intro read_after_base) simp
  moreover have "read_path (drop (length base) (jobUri gw)) = Some [(''job'', jobname)]"
    unfolding job using job_name_free by (intro read_after_base) simp
  moreover have "take (length base) (getUri gw' (last (gw_collectables gw'))) = base" unfolding push by simp
  moreover have "take (length base) (jobUri gw @ gw_labels gw) = base" unfolding inst by simp
  moreover have "take (length base) (jobUri gw) = base" unfolding job by simp
  moreover have "fst (last (gw_collectables gw')) = p" by (simp add: assms(3) registered_entry)
  ultimately show ?thesis by blast
qed

theorem gateway_group_path_witness:
  "\<exists>gw gw' res'. Gateway_new ''gw:9091'' None ''my job'' [(''instance'', ''a'')] 0 True True
       \<lparr>global_inits = 0, easy_handles = 0, header_lists = 0\<rparr> = (Inr gw, res') \<and>
     gw' = Gateway_RegisterCollectable (Map.empty :: registry heap) 5 (Some [(''zone'', '''')]) gw \<and>
     read_path (drop (length ''gw:9091/metrics'') (getUri gw' (last (gw_collectables gw')))) =
       Some [(''job'', ''my job''), (''instance'', ''a''), (''zone'', '''')]"
proof -
  let ?r = "\<lparr>global_inits = 0, easy_handles = 0, header_lists = 0\<rparr>"
  obtain gw res' where gw: "Gateway_new ''gw:9091'' None ''my job'' [(''instance'', ''a'')] 0 True True ?r = (Inr gw, res')"
    by (simp add: Gateway_new_def CurlWrapper_new_def Let_def)
  have free: "\<forall>l\<in>set ([(''instance'', ''a'')] @ extra_labels (Some [(''zone'', '''')])). label_name_free (fst l)"
    by (simp add: extra_labels_def label_name_free_def)
  have base: "''gw:9091/metrics'' =
      ''gw:9091'' @ (if ''gw:9091'' \<noteq> '''' \<and> last ''gw:9091'' \<noteq> slash then ''/'' else '''') @ ''metrics''" by simp
  note path = gateway_group_path [OF gw free refl base, where heap = "Map.empty :: registry heap" and p = 5]
  then have "read_path (drop (length ''gw:9091/metrics'')
      (getUri (Gateway_RegisterCollectable (Map.empty :: registry heap) 5 (Some [(''zone'', '''')]) gw)
         (last (gw_collectables (Gateway_RegisterCollectable (Map.empty :: registry heap) 5 (Some [(''zone'', '''')]) gw))))) =
      Some ((''job'', ''my job'') # [(''instance'', ''a'')] @ extra_labels (Some [(''zone'', '''')]))"
    by (elim conjE) assumption
  then show ?thesis
    using gw unfolding extra_labels_def option.case append.simps by (intro exI conjI) (assumption, rule refl, assumption)
qed

text \<open>C18: A synchronous push sends, in the order of registration, one request for each
  collectable that is alive, with the address of its entry and the text of its families, up to
  the first request that fails; it returns the status of that request, or 200 when all were sent
  and none failed. A failure is an error of the transfer or a status below 100 or from 400 on.\<close>

theorem push_outcome:
  assumes "user_collectable user user_ok" and "heap_ok user_ok heap"
    and "collect_tasks user clocks loc method 0 (gw_collectables gw) gw heap = Some (ts, heap1)"
  shows "list_all2 (task_of method gw) (filter (\<lambda>e. heap (fst e) \<noteq> None) (gw_collectables gw)) ts \<and>
    (\<exists>k status ss w' heap' net'. k \<le> length ts \<and>
      Gateway_push user clocks loc perform method gw heap net = Some (status, gw\<lparr>curlWrapper := w'\<rparr>, heap', net') \<and>
      curl_calls perform (map task_request (take k ts)) (curlWrapper gw) net = (ss, w', net') \<and>
      (if status_failed status then \<exists>oks. ss = oks @ [status] \<and> (\<forall>s\<in>set oks. \<not> status_failed s)
       else status = 200 \<and> k = length ts \<and> (\<forall>s\<in>set ss. \<not> status_failed s)))"
  unfolding Gateway_push_def
  by (rule conjI [OF conjunct2 [OF user_collectable.collect_tasks_live [OF assms(1,3,2)]] push_loop_tasks [OF assms(3)]])

definition demo_gateway :: gateway where
  "demo_gateway = \<lparr>jobUri = ''gw/metrics/job/j'', gw_labels = '''',
     curlWrapper = \<lparr>curl_easy = [], optHttpHeader = [CONTENT_TYPE], presetupCurl = None\<rparr>,
     gw_collectables = [(1, ''/a/b''), (2, '''')]\<rparr>"

abbreviation demo_heap :: "registry heap" where
  "demo_heap \<equiv> [1 \<mapsto> Registry_object (Registry_new Merge)]"

lemma demo_heap_ok: "heap_ok registry_ok demo_heap"
  using registry_reachable_ok [OF registry_reachable.start] by (auto simp: heap_ok_def split: if_splits)

lemma demo_tasks: "collect_tasks Registry_Collect clocks loc m 0 (gw_collectables demo_gateway) demo_gateway demo_heap =
    Some ([(m, ''gw/metrics/job/j/a/b'', '''')], demo_heap)"
  by (simp add: demo_gateway_def Registry_new_def Registry_Collect_def getUri_def Serializer_exposition exposition_def)

theorem push_outcome_witness:
  "\<exists>status w' heap' net'. Gateway_push Registry_Collect (\<lambda>i a n. 0) classic_locale (\<lambda>curl n. (0, 503, n + 1)) Post
     demo_gateway demo_heap (0::nat) = Some (status, demo_gateway\<lparr>curlWrapper := w'\<rparr>, heap', net')"
  using push_outcome [OF nested.user_collectable_axioms demo_heap_ok
      demo_tasks [where clocks = "\<lambda>i a n. 0" and loc = classic_locale and m = Post],
      where perform = "\<lambda>curl n. (0, 503, n + 1)" and net = 0]
  by blast

text \<open>C38: In every interleaving of the tasks of an asynchronous push with each other and with
  other users of the curl handle, no task sends its request twice, each request has its task's
  own method, address and body and the headers accepted by then, a task has a status exactly
  when its request was sent, and the push can always run to its end. Its result is then 200 when
  no request failed, and otherwise the status of the last failed one in the order of
  registration.\<close>

theorem async_push_outcome:
  assumes "async_reachable perform tasks w net st"
  shows "distinct (map fst (as_sent st)) \<and> (\<forall>r\<in>set (as_sent st). sent_ok tasks w r) \<and>
    length (as_status st) = length tasks \<and>
    (\<forall>i<length tasks. \<forall>s. as_status st ! i = Some s \<longleftrightarrow> (\<exists>curl. (i, curl, s) \<in> set (as_sent st))) \<and>
    (\<exists>st'. async_reachable perform tasks w net st' \<and> None \<notin> set (as_status st')) \<and>
    (None \<notin> set (as_status st) \<longrightarrow> reduceFutures (map the (as_status st)) =
       (case filter status_failed (map the (as_status st)) of [] \<Rightarrow> 200 | f # fs \<Rightarrow> last (f # fs)))"
proof -
  have inv: "async_inv tasks w st" using assms by (rule async_inv_reachable)
  have "\<exists>st'. rtranclp (async_step perform tasks) st st' \<and> None \<notin> set (as_status st')"
    by (rule async_can_finish) (use inv in \<open>simp add: async_inv_def\<close>)
  then have fin: "\<exists>st'. async_reachable perform tasks w net st' \<and> None \<notin> set (as_status st')"
    using assms unfolding async_reachable_def by (meson rtranclp_trans)
  have stat: "as_status st ! i = Some s \<longleftrightarrow> (\<exists>curl. (i, curl, s) \<in> set (as_sent st))" if "i < length tasks" for i s
  proof
    assume s: "as_status st ! i = Some s"
    then have "i \<in> fst ` set (as_sent st)" using inv that by (auto simp: async_inv_def)
    then obtain r where r: "r \<in> set (as_sent st)" "fst r = i" by blast
    then have "as_status st ! i = Some (snd (snd r))" using inv by (auto simp: async_inv_def)
    then show "\<exists>curl. (i, curl, s) \<in> set (as_sent st)" using r s by (metis option.inject prod.collapse)
  next
    assume "\<exists>curl. (i, curl, s) \<in> set (as_sent st)"
    then show "as_status st ! i = Some s" using inv by (fastforce simp: async_inv_def)
  qed
  show ?thesis using inv fin stat reduceFutures_last by (auto simp: async_inv_def)
qed

theorem async_push_outcome_witness:
  "\<exists>st. async_reachable (\<lambda>curl n. (0, 202, n + 1)) [(Post, ''u'', ''b''), (Post, ''v'', ''c'')] (curlWrapper demo_gateway) (0::nat) st \<and>
     None \<notin> set (as_status st)"
proof -
  let ?ts = "[(Post, ''u'', ''b''), (Post, ''v'', ''c'')]"
  have "async_reachable (\<lambda>curl n. (0, 202, n + 1)) ?ts (curlWrapper demo_gateway) (0::nat) (async_start ?ts (curlWrapper demo_gateway) 0)"
    by (simp add: async_reachable_def)
  from async_push_outcome [OF this] show ?thesis by blast
qed

end
