(* ===== verification/Locking.thy ===== *)
theory Locking
  imports Locks Gateway Exposer
begin

text \<open>
  Which mutexes the operations of the library take, in which order, and what they touch under
  them. Every definition follows one operation of the code and has its \<open>lock_guard\<close>s with the calls
  made inside their scopes; it is computed from the same states as the model of the operation (a
  family's metrics, a registry's families, a handler's collectables, the heap), since these
  determine which mutexes a call reaches. Every access to what a mutex guards is a \<open>Touch\<close> where the
  code makes it, so before, between and after the calls that a loop over guarded data makes;
  accesses with no call and no other mutex between them are one \<open>Touch\<close>. Reads of members that never change after construction
  (names, labels, bucket boundaries, paths) need no mutex and make no action; counters and gauges
  are atomic and have none.

  An object's mutex is named by its address: families and metrics by theirs in the registry, a
  handler by that of its registry, registries by theirs on the heap, exposers, gateways and curl
  wrappers by an argument. What a user's \<open>Collect\<close> does with mutexes is the argument \<open>user\<close>.
\<close>

subsection \<open>The mutexes and their hierarchy\<close>

datatype mutex = Exposer_mutex nat | Handler_mutex nat | Gateway_mutex nat | User_mutex nat
  | Registry_mutex nat | Family_mutex nat | Metric_mutex nat | Curl_mutex nat

fun mutex_level :: "mutex \<Rightarrow> nat" where
  "mutex_level (Exposer_mutex a) = 5"
| "mutex_level (Handler_mutex a) = 4"
| "mutex_level (Gateway_mutex a) = 4"
| "mutex_level (User_mutex a) = 3"
| "mutex_level (Registry_mutex a) = 2"
| "mutex_level (Family_mutex a) = 1"
| "mutex_level (Metric_mutex a) = 0"
| "mutex_level (Curl_mutex a) = 0"

type_synonym locks = "mutex action list"

subsection \<open>Metrics\<close>

definition Histogram_Observe_locks :: "nat \<Rightarrow> locks" where
  "Histogram_Observe_locks a = lock_guard (Metric_mutex a) [Touch (Metric_mutex a)]"

text \<open>The exception for a wrong number of increments is thrown before the mutex is taken.\<close>

definition Histogram_ObserveMultiple_locks :: "nat \<Rightarrow> double list \<Rightarrow> histogram \<Rightarrow> locks" where
  "Histogram_ObserveMultiple_locks a bucket_increments h =
     (if length bucket_increments \<noteq> length (bucket_counts h) then []
      else lock_guard (Metric_mutex a) [Touch (Metric_mutex a)])"

definition Histogram_Reset_locks :: "nat \<Rightarrow> locks" where
  "Histogram_Reset_locks a = lock_guard (Metric_mutex a) [Touch (Metric_mutex a)]"

definition Histogram_Collect_locks :: "nat \<Rightarrow> locks" where
  "Histogram_Collect_locks a = lock_guard (Metric_mutex a) [Touch (Metric_mutex a)]"

definition Summary_Observe_locks :: "nat \<Rightarrow> locks" where
  "Summary_Observe_locks a = lock_guard (Metric_mutex a) [Touch (Metric_mutex a)]"

definition Summary_Collect_locks :: "nat \<Rightarrow> locks" where
  "Summary_Collect_locks a = lock_guard (Metric_mutex a) [Touch (Metric_mutex a)]"

subsection \<open>Families and registries\<close>

definition Family_Add_locks :: "nat \<Rightarrow> locks" where
  "Family_Add_locks a = lock_guard (Family_mutex a) [Touch (Family_mutex a)]"

definition Family_Remove_locks :: "nat \<Rightarrow> locks" where
  "Family_Remove_locks a = lock_guard (Family_mutex a) [Touch (Family_mutex a)]"

definition Family_Has_locks :: "nat \<Rightarrow> locks" where
  "Family_Has_locks a = lock_guard (Family_mutex a) [Touch (Family_mutex a)]"

text \<open>Every metric is collected while the family is locked; \<open>metric_locks\<close> is what that takes. The
  map of the metrics is read before the first one, and after each for its labels and the next one.\<close>

definition Family_Collect_locks :: "(nat \<Rightarrow> locks) \<Rightarrow> nat \<times> 'm family \<Rightarrow> locks" where
  "Family_Collect_locks metric_locks f =
     lock_guard (Family_mutex (fst f)) (Touch (Family_mutex (fst f)) #
       concat (map (\<lambda>(labels, p, metric). metric_locks p @ [Touch (Family_mutex (fst f))]) (fam_metrics (snd f))))"

definition no_locks :: "nat \<Rightarrow> locks" where
  "no_locks p = []"

text \<open>The loop over a vector of families that the mutex \<open>m\<close> guards.\<close>

definition CollectAll_locks :: "mutex \<Rightarrow> (nat \<Rightarrow> locks) \<Rightarrow> 'm families \<Rightarrow> locks" where
  "CollectAll_locks m metric_locks families =
     Touch m # concat (map (\<lambda>f. Family_Collect_locks metric_locks f @ [Touch m]) families)"

definition Registry_Collect_locks :: "nat \<Rightarrow> registry \<Rightarrow> locks" where
  "Registry_Collect_locks a r =
     lock_guard (Registry_mutex a)
      (CollectAll_locks (Registry_mutex a) no_locks (reg_counters r) @
       CollectAll_locks (Registry_mutex a) no_locks (reg_gauges r) @
       CollectAll_locks (Registry_mutex a) Histogram_Collect_locks (reg_histograms r) @
       CollectAll_locks (Registry_mutex a) no_locks (reg_infos r) @
       CollectAll_locks (Registry_mutex a) Summary_Collect_locks (reg_summaries r))"

definition Registry_Add_locks :: "nat \<Rightarrow> locks" where
  "Registry_Add_locks a = lock_guard (Registry_mutex a) [Touch (Registry_mutex a)]"

definition Registry_Remove_locks :: "nat \<Rightarrow> locks" where
  "Registry_Remove_locks a = lock_guard (Registry_mutex a) [Touch (Registry_mutex a)]"

subsection \<open>Collectables, handlers and exposers\<close>

fun Collectable_locks :: "('o \<Rightarrow> locks) \<Rightarrow> nat \<Rightarrow> 'o collectable_object \<Rightarrow> locks" where
  "Collectable_locks user p (Registry_object r) = Registry_Collect_locks p r"
| "Collectable_locks user p (User_object c) = user c"

text \<open>The loop over the vector of collectables that the mutex \<open>m\<close> guards: it is read in every round and
  when it is found to be at its end.\<close>

fun CollectMetrics_locks :: "('o \<Rightarrow> locks) \<Rightarrow> mutex \<Rightarrow> nat list \<Rightarrow> 'o heap \<Rightarrow> locks" where
  "CollectMetrics_locks user m [] heap = [Touch m]"
| "CollectMetrics_locks user m (p # ps) heap =
     Touch m #
     (case heap p of
        None \<Rightarrow> CollectMetrics_locks user m ps heap
      | Some object \<Rightarrow> Collectable_locks user p object @ CollectMetrics_locks user m ps heap)"

definition MetricsHandler_RegisterCollectable_locks :: "handler \<Rightarrow> locks" where
  "MetricsHandler_RegisterCollectable_locks h =
     lock_guard (Handler_mutex (mh_registry h)) [Touch (Handler_mutex (mh_registry h))]"

definition MetricsHandler_RemoveCollectable_locks :: "handler \<Rightarrow> locks" where
  "MetricsHandler_RemoveCollectable_locks h =
     lock_guard (Handler_mutex (mh_registry h)) [Touch (Handler_mutex (mh_registry h))]"

text \<open>The collectables are collected under the handler's mutex; the response is written and the
  latencies are observed after its scope.\<close>

definition handleGet_locks :: "('o \<Rightarrow> locks) \<Rightarrow> handler \<Rightarrow> 'o heap \<Rightarrow> locks" where
  "handleGet_locks user h heap =
     lock_guard (Handler_mutex (mh_registry h))
       (CollectMetrics_locks user (Handler_mutex (mh_registry h)) (mh_collectables h) heap) @
     Summary_Observe_locks (request_latencies h)"

text \<open>The constructors reach the mutexes of the new registry at \<open>p\<close> and of what is put in it.\<close>

definition MetricsHandler_new_locks :: "handler_addrs \<Rightarrow> nat \<Rightarrow> locks" where
  "MetricsHandler_new_locks a p =
     Registry_Add_locks p @ Family_Add_locks (addr_bytes_family a) @
     Registry_Add_locks p @ Family_Add_locks (addr_scrapes_family a) @
     Registry_Add_locks p @ Family_Add_locks (addr_latencies_family a)"

definition Endpoint_new_locks :: "handler_addrs \<Rightarrow> nat \<Rightarrow> locks" where
  "Endpoint_new_locks a p =
     MetricsHandler_new_locks a p @ lock_guard (Handler_mutex p) [Touch (Handler_mutex p)]"

text \<open>\<open>e\<close> is the mutex of the exposer, which guards the endpoints: they are searched, and a new one is
  appended after it is made.\<close>

definition GetEndpointForUri_locks :: "nat \<Rightarrow> handler_addrs \<Rightarrow> nat \<Rightarrow> string \<Rightarrow> exposer \<Rightarrow> locks" where
  "GetEndpointForUri_locks e a p uri endpoints =
     Touch (Exposer_mutex e) #
     (case find_index (\<lambda>endpoint. Endpoint_GetURI endpoint = uri) endpoints of
        Some i \<Rightarrow> []
      | None \<Rightarrow> Endpoint_new_locks a p @ [Touch (Exposer_mutex e)])"

text \<open>The endpoint found or made has the handler \<open>h\<close>. Its authentication handler is replaced under
  the mutex of the exposer.\<close>

definition Exposer_RegisterCollectable_locks :: "nat \<Rightarrow> handler_addrs \<Rightarrow> nat \<Rightarrow> string \<Rightarrow> exposer \<Rightarrow> handler \<Rightarrow> locks" where
  "Exposer_RegisterCollectable_locks e a p uri endpoints h =
     lock_guard (Exposer_mutex e)
       (GetEndpointForUri_locks e a p uri endpoints @ MetricsHandler_RegisterCollectable_locks h)"

definition Exposer_RegisterAuth_locks :: "nat \<Rightarrow> handler_addrs \<Rightarrow> nat \<Rightarrow> string \<Rightarrow> exposer \<Rightarrow> locks" where
  "Exposer_RegisterAuth_locks e a p uri endpoints =
     lock_guard (Exposer_mutex e) (GetEndpointForUri_locks e a p uri endpoints @ [Touch (Exposer_mutex e)])"

definition Exposer_RemoveCollectable_locks :: "nat \<Rightarrow> handler_addrs \<Rightarrow> nat \<Rightarrow> string \<Rightarrow> exposer \<Rightarrow> handler \<Rightarrow> locks" where
  "Exposer_RemoveCollectable_locks e a p uri endpoints h =
     lock_guard (Exposer_mutex e)
       (GetEndpointForUri_locks e a p uri endpoints @ MetricsHandler_RemoveCollectable_locks h)"

subsection \<open>The push gateway\<close>

text \<open>The function that sets the handle up runs under the wrapper's mutex and takes none.\<close>

definition performHttpRequest_locks :: "nat \<Rightarrow> locks" where
  "performHttpRequest_locks c = lock_guard (Curl_mutex c) [Touch (Curl_mutex c)]"

definition addHttpHeader_locks :: "nat \<Rightarrow> locks" where
  "addHttpHeader_locks c = lock_guard (Curl_mutex c) [Touch (Curl_mutex c)]"

definition Gateway_RegisterCollectable_locks :: "nat \<Rightarrow> locks" where
  "Gateway_RegisterCollectable_locks g = lock_guard (Gateway_mutex g) [Touch (Gateway_mutex g)]"

text \<open>\<open>statuses i\<close> is the result of the \<open>i\<close>-th request. The vector of collectables is read in every
  round and at its end; the address of the request is computed from it after the collection.\<close>

fun push_loop_locks :: "('o \<Rightarrow> locks) \<Rightarrow> nat \<Rightarrow> nat \<Rightarrow> (nat \<Rightarrow> int) \<Rightarrow> nat \<Rightarrow> collectable_entry list \<Rightarrow> 'o heap \<Rightarrow> locks" where
  "push_loop_locks user g c statuses i [] heap = [Touch (Gateway_mutex g)]"
| "push_loop_locks user g c statuses i (entry # entries) heap =
     Touch (Gateway_mutex g) #
     (case heap (fst entry) of
        None \<Rightarrow> push_loop_locks user g c statuses i entries heap
      | Some object \<Rightarrow>
          Collectable_locks user (fst entry) object @ [Touch (Gateway_mutex g)] @ performHttpRequest_locks c @
          (if status_failed (statuses i) then []
           else push_loop_locks user g c statuses (i + 1) entries heap))"

definition Gateway_push_locks :: "('o \<Rightarrow> locks) \<Rightarrow> nat \<Rightarrow> nat \<Rightarrow> (nat \<Rightarrow> int) \<Rightarrow> gateway \<Rightarrow> 'o heap \<Rightarrow> locks" where
  "Gateway_push_locks user g c statuses gw heap =
     lock_guard (Gateway_mutex g) (push_loop_locks user g c statuses 0 (gw_collectables gw) heap)"

text \<open>The caller of an asynchronous push collects under the lock. Each request is made by a thread
  of its own, and the last thread waits for them all.\<close>

fun async_loop_locks :: "('o \<Rightarrow> locks) \<Rightarrow> nat \<Rightarrow> collectable_entry list \<Rightarrow> 'o heap \<Rightarrow> locks" where
  "async_loop_locks user g [] heap = [Touch (Gateway_mutex g)]"
| "async_loop_locks user g (entry # entries) heap =
     Touch (Gateway_mutex g) #
     (case heap (fst entry) of
        None \<Rightarrow> async_loop_locks user g entries heap
      | Some object \<Rightarrow>
          Collectable_locks user (fst entry) object @ [Touch (Gateway_mutex g)] @ async_loop_locks user g entries heap)"

definition async_push_locks :: "('o \<Rightarrow> locks) \<Rightarrow> nat \<Rightarrow> gateway \<Rightarrow> 'o heap \<Rightarrow> locks" where
  "async_push_locks user g gw heap =
     lock_guard (Gateway_mutex g) (async_loop_locks user g (gw_collectables gw) heap)"

definition async_task_locks :: "nat \<Rightarrow> locks" where
  "async_task_locks c = performHttpRequest_locks c"

definition reduceFutures_locks :: "nat list \<Rightarrow> locks" where
  "reduceFutures_locks lfutures = map Await lfutures"

definition Gateway_Delete_locks :: "nat \<Rightarrow> locks" where
  "Gateway_Delete_locks c = performHttpRequest_locks c"

definition Gateway_AddHttpHeader_locks :: "nat \<Rightarrow> locks" where
  "Gateway_AddHttpHeader_locks c = addHttpHeader_locks c"

subsection \<open>Every call keeps the hierarchy\<close>

text \<open>What is asked of the objects of the user's classes: their \<open>Collect\<close> may lock mutexes of its own
  and those of registries and below, and does not call back into an exposer, a handler or a gateway.\<close>

definition users_ok :: "('o \<Rightarrow> locks) \<Rightarrow> 'o heap \<Rightarrow> bool" where
  "users_ok user heap \<longleftrightarrow> (\<forall>p c. heap p = Some (User_object c) \<longrightarrow> guarded mutex_level 4 (user c))"

lemmas metric_locks_defs = Histogram_Observe_locks_def Histogram_ObserveMultiple_locks_def Histogram_Reset_locks_def
  Histogram_Collect_locks_def Summary_Observe_locks_def Summary_Collect_locks_def no_locks_def

lemmas single_locks_defs = Family_Add_locks_def Family_Remove_locks_def Family_Has_locks_def
  Registry_Add_locks_def Registry_Remove_locks_def MetricsHandler_RegisterCollectable_locks_def
  MetricsHandler_RemoveCollectable_locks_def performHttpRequest_locks_def addHttpHeader_locks_def
  Gateway_RegisterCollectable_locks_def async_task_locks_def Gateway_Delete_locks_def Gateway_AddHttpHeader_locks_def

lemma guarded_single [intro]: "mutex_level m < n \<Longrightarrow> guarded mutex_level n (lock_guard m [Touch m])"
  by (intro guarded_lock_guard in_scope_Touch in_scope_Nil)

lemma single_ordered: "ordered mutex_level i [] (lock_guard m [Touch m])"
  by (simp add: lock_guard_def)

lemma metric_locks_guarded:
  "guarded mutex_level 1 (Histogram_Observe_locks a)"
  "guarded mutex_level 1 (Histogram_ObserveMultiple_locks a incs h)"
  "guarded mutex_level 1 (Histogram_Reset_locks a)"
  "guarded mutex_level 1 (Histogram_Collect_locks a)"
  "guarded mutex_level 1 (Summary_Observe_locks a)"
  "guarded mutex_level 1 (Summary_Collect_locks a)"
  "guarded mutex_level 1 (no_locks a)"
  by (auto simp: metric_locks_defs)

lemma Family_Collect_guarded:
  assumes "\<And>p. guarded mutex_level 1 (metric_locks p)"
  shows "guarded mutex_level 2 (Family_Collect_locks metric_locks f)"
  unfolding Family_Collect_locks_def
  by (intro guarded_lock_guard in_scope_Touch in_scope_concat) (auto intro!: in_scope_append in_scope_Touch in_scope_guarded [OF assms])

lemma CollectAll_in_scope:
  assumes "\<And>p. guarded mutex_level 1 (metric_locks p)"
  shows "in_scope mutex_level (Registry_mutex a) (CollectAll_locks (Registry_mutex a) metric_locks families)"
  unfolding CollectAll_locks_def
  by (intro in_scope_Touch in_scope_concat) (auto intro!: in_scope_append in_scope_Touch in_scope_guarded [OF Family_Collect_guarded [OF assms]])

lemma Registry_Collect_guarded: "guarded mutex_level 3 (Registry_Collect_locks a r)"
  unfolding Registry_Collect_locks_def
  by (intro guarded_lock_guard in_scope_append CollectAll_in_scope metric_locks_guarded) simp

lemma Collectable_guarded:
  "users_ok user heap \<Longrightarrow> heap p = Some c \<Longrightarrow> guarded mutex_level 4 (Collectable_locks user p c)"
  by (cases c) (auto simp: users_ok_def intro: guarded_mono [OF Registry_Collect_guarded])

lemma Collectable_in_scope:
  "users_ok user heap \<Longrightarrow> heap p = Some c \<Longrightarrow> 4 \<le> mutex_level m \<Longrightarrow> in_scope mutex_level m (Collectable_locks user p c)"
  by (rule in_scope_guarded [OF Collectable_guarded])

lemma CollectMetrics_in_scope:
  "users_ok user heap \<Longrightarrow> 4 \<le> mutex_level m \<Longrightarrow> in_scope mutex_level m (CollectMetrics_locks user m ps heap)"
  by (induction ps) (auto intro!: in_scope_append in_scope_Touch Collectable_in_scope split: option.split)

lemma performHttpRequest_in_scope: "in_scope mutex_level (Gateway_mutex g) (performHttpRequest_locks c)"
  by (rule in_scope_guarded [of _ 1]) (auto simp: performHttpRequest_locks_def)

lemma push_loop_in_scope:
  "users_ok user heap \<Longrightarrow> in_scope mutex_level (Gateway_mutex g) (push_loop_locks user g c statuses i entries heap)"
proof (induction entries arbitrary: i)
  case (Cons entry entries)
  then show ?case
    by (auto intro!: in_scope_append in_scope_Touch Collectable_in_scope performHttpRequest_in_scope split: option.split)
qed auto

lemma async_loop_in_scope:
  "users_ok user heap \<Longrightarrow> in_scope mutex_level (Gateway_mutex g) (async_loop_locks user g entries heap)"
  by (induction entries) (auto intro!: in_scope_append in_scope_Touch Collectable_in_scope split: option.split)

lemma Endpoint_new_guarded: "guarded mutex_level 5 (Endpoint_new_locks a p)"
  unfolding Endpoint_new_locks_def MetricsHandler_new_locks_def
  by (auto simp: single_locks_defs intro!: guarded_append)

lemma GetEndpointForUri_in_scope: "in_scope mutex_level (Exposer_mutex e) (GetEndpointForUri_locks e a p uri endpoints)"
  unfolding GetEndpointForUri_locks_def
  by (auto split: option.split intro!: in_scope_append in_scope_Touch in_scope_guarded [OF Endpoint_new_guarded])

subsection \<open>The calls of the library\<close>

text \<open>The calls a thread may make, the thread \<open>i\<close> of a system; \<open>reduce\<close> waits for threads started before.\<close>

inductive library_call :: "('o \<Rightarrow> locks) \<Rightarrow> nat \<Rightarrow> locks \<Rightarrow> bool" for user :: "'o \<Rightarrow> locks" where
  observe: "library_call user i (Histogram_Observe_locks a)"
| observe_multiple: "library_call user i (Histogram_ObserveMultiple_locks a incs h)"
| reset: "library_call user i (Histogram_Reset_locks a)"
| collect_histogram: "library_call user i (Histogram_Collect_locks a)"
| observe_summary: "library_call user i (Summary_Observe_locks a)"
| collect_summary: "library_call user i (Summary_Collect_locks a)"
| family_add: "library_call user i (Family_Add_locks a)"
| family_remove: "library_call user i (Family_Remove_locks a)"
| family_has: "library_call user i (Family_Has_locks a)"
| collect_counters: "library_call user i (Family_Collect_locks no_locks (cf :: nat \<times> counter family))"
| collect_gauges: "library_call user i (Family_Collect_locks no_locks (gf :: nat \<times> gauge family))"
| collect_histograms: "library_call user i (Family_Collect_locks Histogram_Collect_locks (hf :: nat \<times> histogram family))"
| collect_infos: "library_call user i (Family_Collect_locks no_locks (nf :: nat \<times> info family))"
| collect_summaries: "library_call user i (Family_Collect_locks Summary_Collect_locks (sf :: nat \<times> summary family))"
| registry_add: "library_call user i (Registry_Add_locks a)"
| registry_remove: "library_call user i (Registry_Remove_locks a)"
| registry_collect: "library_call user i (Registry_Collect_locks a r)"
| scrape: "users_ok user heap \<Longrightarrow> library_call user i (handleGet_locks user h heap)"
| exposer_register: "library_call user i (Exposer_RegisterCollectable_locks e addrs p uri endpoints h)"
| exposer_auth: "library_call user i (Exposer_RegisterAuth_locks e addrs p uri endpoints)"
| exposer_remove: "library_call user i (Exposer_RemoveCollectable_locks e addrs p uri endpoints h)"
| gateway_register: "library_call user i (Gateway_RegisterCollectable_locks g)"
| push: "users_ok user heap \<Longrightarrow> library_call user i (Gateway_push_locks user g c statuses gw heap)"
| async_push: "users_ok user heap \<Longrightarrow> library_call user i (async_push_locks user g gw heap)"
| async_task: "library_call user i (async_task_locks c)"
| reduce: "\<forall>j\<in>set js. j < i \<Longrightarrow> library_call user i (reduceFutures_locks js)"
| delete: "library_call user i (Gateway_Delete_locks c)"
| header: "library_call user i (Gateway_AddHttpHeader_locks c)"

lemma handleGet_ordered: "users_ok user heap \<Longrightarrow> ordered mutex_level i [] (handleGet_locks user h heap)"
  unfolding handleGet_locks_def
  by (intro guarded_ordered [of _ 5] guarded_append guarded_lock_guard CollectMetrics_in_scope
      guarded_mono [OF metric_locks_guarded(5)]) simp_all

lemma library_call_ordered: "library_call user i c \<Longrightarrow> ordered mutex_level i [] c"
proof (induction rule: library_call.induct)
  case (scrape heap i h)
  then show ?case by (rule handleGet_ordered)
next
  case (exposer_register i e addrs p uri endpoints h)
  then show ?case
    unfolding Exposer_RegisterCollectable_locks_def
    by (intro guarded_ordered [of _ 6] guarded_lock_guard in_scope_append GetEndpointForUri_in_scope in_scope_guarded [of _ 5])
      (auto simp: single_locks_defs)
next
  case (exposer_auth i e addrs p uri endpoints)
  then show ?case
    unfolding Exposer_RegisterAuth_locks_def
    by (intro guarded_ordered [of _ 6] guarded_lock_guard in_scope_append GetEndpointForUri_in_scope) auto
next
  case (exposer_remove i e addrs p uri endpoints h)
  then show ?case
    unfolding Exposer_RemoveCollectable_locks_def
    by (intro guarded_ordered [of _ 6] guarded_lock_guard in_scope_append GetEndpointForUri_in_scope in_scope_guarded [of _ 5])
      (auto simp: single_locks_defs)
next
  case (push heap i g c statuses gw)
  then show ?case
    unfolding Gateway_push_locks_def by (intro guarded_ordered [of _ 5] guarded_lock_guard push_loop_in_scope) simp_all
next
  case (async_push heap i g gw)
  then show ?case
    unfolding async_push_locks_def by (intro guarded_ordered [of _ 5] guarded_lock_guard async_loop_in_scope) simp_all
next
  case (reduce js i)
  then show ?case unfolding reduceFutures_locks_def by (intro awaits_ordered) auto
qed (simp_all add: single_locks_defs single_ordered metric_locks_guarded [THEN guarded_ordered]
  Registry_Collect_guarded [THEN guarded_ordered] Family_Collect_guarded [OF metric_locks_guarded(4), THEN guarded_ordered]
  Family_Collect_guarded [OF metric_locks_guarded(6), THEN guarded_ordered]
  Family_Collect_guarded [OF metric_locks_guarded(7), THEN guarded_ordered])

interpretation lib: lock_discipline mutex_level "library_call user" for user :: "'o \<Rightarrow> locks"
  by unfold_locales (rule library_call_ordered)

subsection \<open>Properties\<close>

text \<open>C4: No deadlock: whatever calls of the library any number of threads make, metrics, registries,
  scrapes, registrations, pushes, the tasks of asynchronous pushes and the thread that waits for
  them included, in every state that some interleaving reaches a thread can go on unless all are
  through; an interleaving of \<open>n\<close> steps leaves exactly \<open>n\<close> fewer to do, so every one of them ends,
  and at its end no mutex is held.\<close>

theorem library_deadlock_free:
  assumes "\<forall>i<length ps. runs (library_call user) i (ps ! i)" and "(lock_step ^^ n) (lock_start ps) ts"
  shows "n + remaining ts = remaining (lock_start ps) \<and>
    (remaining ts \<noteq> 0 \<longleftrightarrow> (\<exists>ts'. lock_step ts ts')) \<and>
    (\<exists>ts'. lock_step\<^sup>*\<^sup>* ts ts' \<and> (\<forall>t\<in>set ts'. t = ([], [])))"
  using assms by (rule lib.deadlock_free)

text \<open>C19: No data race: when a thread is about to touch data that a mutex guards, it holds this mutex,
  no other thread does, and no other thread is about to touch the data.\<close>

theorem library_race_free:
  assumes "\<forall>i<length ps. runs (library_call user) i (ps ! i)" and "lock_step\<^sup>*\<^sup>* (lock_start ps) ts"
    and "i < length ts" and "ts ! i = (held, Touch m # p)"
  shows "m \<in> set held \<and> (\<forall>j<length ts. j \<noteq> i \<longrightarrow> m \<notin> set (fst (ts ! j)) \<and> (\<nexists>q. snd (ts ! j) = Touch m # q))"
  using assms by (rule lib.touch_owned)

text \<open>Two threads at one registry with a histogram: one scrapes it through a handler, one observes.
  An object of a class of the user's locks a mutex of its own and collects the same registry.\<close>

definition demo_locks_registry :: registry where
  "demo_locks_registry = (Registry_new Merge)\<lparr>reg_histograms := [(7, \<lparr>fam_metrics = [([], 9, \<lparr>bucket_boundaries = [], bucket_counts = [], hist_sum = Gauge_default\<rparr>)],
     fam_name = ''h'', fam_help = '''', fam_constant_labels = []\<rparr>)]\<rparr>"

definition demo_user :: "nat \<Rightarrow> locks" where
  "demo_user c = lock_guard (User_mutex c) (Touch (User_mutex c) # Registry_Collect_locks 1 demo_locks_registry)"

definition demo_locks_heap :: "nat heap" where
  "demo_locks_heap = [1 \<mapsto> Registry_object demo_locks_registry, 2 \<mapsto> User_object 5]"

definition demo_locks_handler :: handler where
  "demo_locks_handler = \<lparr>mh_collectables = [1, 2], mh_registry = 3, bytes_transferred_family = 11, bytes_transferred = 12,
     num_scrapes_family = 13, num_scrapes = 14, request_latencies_family = 15, request_latencies = 16\<rparr>"

definition demo_threads :: "locks list" where
  "demo_threads = [handleGet_locks demo_user demo_locks_handler demo_locks_heap, Histogram_Observe_locks 9]"

definition demo_locked :: "mutex thread list" where
  "demo_locked = [([], handleGet_locks demo_user demo_locks_handler demo_locks_heap),
     ([Metric_mutex 9], [Touch (Metric_mutex 9), Release (Metric_mutex 9)])]"

lemma demo_users_ok: "users_ok demo_user demo_locks_heap"
  by (auto simp: users_ok_def demo_locks_heap_def demo_user_def split: if_splits
      intro!: in_scope_append in_scope_Touch in_scope_guarded [OF Registry_Collect_guarded])

lemma demo_runs: "\<forall>i<length demo_threads. runs (library_call demo_user) i (demo_threads ! i)"
proof (intro allI impI)
  fix i assume "i < length demo_threads"
  then have "i = 0 \<or> i = 1" by (auto simp: demo_threads_def)
  moreover have "runs (library_call demo_user) 0 (handleGet_locks demo_user demo_locks_handler demo_locks_heap)"
    by (rule runs_single) (rule library_call.scrape [OF demo_users_ok])
  moreover have "runs (library_call demo_user) 1 (Histogram_Observe_locks 9)"
    by (rule runs_single) (rule library_call.observe)
  ultimately show "runs (library_call demo_user) i (demo_threads ! i)" by (auto simp: demo_threads_def)
qed

lemma demo_step: "lock_step (lock_start demo_threads) demo_locked"
proof -
  have "lock_step (lock_start demo_threads)
      ((lock_start demo_threads)[1 := ([Metric_mutex 9], [Touch (Metric_mutex 9), Release (Metric_mutex 9)])])"
    by (rule lock_step.acquire) (simp_all add: lock_start_def demo_threads_def Histogram_Observe_locks_def lock_guard_def)
  then show ?thesis by (simp add: lock_start_def demo_threads_def demo_locked_def)
qed

theorem library_deadlock_free_witness:
  "\<exists>ts'. lock_step\<^sup>*\<^sup>* demo_locked ts' \<and> (\<forall>t\<in>set ts'. t = ([], []))"
proof -
  have "(lock_step ^^ 1) (lock_start demo_threads) demo_locked" using demo_step by (simp only: relpowp_1)
  from library_deadlock_free [OF demo_runs this] show ?thesis by blast
qed

theorem library_race_free_witness:
  "Metric_mutex 9 \<notin> set (fst (demo_locked ! 0))"
proof -
  have "lock_step\<^sup>*\<^sup>* (lock_start demo_threads) demo_locked" using demo_step by simp
  from library_race_free [OF demo_runs this, of 1 "[Metric_mutex 9]" "Metric_mutex 9" "[Release (Metric_mutex 9)]"]
  show ?thesis by (simp add: demo_locked_def)
qed

text \<open>The contract of a user's \<open>Collect\<close> is needed: one that registers a collectable at the endpoint
  that is collecting it waits for a mutex its own thread holds.\<close>

lemma registering_while_collected:
  assumes "mh_collectables h = [2]"
  defines "start \<equiv> lock_start [handleGet_locks (\<lambda>c. MetricsHandler_RegisterCollectable_locks h) h [2 \<mapsto> User_object ()]]"
  shows "\<exists>ts. lock_step\<^sup>*\<^sup>* start ts \<and> remaining ts \<noteq> 0 \<and> (\<nexists>ts'. lock_step ts ts')"
proof -
  define m where "m = Handler_mutex (mh_registry h)"
  obtain p where start: "start = [([], Acquire m # Touch m # Acquire m # p)]"
    using assms by (simp add: handleGet_locks_def MetricsHandler_RegisterCollectable_locks_def lock_guard_def lock_start_def m_def)
  have "lock_step start (start[0 := ([m], Touch m # Acquire m # p)])"
    by (rule lock_step.acquire [where i = 0]) (simp_all add: start)
  then have 1: "lock_step start [([m], Touch m # Acquire m # p)]" by (simp add: start)
  have "lock_step [([m], Touch m # Acquire m # p)] ([([m], Touch m # Acquire m # p)][0 := ([m], Acquire m # p)])"
    by (rule lock_step.touch [where i = 0]) simp_all
  then have "lock_step\<^sup>*\<^sup>* start [([m], Acquire m # p)]" using 1 by simp
  moreover have "\<nexists>ts'. lock_step [([m], Acquire m # p)] ts'" by (auto elim: lock_stepE)
  ultimately show ?thesis
    by (intro exI [of _ "[([m], Acquire m # p)]"]) (auto simp: remaining_def)
qed

end
