(* ===== verification/Spec2Isabelle.thy ===== *)
theory Spec2Isabelle
  imports GaugeAtomic CKMSExact FamilyConcurrent RegistryConcurrent SharedCounter NumberReading HistogramConcurrent SummaryConcurrent ConcurrentScrape Protection Locking
begin

text \<open>
  A verification library for prometheus-cpp, the C++17 client library for the Prometheus
  monitoring system: metrics are updated by a program, kept in families and registries, and
  exposed as text, either to scrapes (pull) or by requests to a push gateway (push).

  \<^bold>\<open>Parts of the program and their theories.\<close> All paths are below \<open>src/\<close>. Every definition has the
  name of the function or class it translates; a class is a record, a method a function from
  the old state to the result and the new state.

  \<^item> \<open>Prelude\<close>, \<open>Doubles\<close>, \<open>Rounding\<close>, \<open>NumberFormat\<close>: lists, options and partial folds; \<open>double\<close>
    as exact rationals with the IEEE special values, rounding to nearest even, comparisons,
    arithmetic and conversions; printing of integers and of \<open>double\<close> with a precision.
  \<^item> \<open>ClientMetric\<close>: \<open>core/include/prometheus/{client_metric,metric_family,metric_type}.h\<close>, the data
    that metrics, registries and the serializer exchange.
  \<^item> \<open>CheckNames\<close>: \<open>core/src/check_names.cc\<close>.
  \<^item> \<open>Scalars\<close>: \<open>core/src/{gauge,counter,info}.cc\<close>; \<open>GaugeAtomic\<close>: the same gauge under threads that
    write and read it, as a step relation with the compare-and-exchange loop of \<open>Gauge::Change\<close> and a
    history of the invocations and responses.
  \<^item> \<open>Histogram\<close>: \<open>core/src/histogram.cc\<close>; \<open>HistogramConcurrent\<close>: its functions statement by statement
    in threads that share one histogram, on \<open>Guarded\<close>, the theory of objects with a mutex.
  \<^item> \<open>CKMSQuantiles\<close>, \<open>CKMSInvariant\<close>, \<open>CKMSAccuracy\<close>, \<open>CKMSExact\<close>: \<open>core/src/detail/ckms_quantiles.cc\<close>,
    the estimator, what its weighted sample means, a run whose answer misses the tolerated error,
    and which observation it answers when no error is tolerated; \<open>TimeWindow\<close>:
    \<open>core/src/detail/time_window_quantiles.cc\<close>, on 64-bit ticks of the clock; \<open>Summary\<close>: \<open>core/src/summary.cc\<close>;\<open>SummaryConcurrent\<close>: its functions statement by statement, like the histogram's.
  \<^item> \<open>Family\<close>: \<open>core/src/family.cc\<close> with the label hash of \<open>core/src/detail/{utils.cc,hash.h}\<close>; the
    class template is one model with a dictionary of the metric type; \<open>FamilyMap\<close>: the map from label
    sets to metrics that a family implements; \<open>FamilyConcurrent\<close>: \<open>Add\<close>, \<open>Remove\<close> and \<open>Has\<close> statement by
    statement in threads that share a family.
  \<^item> \<open>Registry\<close>: \<open>core/src/registry.cc\<close> and the builders of \<open>core/src/detail/builder.cc\<close>;
    \<open>RegistryConcurrent\<close>: \<open>Add\<close> and \<open>Remove\<close> statement by statement in threads that share a registry;
    \<open>ConcurrentScrape\<close>: \<open>Collect\<close> of families and registries while other threads call their methods;
    \<open>SharedCounter\<close>: threads that build a family, add a counter and increment it.
  \<^item> \<open>TextSerializer\<close>: \<open>core/src/{text_serializer,serializer}.cc\<close>, on a stream that is its text, locale
    and precision; \<open>Exposition\<close>: the text format as a specification, with a reader; \<open>NumberReading\<close>:
    the numbers a reader takes from it.
  \<^item> \<open>Base64\<close>: \<open>util/include/prometheus/detail/base64.h\<close>.
  \<^item> \<open>Collectables\<close>: \<open>pull/src/metrics_collector.cc\<close> and weak pointers to the objects on a heap.
  \<^item> \<open>LabelEncoder\<close>, \<open>CurlWrapper\<close>, \<open>Gateway\<close>: \<open>push/src/detail/label_encoder.cc\<close>,
    \<open>push/src/detail/curl_wrapper.cc\<close>, \<open>push/src/gateway.cc\<close>, asynchronous pushes as a step relation.
  \<^item> \<open>BasicAuth\<close>, \<open>Handler\<close>, \<open>Exposer\<close>: \<open>pull/src/basic_auth.cc\<close>, \<open>pull/src/handler.cc\<close>,
    \<open>pull/src/{endpoint,exposer}.cc\<close>; \<open>Serving\<close>: an endpoint under many scrapes; \<open>Protection\<close>: an
    endpoint with authentication behind the web server.
  \<^item> \<open>Locks\<close>, \<open>Locking\<close>: the mutexes of the library, the calls made while they are held, the accesses to
    what they guard between these calls, and threads that make any calls of the library (a
    definition with the suffix \<open>_locks\<close> for each function).
  \<^item> This theory: properties from the calls of a program to the text a server reads.

  \<^bold>\<open>How they interact.\<close> A program calls builders, which enter families in a registry; it adds
  metrics to a family and updates them through references (addresses here). \<open>Collect\<close> walks
  registry, families and metrics; its families go through \<open>CollectMetrics\<close> over the live objects
  of an endpoint or gateway to the serializer, whose text is the body of a response or request.
  The endpoint's own three metrics live in a registry that is one of the objects it exposes.

  \<^bold>\<open>Interfaces.\<close> Locales state them and each is interpreted on the model: \<open>byte_codec\<close> (both base64
  alphabets), \<open>quantile_stream\<close> (the estimator a time window rests on), \<open>collectable\<close> with
  \<open>exposed_metric\<close> and \<open>named_collectable\<close> (the five metric types, the registry), \<open>user_collectable\<close>
  (objects of the user's classes beside registries), \<open>guarded_object\<close> (an object with a mutex; the
  histogram, the summary, the family and the registry), \<open>lock_discipline\<close> (programs that keep the order of the mutexes; the whole library).

  \<^bold>\<open>What the lemmas show.\<close> Per component: the invariant and that every operation keeps it (counters
  never decrease, cumulative bucket counts, the ordered weighted sample, families and registries
  with valid names and no duplicates, one endpoint per URI, all taken back from the web server when
  the exposer dies); every branch of the operations that
  throw; totality where the code could hang or run into undefined behaviour (estimator, rotation,
  compression, endpoint); linearizability of the gauge, the histogram, the summary, the family and the registry, whose calls
  all return whatever the scheduler does (the gauge's loop: can return), so that
  threads that ask for one series all get the same metric and none of their increments is lost on
  the way to the text; scrapes during updates, between which no counter falls; what an asynchronous
  push sends and returns under every interleaving, and that threads calling the library neither
  deadlock nor race: exposer, then handler or gateway, then the user's objects, then registry,
  family, and last metric or curl wrapper is the order in which mutexes are taken; what a request
  without credentials can reach; how far the numbers in the text are from the values; round trips of
  base64, label paths, grouping keys, responses and of the exposition text, up to the exact
  values of counters and histograms in it. Where the code falls short of its purpose a lemma
  shows it on a concrete input (\<open>nan_boundary_accepted\<close>, \<open>fractional_counts_lost\<close>, \<open>lax_padding\<close>, \<open>short_age_hangs\<close>,
  \<open>help_forges_sample\<close>, \<open>sixteen_digits_collide\<close>, \<open>dot_value_lost\<close>, \<open>refused_encoding_used\<close>,
  \<open>lower_case_scheme_refused\<close>, \<open>nan_observation_undefined\<close>, \<open>tolerated_error_exceeded\<close>,
  \<open>zero_error_exceeded\<close>, \<open>negative_age_undefined\<close>, \<open>suffix_names_clash\<close>).

  \<^bold>\<open>Bounds and loops.\<close> Counts are exact up to \<open>2^53\<close>, the integers a \<open>double\<close> holds. The estimator's
  results are proved for at most \<open>10^9\<close> observations per estimator, so that its \<open>int\<close> ranks do not
  overflow. Time points and durations of a window have 64 bits, and the arithmetic on them is checked:
  where a property is about a clock that does not go back, its readings and the time since the start
  are representable (\<open>steady\<close>). The length zlib is told has 32 bits, hence texts shorter than \<open>2^32\<close> bytes. The loops
  that may not end (\<open>rotate_loop\<close>, \<open>deflate_loop\<close>) are \<open>partial_function (option)\<close> and their ends
  are proved; the only fuel is that of the reader of labels in \<open>Exposition\<close>, which is the length of
  the text it reads. An undefined operation (a conversion out of range, a dangling reference) is
  \<open>None\<close>, an exception is \<open>Inl\<close>.

  \<^bold>\<open>Arguments for code that is not here.\<close> The order and places of a hash map's entries (\<open>place\<close>),
  \<open>std::hash\<close>, addresses of new objects, clock readings, the global locale, zlib (a stream type with
  \<open>deflateInit2\<close> and \<open>deflate\<close>), libcurl (what allocations and transfers return), the calls civetweb
  makes and receives, and \<open>Collect\<close> of the user's classes are arguments of the definitions; what
  the properties need of them is a hypothesis with a witness.

  \<^bold>\<open>Not modelled.\<close> \<open>Exposer::GetListeningPorts\<close> and the constructors that start a civetweb server only
  call it; deleted copy and defaulted move operations, export macros, explicit instantiations and
  the version checks of the preprocessor have no behaviour; tests, samples, benchmarks and build
  files are not part of the library. Exceptions that the program's own functions throw into the library
  are left out: those of a user's \<open>Collect\<close> and of the callback that sets a curl handle up. The operations of components with a mutex are functions, one
  step each; \<open>Gauge\<close>, \<open>Histogram\<close>, \<open>Summary\<close>, \<open>Family\<close> and \<open>Registry\<close> are also
  modelled below that grain (a scrape of a registry is no snapshot of all its metrics). Locking leaves out the mutexes
  inside civetweb, zlib and libcurl, and asks of a user's \<open>Collect\<close> that it does not call back into
  an exposer, a handler or a gateway (\<open>registering_while_collected\<close> shows why).
\<close>

subsection \<open>From the registry to the text\<close>

lemma wf_plain_family: "wf_metric_family mf \<Longrightarrow> newline \<notin> set (family_help mf) \<Longrightarrow> plain_family mf"
  by (simp add: wf_metric_family_def plain_family_def)

text \<open>A metric type whose metrics are one line each.\<close>

definition single_line :: "MetricType \<Rightarrow> bool" where
  "single_line t \<longleftrightarrow> t = Counter \<or> t = Gauge \<or> t = Info \<or> t = Untyped"

lemma single_line_samples:
  "single_line (family_type mf) \<Longrightarrow> \<exists>suffix v. \<forall>m. family_samples mf m = [sample_of mf m suffix [] (v m)]"
  unfolding single_line_def by (elim disjE; simp add: family_samples_def; intro exI allI; rule refl)

lemma exposed_names [simp]: "exposed_name \<circ> exposed_family = family_name"
  by (auto simp: exposed_family_def)

definition series :: "sample \<Rightarrow> string \<times> (string \<times> string) list" where
  "series s = (sample_name s, sample_labels s)"

lemma label_pair_inject: "map label_pair ls = map label_pair ls' \<longleftrightarrow> ls = ls'"
  by (rule inj_map_eq_map) (auto intro!: injI label.equality)

lemma single_line_series:
  assumes "wf_metric_family mf" and "single_line (family_type mf)"
  shows "distinct (map series (exposed_samples (exposed_family mf)))"
proof -
  obtain suffix v where s: "\<And>m. family_samples mf m = [sample_of mf m suffix [] (v m)]"
    using single_line_samples [OF assms(2)] by blast
  have "concat (map (family_samples mf) ms) = map (\<lambda>m. sample_of mf m suffix [] (v m)) ms" for ms
    by (induction ms) (simp_all add: s)
  then have "map series (exposed_samples (exposed_family mf)) =
      map (\<lambda>ls. (family_name mf @ suffix, map label_pair ls)) (map metric_label (family_metric mf))"
    by (simp add: exposed_family_def series_def sample_of_def)
  moreover have "distinct (map metric_label (family_metric mf))" using assms(1) by (simp add: wf_metric_family_def)
  ultimately show ?thesis by (auto simp: distinct_map inj_on_def label_pair_inject)
qed

text \<open>The name in the lines of a family of such a type.\<close>

definition line_name :: "metric_family \<Rightarrow> string" where
  "line_name mf = family_name mf @ (if family_type mf = Info then ''_info'' else '''')"

lemma single_line_name:
  "single_line (family_type mf) \<Longrightarrow> s \<in> set (exposed_samples (exposed_family mf)) \<Longrightarrow> sample_name s = line_name mf"
  by (auto simp: single_line_def exposed_family_def family_samples_def sample_of_def line_name_def)

lemma single_line_apart:
  "\<forall>mf\<in>set fs. wf_metric_family mf \<and> single_line (family_type mf) \<Longrightarrow> distinct (map line_name fs) \<Longrightarrow>
   distinct (map series (concat (map (exposed_samples \<circ> exposed_family) fs)))"
proof (induction fs)
  case (Cons mf fs)
  have name: "fst x = line_name f"
    if "x \<in> set (map series (exposed_samples (exposed_family f)))" "f \<in> set (mf # fs)" for x f
    using that Cons.prems(1) single_line_name [of f] by (auto simp: series_def)
  have "set (map series (exposed_samples (exposed_family mf))) \<inter>
      set (map series (concat (map (exposed_samples \<circ> exposed_family) fs))) = {}"
  proof (rule ccontr)
    assume "\<not> ?thesis"
    then obtain x f where x: "x \<in> set (map series (exposed_samples (exposed_family mf)))"
      "f \<in> set fs" "x \<in> set (map series (exposed_samples (exposed_family f)))" by auto
    then have "line_name f = line_name mf" using name [OF x(1)] name [OF x(3)] by simp
    then show False using x(2) Cons.prems(2) by (force simp: image_iff)
  qed
  then show ?case
    using Cons single_line_series [of mf] by (simp add: comp_def)
qed simp

lemma line_names_distinct:
  assumes "distinct (map family_name fs)"
    and "\<forall>mf\<in>set fs. \<forall>mf'\<in>set fs. family_type mf = Info \<and> family_type mf' \<noteq> Info \<longrightarrow> family_name mf' \<noteq> family_name mf @ ''_info''"
  shows "distinct (map line_name fs)"
  using assms
proof (induction fs)
  case (Cons mf fs)
  have "line_name f \<noteq> line_name mf" if "f \<in> set fs" for f
  proof -
    have "family_name f \<noteq> family_name mf" using Cons.prems(1) that by (force simp: image_iff)
    then show ?thesis using Cons.prems(2) that unfolding line_name_def by (auto split: if_splits)
  qed
  then have "line_name mf \<notin> set (map line_name fs)" by fastforce
  then show ?case using Cons by simp
qed simp

text \<open>C21: Whatever calls built a registry, and whatever other threads call on its families and metrics
  while it is collected, the text of what is collected can be read back to those families with all
  their samples, when no help text holds a line end; no family name is exposed twice, and no family
  of counters, gauges or infos exposes a series twice. Neither do all families of these types
  together, unless an info \<open>x\<close> meets a counter or gauge \<open>x_info\<close>: these names the registry accepts side
  by side, and their lines then clash (\<open>suffix_names_clash\<close>).\<close>

theorem registry_exposed:
  assumes "registry_reachable behavior r" and "registry_scrape r fs r'"
    and "\<forall>mf\<in>set fs. newline \<notin> set (family_help mf)"
  shows "read_exposition (Serializer_Serialize global fs) = Some (map exposed_family fs) \<and>
    distinct (map (exposed_name \<circ> exposed_family) fs) \<and>
    (\<forall>mf\<in>set fs. single_line (family_type mf) \<longrightarrow> distinct (map series (exposed_samples (exposed_family mf)))) \<and>
    (let single = filter (single_line \<circ> family_type) fs in
     (\<forall>mf\<in>set single. \<forall>mf'\<in>set single. family_type mf = Info \<and> family_type mf' \<noteq> Info \<longrightarrow>
        family_name mf' \<noteq> family_name mf @ ''_info'') \<longrightarrow>
     distinct (map series (concat (map (exposed_samples \<circ> exposed_family) single))))"
proof -
  have ok: "registry_ok r" using assms(1) by (rule registry_reachable_ok)
  note scrape = registry_scrape_ok [OF assms(2) ok]
  then have wf: "\<forall>mf\<in>set fs. wf_metric_family mf" by blast
  then have "read_exposition (Serializer_Serialize global fs) = Some (map exposed_family fs)"
    unfolding Serializer_exposition using assms(3) wf_plain_family by (intro read_exposition_exposition) blast
  moreover have names: "distinct (map family_name fs)"
    using scrape ok by (auto simp: registry_ok_def intro: subseq_distinct)
  moreover have "distinct (map family_name (filter (single_line \<circ> family_type) fs))"
    using names by (rule distinct_map_filter)
  then have "distinct (map series (concat (map (exposed_samples \<circ> exposed_family) (filter (single_line \<circ> family_type) fs))))"
    if "\<forall>mf\<in>set (filter (single_line \<circ> family_type) fs). \<forall>mf'\<in>set (filter (single_line \<circ> family_type) fs).
      family_type mf = Info \<and> family_type mf' \<noteq> Info \<longrightarrow> family_name mf' \<noteq> family_name mf @ ''_info''"
    using that wf by (intro single_line_apart line_names_distinct) auto
  ultimately show ?thesis using wf single_line_series by (simp add: Let_def)
qed

theorem registry_exposed_witness:
  "\<exists>fs r' text. Registry_Collect (\<lambda>a i. 0) demo_registry = Some (fs, r') \<and> map family_name fs = [''requests''] \<and>
     read_exposition (Serializer_Serialize classic_locale fs) = Some text \<and> map exposed_name text = [''requests'']"
proof -
  obtain fs r' where c: "Registry_Collect (\<lambda>a i. 0) demo_registry = Some (fs, r')" "map family_name fs = [''requests'']"
    using demo_registry_collect [of "\<lambda>a i. 0"] by (elim exE conjE) (rule that)
  have "\<forall>mf\<in>set fs. newline \<notin> set (family_help mf)"
    using c(1) by (auto simp: Registry_Collect_def demo_registry_def Registry_new_def demo_family_def Family_Collect_def
        CollectMetric_def counter_class_def)
  from registry_exposed [OF demo_registry_reachable Registry_Collect_scrape [OF c(1)] this, of classic_locale] c show ?thesis
    by (intro exI [of _ fs] exI [of _ r'] exI [of _ "map exposed_family fs"]) simp
qed

subsection \<open>From the calls to the text\<close>

text \<open>The lines before the samples of a family.\<close>

definition family_head :: "'m metric_class \<Rightarrow> 'm family \<Rightarrow> line list" where
  "family_head cls f = (if fam_help f = '''' then [] else [Help_line (fam_name f) (fam_help f)]) @
     [Type_line (fam_name f) (type_name (class_type cls))]"

definition family_sample :: "'m family \<Rightarrow> label_map \<Rightarrow> string \<Rightarrow> (string \<times> string) list \<Rightarrow> string \<Rightarrow> sample" where
  "family_sample f ls sfx extra v = \<lparr>sample_name = fam_name f @ sfx,
     sample_labels = fam_constant_labels f @ ls @ extra, sample_value = v, sample_time = 0\<rparr>"

lemma to_labels_pairs [simp]: "map label_pair (to_labels ls) = ls"
  by (induction ls) (auto simp: to_labels_def)

lemma counter_count_text: "n \<le> 2 ^ 53 \<Longrightarrow> value_text (Counter_Value ((Counter_Increment ^^ n) Counter_default)) = show_nat n"
  using Counter_Increment_funpow [of Counter_default 0 n] value_text_of_nat [of n] by (simp add: dint_exact)

text \<open>Collecting a family whose metrics are each collected without a change of state, and the
  lines that come of it.\<close>

definition labelled :: "'m family \<Rightarrow> label_map \<Rightarrow> client_metric \<Rightarrow> client_metric" where
  "labelled f ls c = c\<lparr>metric_label := metric_label c @ to_labels (fam_constant_labels f) @ to_labels ls\<rparr>"

definition collected_family :: "'m metric_class \<Rightarrow> 'm family \<Rightarrow> ('m \<Rightarrow> client_metric) \<Rightarrow> metric_family" where
  "collected_family cls f collected = \<lparr>family_name = fam_name f, family_help = fam_help f, family_type = class_type cls,
     family_metric = map (\<lambda>(ls, a, m). labelled f ls (collected m)) (fam_metrics f)\<rparr>"

lemma collected_family_simps [simp]:
  "family_name (collected_family cls f collected) = fam_name f"
  "family_help (collected_family cls f collected) = fam_help f"
  "family_type (collected_family cls f collected) = class_type cls"
  "family_metric (collected_family cls f collected) = map (\<lambda>(ls, a, m). labelled f ls (collected m)) (fam_metrics f)"
  by (simp_all add: collected_family_def)

lemma labelled_simps [simp]:
  "counter_value (labelled f ls c) = counter_value c"
  "metric_histogram (labelled f ls c) = metric_histogram c"
  "metric_summary (labelled f ls c) = metric_summary c"
  by (simp_all add: labelled_def)

lemma Family_Collect_pure:
  assumes "\<forall>(ls, a, m)\<in>set (fam_metrics f). class_collect cls (clock a) m = Some (collected m, m)"
    and "fam_metrics f \<noteq> []"
  shows "Family_Collect cls clock f = Some ([collected_family cls f collected], f)"
proof -
  have "map_opt (\<lambda>(ls, a, m). map_option (\<lambda>(c, m). (c, ls, a, m)) (CollectMetric cls (clock a) f ls m)) es =
      Some (map (\<lambda>(ls, a, m). (labelled f ls (collected m), ls, a, m)) es)"
    if "\<forall>(ls, a, m)\<in>set es. class_collect cls (clock a) m = Some (collected m, m)" for es
    using that by (induction es) (auto simp: CollectMetric_def labelled_def)
  from this [OF assms(1)] assms(2) show ?thesis
    by (simp add: Family_Collect_def collected_family_def case_prod_unfold comp_def)
qed

lemma sample_of_labelled:
  "metric_label c = [] \<Longrightarrow> timestamp_ms c = 0 \<Longrightarrow>
     sample_of (collected_family cls f collected) (labelled f ls c) sfx extra v = family_sample f ls sfx extra v"
  by (simp add: sample_of_def labelled_def family_sample_def)

lemma collected_text:
  assumes "\<And>ls a m. (ls, a, m) \<in> set (fam_metrics f) \<Longrightarrow>
      family_samples (collected_family cls f collected) (labelled f ls (collected m)) = lines ls m"
  shows "Serializer_Serialize global [collected_family cls f collected] =
    print_lines (family_head cls f @ map Sample_line (concat (map (\<lambda>(ls, a, m). lines ls m) (fam_metrics f))))"
proof -
  have "map (family_samples (collected_family cls f collected)) (family_metric (collected_family cls f collected)) =
      map (\<lambda>(ls, a, m). lines ls m) (fam_metrics f)"
    using assms by auto
  then show ?thesis
    by (simp add: Serializer_exposition exposition_def family_lines_def family_head_def del: collected_family_simps(4))
qed

text \<open>C26: The text of a family of counters that were incremented by one, each up to \<open>2^53\<close> times,
  is the help and type line and for every counter a line with all its labels and the decimal
  number of its increments: no digit is lost on the way through \<open>double\<close> and the stream.\<close>

theorem counters_exposed:
  assumes "fam_metrics f = map (\<lambda>(ls, a, n). (ls, a, (Counter_Increment ^^ n) Counter_default)) counts"
    and "\<forall>(ls, a, n)\<in>set counts. n \<le> 2 ^ 53" and "counts \<noteq> []"
  shows "\<exists>fs. Family_Collect counter_class clock f = Some (fs, f) \<and>
    Serializer_Serialize global fs = print_lines (family_head counter_class f @
      map Sample_line (map (\<lambda>(ls, a, n). family_sample f ls '''' [] (show_nat n)) counts))"
proof -
  let ?line = "\<lambda>ls c. [family_sample f ls '''' [] (value_text (Counter_Value c))]"
  have "Family_Collect counter_class clock f = Some ([collected_family counter_class f Counter_Collect], f)"
    using assms(1,3) by (intro Family_Collect_pure) (auto simp: counter_class_def)
  moreover have "Serializer_Serialize global [collected_family counter_class f Counter_Collect] =
      print_lines (family_head counter_class f @ map Sample_line (concat (map (\<lambda>(ls, a, c). ?line ls c) (fam_metrics f))))"
  proof (rule collected_text)
    fix ls a c
    show "family_samples (collected_family counter_class f Counter_Collect) (labelled f ls (Counter_Collect c)) = ?line ls c"
      using sample_of_labelled [of "Counter_Collect c" counter_class f Counter_Collect ls "''''" "[]" "value_text (Counter_Value c)"]
      by (simp add: family_samples_def Counter_Collect_def empty_client_metric_def)
  qed
  moreover have "concat (map (\<lambda>(ls, a, c). ?line ls c) (fam_metrics f)) =
      map (\<lambda>(ls, a, n). family_sample f ls '''' [] (show_nat n)) counts"
    using assms(2) unfolding assms(1) by (induction counts) (auto simp: counter_count_text)
  ultimately show ?thesis by (intro exI conjI) (assumption, simp only:)
qed

text \<open>The number of increments survives in the text of the collected family.\<close>

theorem counters_exposed_witness:
  "\<exists>fs. Family_Collect counter_class (\<lambda>a i. 0) (demo_family\<lparr>fam_metrics := [([(''path'', ''/'')], 7, (Counter_Increment ^^ 12) Counter_default)]\<rparr>) =
      Some (fs, demo_family\<lparr>fam_metrics := [([(''path'', ''/'')], 7, (Counter_Increment ^^ 12) Counter_default)]\<rparr>) \<and>
    Serializer_Serialize classic_locale fs = ''# TYPE requests counter'' @ [newline] @
      ''requests{host='' @ [dquote] @ ''a'' @ [dquote] @ '',path='' @ [dquote] @ ''/'' @ [dquote] @ ''} 12'' @ [newline]"
proof -
  let ?f = "demo_family\<lparr>fam_metrics := [([(''path'', ''/'')], 7, (Counter_Increment ^^ 12) Counter_default)]\<rparr>"
  have "fam_metrics ?f = map (\<lambda>(ls, a, n). (ls, a, (Counter_Increment ^^ n) Counter_default)) [([(''path'', ''/'')], 7, 12)]"
    by simp
  from counters_exposed [OF this, of "\<lambda>a i. 0" classic_locale] obtain fs where
    fs: "Family_Collect counter_class (\<lambda>a i. 0) ?f = Some (fs, ?f)"
    "Serializer_Serialize classic_locale fs = print_lines (family_head counter_class ?f @
      [Sample_line (family_sample ?f [(''path'', ''/'')] '''' [] (show_nat 12))])"
    by auto
  have "show_nat 12 = ''12''" by code_simp
  then have "print_lines (family_head counter_class ?f @ [Sample_line (family_sample ?f [(''path'', ''/'')] '''' [] (show_nat 12))]) =
      ''# TYPE requests counter'' @ [newline] @
      ''requests{host='' @ [dquote] @ ''a'' @ [dquote] @ '',path='' @ [dquote] @ ''/'' @ [dquote] @ ''} 12'' @ [newline]"
    by (simp add: family_head_def family_sample_def demo_family_def type_name_def print_sample_def print_label_def
        escape_def escape_char_def)
  with fs show ?thesis by (intro exI [of _ fs]) simp
qed

text \<open>A counter that threads share, from their calls to the line a server reads.\<close>

lemma exposed_line:
  assumes "mf \<in> set fs" and "m \<in> set (family_metric mf)" and "s \<in> set (family_samples mf m)"
  shows "\<exists>before after. Serializer_Serialize global fs = before @ print_lines [Sample_line s] @ after"
proof -
  obtain fs1 fs2 where fs: "fs = fs1 @ mf # fs2" using split_list [OF assms(1)] by blast
  obtain ms1 ms2 where ms: "family_metric mf = ms1 @ m # ms2" using split_list [OF assms(2)] by blast
  obtain ss1 ss2 where ss: "family_samples mf m = ss1 @ s # ss2" using split_list [OF assms(3)] by blast
  have "\<exists>before after. family_lines mf = before @ [Sample_line s] @ after"
    unfolding family_lines_def ms by (simp add: ss) (metis append.assoc append_Cons)
  then obtain ls1 ls2 where "family_lines mf = ls1 @ [Sample_line s] @ ls2" by blast
  then have "Serializer_Serialize global fs = print_lines (concat (map family_lines fs1) @ ls1) @
      print_lines [Sample_line s] @ print_lines (ls2 @ concat (map family_lines fs2))"
    unfolding Serializer_exposition exposition_def fs by simp
  then show ?thesis by blast
qed

text \<open>C5: Any number of threads build the family of one name, add the counter of one set of labels to
  it and increment it, while the program does anything else but remove the series or write it: all
  of them come to hold the same family and the same counter, and whatever a collection then
  reports is serialized with the line of that series and exactly the number of increments made, by
  all threads together and up to \<open>2^53\<close>.\<close>

theorem shared_counter_exposed:
  assumes "registry_reachable behavior r" and "series_of name ls r = {}"
    and "(usage_step name ls)\<^sup>*\<^sup>* (usage_start r) u"
  shows "(\<forall>i j a b p q. us_client u i = Has_counter a p \<and> us_client u j = Has_counter b q \<longrightarrow> a = b \<and> p = q) \<and>
    (\<forall>i j a b. family_held (us_client u i) = Some a \<and> family_held (us_client u j) = Some b \<longrightarrow> a = b) \<and>
    (\<forall>i a p clock fs r' global. us_client u i = Has_counter a p \<and> us_total u \<le> 2 ^ 53 \<and>
       Registry_Collect clock (us_registry u) = Some (fs, r') \<longrightarrow>
       (\<exists>common before after. Serializer_Serialize global fs =
          before @ print_lines [Sample_line \<lparr>sample_name = name, sample_labels = common @ ls,
            sample_value = show_nat (us_total u), sample_time = 0\<rparr>] @ after))"
proof -
  have reg: "registry_ok r" by (rule registry_reachable_ok [OF assms(1)])
  have inv: "usage_ok name ls u" by (rule usage_reached [OF assms(3) reg assms(2)])
  then have ok: "registry_ok (us_registry u)" by (simp add: usage_ok_def)
  have same_family: "a = b" if held: "family_held (us_client u i) = Some a" "family_held (us_client u j) = Some b" for i j a b
  proof -
    have "a \<in> families_named name (us_registry u)" "b \<in> families_named name (us_registry u)"
      using inv held unfolding usage_ok_def by blast+
    then show ?thesis using reg_counters_unique [OF ok] by (fastforce simp: families_named_def)
  qed
  have has: "\<exists>c. (a, p, c) \<in> series_of name ls (us_registry u)" if "us_client u i = Has_counter a p" for i a p
    using inv that unfolding usage_ok_def by blast
  have same_counter: "a = b \<and> p = q" if "us_client u i = Has_counter a p" "us_client u j = Has_counter b q" for i j a b p q
    using has [OF that(1)] has [OF that(2)] series_unique [OF ok] by blast
  have line: "\<exists>common before after. Serializer_Serialize global fs =
      before @ print_lines [Sample_line \<lparr>sample_name = name, sample_labels = common @ ls,
        sample_value = show_nat (us_total u), sample_time = 0\<rparr>] @ after"
    if client: "us_client u i = Has_counter a p" and few: "us_total u \<le> 2 ^ 53"
      and collect: "Registry_Collect clock (us_registry u) = Some (fs, r')" for i a p clock fs r' global
  proof -
    obtain c where c: "(a, p, c) \<in> series_of name ls (us_registry u)" using has [OF client] by blast
    then have counted: "c = (Counter_Increment ^^ us_total u) Counter_default" using inv unfolding usage_ok_def by blast
    obtain f where f: "(a, f) \<in> set (reg_counters (us_registry u))" "fam_name f = name" "(ls, p, c) \<in> set (fam_metrics f)"
      using c by (auto simp: series_of_def)
    let ?mf = "collected_family counter_class f Counter_Collect" and ?m = "labelled f ls (Counter_Collect c)"
    have "Family_Collect counter_class clock f = Some ([?mf], f)"
      using f(3) by (intro Family_Collect_pure) (auto simp: counter_class_def)
    with Registry_Collect_counter [OF collect f(1)] have mf: "?mf \<in> set fs" by auto
    have m: "?m \<in> set (family_metric ?mf)" using f(3) by (force simp: collected_family_simps(4))
    have s: "family_sample f ls '''' [] (show_nat (us_total u)) \<in> set (family_samples ?mf ?m)"
      using sample_of_labelled [of "Counter_Collect c" counter_class f Counter_Collect ls "''''" "[]" "value_text (Counter_Value c)"]
        counter_count_text [OF few]
      by (simp add: family_samples_def Counter_Collect_def empty_client_metric_def counted)
    from exposed_line [OF mf m s, of global] show ?thesis
      by (auto simp: family_sample_def f(2))
  qed
  show ?thesis using same_family same_counter line by blast
qed

lemma print_labels_last: "\<exists>w. print_labels (ls @ [l]) = w @ print_label l"
proof (induction ls)
  case (Cons a ls)
  then show ?case by (cases "ls @ [l]") auto
qed simp

text \<open>Two threads, one increment each: the text has the line with the value 2.\<close>

theorem shared_counter_exposed_witness:
  "\<exists>u fs r' before after. (usage_step ''requests'' [(''path'', ''/'')])\<^sup>*\<^sup>* (usage_start (Registry_new Merge)) u \<and>
     us_client u 0 = Has_counter 1 7 \<and> us_client u 1 = Has_counter 1 7 \<and>
     Registry_Collect (\<lambda>a i. 0) (us_registry u) = Some (fs, r') \<and>
     Serializer_Serialize classic_locale fs = before @ ''path='' @ [dquote] @ ''/'' @ [dquote] @ ''} 2'' @ [newline] @ after"
proof -
  let ?c = "Counter_Increment (Counter_Increment Counter_default)"
  let ?u = "requests_usage [path_entry ?c] (Has_counter 1 7) (Has_counter 1 7) 2"
  have "series_of ''requests'' [(''path'', ''/'')] (Registry_new Merge) = {}" by (simp add: series_of_def Registry_new_def)
  note shared = shared_counter_exposed [OF registry_reachable.start this requests_run]
  obtain fs r' where collect: "Registry_Collect (\<lambda>a i. 0) (us_registry ?u) = Some (fs, r')"
    by (simp add: Registry_Collect_def requests_usage_def requests_registry_def requests_family_def Registry_new_def demo_family_def
        Family_Collect_def CollectMetric_def counter_class_def)
  have clients: "us_client ?u 0 = Has_counter 1 7" "us_client ?u 1 = Has_counter 1 7" "us_total ?u = 2"
    by (simp_all add: requests_usage_def)
  have "us_client ?u 0 = Has_counter 1 7 \<and> us_total ?u \<le> 2 ^ 53 \<and> Registry_Collect (\<lambda>a i. 0) (us_registry ?u) = Some (fs, r')"
    by (intro conjI clients(1) collect) (simp add: requests_usage_def)
  from conjunct2 [OF conjunct2 [OF shared], rule_format, OF this, of classic_locale] obtain common before after where
    "Serializer_Serialize classic_locale fs = before @ print_lines [Sample_line \<lparr>sample_name = ''requests'',
       sample_labels = common @ [(''path'', ''/'')], sample_value = show_nat 2, sample_time = 0\<rparr>] @ after"
    unfolding clients(3) by blast
  moreover have "show_nat 2 = ''2''" by code_simp
  moreover obtain w where "print_labels (common @ [(''path'', ''/'')]) = w @ print_label (''path'', ''/'')"
    using print_labels_last by blast
  ultimately have "Serializer_Serialize classic_locale fs =
      (before @ ''requests{'' @ w) @ ''path='' @ [dquote] @ ''/'' @ [dquote] @ ''} 2'' @ [newline] @ after"
    by (simp add: print_sample_def print_label_def escape_def escape_char_def)
  then show ?thesis using requests_run clients collect by blast
qed

text \<open>C23: The text of a histogram after up to \<open>2^53\<close> observations holds the exact count, the running
  sum, for every boundary in order a bucket with the number of observations that are not above it,
  and last the infinite bucket with the same number as the count.\<close>

theorem histogram_exposed:
  assumes "Histogram_new bs = Inr h" and "NaN \<notin> set bs" and "length vs \<le> 2 ^ 53"
    and "fam_metrics f = [(ls, a, fold Histogram_Observe vs h)]"
  shows "\<exists>fs. Family_Collect histogram_class clock f = Some (fs, f) \<and>
    Serializer_Serialize global fs = print_lines (family_head histogram_class f @ map Sample_line (
      [family_sample f ls ''_count'' [] (show_nat (length vs)),
       family_sample f ls ''_sum'' [] (value_text (foldl dadd (Fin 0) vs))] @
      map (\<lambda>b. family_sample f ls ''_bucket'' [(''le'', value_text b)]
        (show_nat (length (filter (\<lambda>v. \<not> dlt b v) vs)))) bs @
      [family_sample f ls ''_bucket'' [(''le'', ''+Inf'')] (show_nat (length vs))]))"
proof -
  let ?lines = "[family_sample f ls ''_count'' [] (show_nat (length vs)),
       family_sample f ls ''_sum'' [] (value_text (foldl dadd (Fin 0) vs))] @
      map (\<lambda>b. family_sample f ls ''_bucket'' [(''le'', value_text b)]
        (show_nat (length (filter (\<lambda>v. \<not> dlt b v) vs)))) bs @
      [family_sample f ls ''_bucket'' [(''le'', ''+Inf'')] (show_nat (length vs))]"
  let ?h = "\<lparr>histogram_sample_count = of_nat (length vs), histogram_sample_sum = foldl dadd (Fin 0) vs,
       histogram_bucket =
         map (\<lambda>b. \<lparr>cumulative_count = of_nat (length (filter (\<lambda>v. \<not> dlt b v) vs)), upper_bound = b\<rparr>) bs @
         [\<lparr>cumulative_count = of_nat (length vs), upper_bound = PInf\<rparr>]\<rparr>"
  define c where "c = empty_client_metric\<lparr>metric_histogram := ?h\<rparr>"
  have plain: "metric_label c = []" "timestamp_ms c = 0" and hist: "metric_histogram c = ?h"
    by (simp_all add: c_def empty_client_metric_def)
  have inf: "value_text PInf = ''+Inf''" by (simp add: value_text_def)
  note sample = sample_of_labelled [OF plain, of histogram_class f "\<lambda>h. c"]
  have few: "length (filter P vs) \<le> 2 ^ 53" for P using length_filter_le [of P vs] assms(3) by linarith
  have "class_collect histogram_class (clock a) (fold Histogram_Observe vs h) = Some (c, fold Histogram_Observe vs h)"
    using Histogram_Collect_exact [OF assms(1-3)] by (simp add: histogram_class_def c_def)
  then have "Family_Collect histogram_class clock f = Some ([collected_family histogram_class f (\<lambda>h. c)], f)"
    using assms(4) by (intro Family_Collect_pure) auto
  moreover have "Serializer_Serialize global [collected_family histogram_class f (\<lambda>h. c)] =
      print_lines (family_head histogram_class f @ map Sample_line (concat (map (\<lambda>(ls, a, h). ?lines) (fam_metrics f))))"
  proof (rule collected_text)
    fix ls' a' m
    assume "(ls', a', m) \<in> set (fam_metrics f)"
    then have "ls' = ls" using assms(4) by simp
    then show "family_samples (collected_family histogram_class f (\<lambda>h. c)) (labelled f ls' c) = ?lines"
      using assms(3) few
      by (simp add: family_samples_def bucket_sample_def sample hist inf count_text_of_nat comp_def)
  qed
  ultimately show ?thesis using assms(4) by (intro exI conjI) (assumption, simp)
qed

definition demo_sizes :: "histogram family" where
  "demo_sizes = \<lparr>fam_metrics = [([], 7, fold Histogram_Observe [Fin 2, Fin 1, Fin 5] demo_hist)], fam_name = ''sizes'',
     fam_help = '''', fam_constant_labels = []\<rparr>"

theorem histogram_exposed_witness:
  "\<exists>fs. Family_Collect histogram_class (\<lambda>a i. 0) demo_sizes = Some (fs, demo_sizes) \<and>
    Serializer_Serialize classic_locale fs = print_lines (Type_line ''sizes'' ''histogram'' # map Sample_line
      [family_sample demo_sizes [] ''_count'' [] (show_nat 3),
       family_sample demo_sizes [] ''_sum'' [] (value_text (dadd (dadd (dadd (Fin 0) (Fin 2)) (Fin 1)) (Fin 5))),
       family_sample demo_sizes [] ''_bucket'' [(''le'', value_text (Fin 1))] (show_nat 1),
       family_sample demo_sizes [] ''_bucket'' [(''le'', value_text (Fin 2))] (show_nat 2),
       family_sample demo_sizes [] ''_bucket'' [(''le'', ''+Inf'')] (show_nat 3)])"
proof -
  have m: "fam_metrics demo_sizes = [([], 7, fold Histogram_Observe [Fin 2, Fin 1, Fin 5] demo_hist)]"
    by (simp add: demo_sizes_def)
  have head: "family_head histogram_class demo_sizes = [Type_line ''sizes'' ''histogram'']"
    by (simp add: family_head_def demo_sizes_def type_name_def)
  have few: "length [Fin 2, Fin 1, Fin 5] \<le> 2 ^ 53" by simp
  from histogram_exposed [OF demo_hist _ few m, of "\<lambda>a i. 0" classic_locale] show ?thesis
    by (simp add: head numeral_3_eq_3 numeral_2_eq_2 del: dadd.simps print_lines_simps)
qed

subsection \<open>Names the registry does not keep apart\<close>

text \<open>The suffixes of infos, summaries and histograms can be the name of another family: an info
  \<open>up\<close> and a gauge \<open>up_info\<close> are exposed as the same series twice.\<close>

definition clashing_registry :: registry where
  "clashing_registry = (Registry_new Throw)\<lparr>
     reg_gauges := [(1, \<lparr>fam_metrics = [([], 2, Gauge_default)], fam_name = ''up_info'', fam_help = '''', fam_constant_labels = []\<rparr>)],
     reg_infos := [(3, \<lparr>fam_metrics = [([], 4, Info_object)], fam_name = ''up'', fam_help = '''', fam_constant_labels = []\<rparr>)]\<rparr>"

lemma clashing_reachable: "registry_reachable Throw clashing_registry"
proof -
  have names: "CheckMetricName ''up_info''" "CheckMetricName ''up''" by code_simp+
  note ops = Registry_Add_def NameExistsInOtherType_def FamilyNameExists_iff Registry_new_def
    add_to_families_def Family_new_def kind_simps wf_labels_def
  note adds = Family_Add_def Family_Add_object_def find_entry_def labels_count_def wf_labels_def
  let ?g = "\<lparr>fam_metrics = [], fam_name = ''up_info'', fam_help = '''', fam_constant_labels = []\<rparr> :: gauge family"
  let ?i = "\<lparr>fam_metrics = [], fam_name = ''up'', fam_help = '''', fam_constant_labels = []\<rparr> :: info family"
  let ?g' = "?g\<lparr>fam_metrics := [([], 2, Gauge_default)]\<rparr>" and ?i' = "?i\<lparr>fam_metrics := [([], 4, Info_object)]\<rparr>"
  let ?r = "\<lambda>gs is. (Registry_new Throw)\<lparr>reg_gauges := gs, reg_infos := is\<rparr>"
  have s1: "registry_step (Registry_new Throw) (?r [(1, ?g)] [])"
    by (rule registry_step.add [of "[]" 1 Gauge_T _ "''up_info''" "''''" "Inr 1"]) (simp_all add: ops names)
  have s2: "registry_step (?r [(1, ?g)] []) (?r [(1, ?g)] [(3, ?i)])"
    by (rule registry_step.add [of "[]" 3 Info_T _ "''up''" "''''" "Inr 3"]) (simp_all add: ops names)
  have "Family_Add (\<lambda>es e. es @ [e]) gauge_class [] 2 (Inr Gauge_default) ?g = (Inr 2, ?g')"
    by (simp add: adds)
  then have "family_step gauge_class ?g ?g'"
    by (rule family_step.add [OF append_places, rotated 3]) (simp_all add: wf_labels_def)
  then have s3: "registry_step (?r [(1, ?g)] [(3, ?i)]) (?r [(1, ?g')] [(3, ?i)])"
    using registry_step.gauge [of 1 ?g "?r [(1, ?g)] [(3, ?i)]" ?g'] by (simp add: update_family_def Registry_new_def)
  have "Family_Add (\<lambda>es e. es @ [e]) info_class [] 4 (Inr Info_object) ?i = (Inr 4, ?i')"
    by (simp add: adds)
  then have "family_step info_class ?i ?i'"
    by (rule family_step.add [OF append_places, rotated 3]) (simp_all add: wf_labels_def)
  then have s4: "registry_step (?r [(1, ?g')] [(3, ?i)]) (?r [(1, ?g')] [(3, ?i')])"
    using registry_step.info [of 3 ?i "?r [(1, ?g')] [(3, ?i)]" ?i'] by (simp add: update_family_def Registry_new_def)
  note steps = registry_reachable.step [OF registry_reachable.step [OF registry_reachable.step
    [OF registry_reachable.step [OF registry_reachable.start s1] s2] s3] s4]
  show ?thesis unfolding clashing_registry_def using steps by simp
qed

lemma suffix_names_clash:
  "\<exists>fs r'. Registry_Collect clock clashing_registry = Some (fs, r') \<and>
     \<not> distinct (map series (concat (map (exposed_samples \<circ> exposed_family) fs)))"
  by (simp add: Registry_Collect_def clashing_registry_def Registry_new_def Family_Collect_def CollectMetric_def
      gauge_class_def info_class_def Gauge_Collect_def Info_Collect_def empty_client_metric_def exposed_family_def
      family_samples_def sample_of_def series_def to_labels_def)

end
